(* ===== verification/Prelude.thy ===== *)
theory Prelude
  imports Main "HOL-Library.Word" "HOL-Library.Multiset" "HOL-Library.Code_Target_Nat"
begin

text \<open>
  Shared vocabulary of the development: machine types, the errors an operation of the
  library can end in, raw memory blocks with bounds-checked reads and writes, size_t
  arithmetic at 64 bits, little-endian numbers and the capacity-doubling loop that
  \<^verbatim>\<open>ByteArray::expand\<close> and \<^verbatim>\<open>RingBuffer::expand\<close> have in common.
\<close>

unbundle bit_operations_syntax

section \<open>Types, proof-rule collections\<close>

type_synonym byte = "8 word"
type_synonym bytes = "byte list"
type_synonym u16 = "16 word"
type_synonym u32 = "32 word"
type_synonym u64 = "64 word"

named_theorems mem_simps \<open>reads and writes of memory blocks\<close>
named_theorems ws_defs \<open>definitions a component unfolds in its own proofs\<close>

section \<open>Errors as values\<close>

text \<open>
  \<open>Bad_alloc\<close> is \<^verbatim>\<open>std::bad_alloc\<close>; \<open>Read_only\<close> the \<^verbatim>\<open>std::runtime_error\<close> of
  \<^verbatim>\<open>ByteArray::operator<<\<close>; \<open>Diverges\<close> a loop that never ends; \<open>Undefined_behaviour\<close>
  an access outside a memory block, a reallocation of memory the object does not own or
  a division by zero.
\<close>

datatype error = Bad_alloc | Read_only | Diverges | Undefined_behaviour

definition bindE :: "'e + 'a \<Rightarrow> ('a \<Rightarrow> 'e + 'b) \<Rightarrow> 'e + 'b" where
  "bindE m f = (case m of Inl e \<Rightarrow> Inl e | Inr x \<Rightarrow> f x)"

lemma bindE_Inl [simp]: "bindE (Inl e) f = Inl e"
  by (simp add: bindE_def)

lemma bindE_Inr [simp]: "bindE (Inr x) f = f x"
  by (simp add: bindE_def)

lemma bindE_eq_Inr: "bindE m f = Inr y \<longleftrightarrow> (\<exists>x. m = Inr x \<and> f x = Inr y)"
  by (cases m) auto

lemma bindE_eq_Inl: "bindE m f = Inl e \<longleftrightarrow> m = Inl e \<or> (\<exists>x. m = Inr x \<and> f x = Inl e)"
  by (cases m) auto

text \<open>Run an operation over a list of inputs; the first error ends the run.\<close>

fun runE :: "('x \<Rightarrow> 's \<Rightarrow> 'e + 's) \<Rightarrow> 'x list \<Rightarrow> 's \<Rightarrow> 'e + 's" where
  "runE f [] s = Inr s"
| "runE f (x # xs) s = bindE (f x s) (runE f xs)"

lemma runE_append: "runE f (xs @ ys) s = bindE (runE f xs s) (runE f ys)"
proof (induction xs arbitrary: s)
  case Nil
  show ?case by simp
next
  case (Cons x xs)
  then show ?case by (cases "f x s") auto
qed

lemma runE_invariant:
  assumes "\<And>x s s'. x \<in> set xs \<Longrightarrow> P s \<Longrightarrow> f x s = Inr s' \<Longrightarrow> P s'"
    and "P s" and "runE f xs s = Inr s'"
  shows "P s'"
  using assms
proof (induction xs arbitrary: s)
  case Nil
  then show ?case by simp
next
  case (Cons x xs)
  from Cons.prems(3) obtain t where t: "f x s = Inr t" and r: "runE f xs t = Inr s'"
    by (auto simp: bindE_eq_Inr)
  show ?case
  proof (rule Cons.IH [OF _ _ r])
    show "P t" using Cons.prems(1) [OF _ Cons.prems(2) t] by simp
  qed (use Cons.prems(1) in auto)
qed

text \<open>Two operations that agree under an invariant agree over a run.\<close>

lemma runE_cong_invariant:
  assumes "\<And>x s. x \<in> set xs \<Longrightarrow> P s \<Longrightarrow> f x s = g x s"
    and "\<And>x s s'. x \<in> set xs \<Longrightarrow> P s \<Longrightarrow> g x s = Inr s' \<Longrightarrow> P s'"
    and "P s"
  shows "runE f xs s = runE g xs s"
  using assms
proof (induction xs arbitrary: s)
  case Nil
  show ?case by simp
next
  case (Cons x xs)
  have "f x s = g x s" using Cons.prems by simp
  moreover have "runE f xs t = runE g xs t" if "g x s = Inr t" for t
  proof (rule Cons.IH)
    show "P t" using Cons.prems that by (meson list.set_intros(1))
    show "\<And>y s. y \<in> set xs \<Longrightarrow> P s \<Longrightarrow> f y s = g y s"
      using Cons.prems(1) by simp
    show "\<And>y s s'. y \<in> set xs \<Longrightarrow> P s \<Longrightarrow> g y s = Inr s' \<Longrightarrow> P s'"
      using Cons.prems(2) by (meson list.set_intros(2))
  qed
  ultimately show ?case by (cases "g x s") auto
qed

section \<open>Memory blocks\<close>

text \<open>
  A block is the list of its bytes. \<open>peek m off n\<close> reads n bytes at an offset
  (the source side of \<^verbatim>\<open>memcpy\<close>), \<open>poke m off xs\<close> overwrites bytes at an offset
  (its destination side). Either one outside the block is undefined behaviour.
\<close>

definition peek :: "bytes \<Rightarrow> nat \<Rightarrow> nat \<Rightarrow> error + bytes" where
  "peek m off n =
     (if off + n \<le> length m then Inr (take n (drop off m)) else Inl Undefined_behaviour)"

definition poke :: "bytes \<Rightarrow> nat \<Rightarrow> bytes \<Rightarrow> error + bytes" where
  "poke m off xs =
     (if off + length xs \<le> length m
      then Inr (take off m @ xs @ drop (off + length xs) m)
      else Inl Undefined_behaviour)"

lemma peek_ok [mem_simps]: "off + n \<le> length m \<Longrightarrow> peek m off n = Inr (take n (drop off m))"
  by (simp add: peek_def)

lemma poke_ok [mem_simps]:
  "off + length xs \<le> length m
     \<Longrightarrow> poke m off xs = Inr (take off m @ xs @ drop (off + length xs) m)"
  by (simp add: poke_def)

lemma poke_length: "poke m off xs = Inr m' \<Longrightarrow> length m' = length m"
  by (auto simp: poke_def split: if_splits)

lemma poke_take:
  "poke m off xs = Inr m' \<Longrightarrow> take (off + length xs) m' = take off m @ xs"
  by (auto simp: poke_def split: if_splits)

text \<open>
  The allocator: which requests it can serve, and what fresh memory holds. Whatever it
  can serve, malloc and realloc refuse a request above \<^verbatim>\<open>PTRDIFF_MAX\<close>.
\<close>

record env =
  can_alloc :: "nat \<Rightarrow> bool"
  junk :: "nat \<Rightarrow> byte"

definition malloc_ok :: "env \<Rightarrow> nat \<Rightarrow> bool" where
  "malloc_ok E n \<longleftrightarrow> n < 2 ^ 63 \<and> can_alloc E n"

text \<open>The environment of the witnesses: requests below 100 bytes succeed.\<close>

definition small_env :: env where
  "small_env = \<lparr>can_alloc = \<lambda>n. n < 100, junk = \<lambda>i. 7\<rparr>"

definition fresh :: "env \<Rightarrow> nat \<Rightarrow> nat \<Rightarrow> bytes" where
  "fresh E lo hi = map (junk E) [lo..<hi]"

lemma length_fresh [simp]: "length (fresh E lo hi) = hi - lo"
  by (simp add: fresh_def)

section \<open>size_t arithmetic\<close>

definition size_mod :: nat where
  "size_mod = 2 ^ 64"

definition sz_add :: "nat \<Rightarrow> nat \<Rightarrow> nat" where
  "sz_add a b = (a + b) mod size_mod"

definition sz_sub :: "nat \<Rightarrow> nat \<Rightarrow> nat" where
  "sz_sub a b = (a + (size_mod - b)) mod size_mod"

lemma size_mod_pos [simp]: "0 < size_mod"
  by (simp add: size_mod_def)

lemma sz_add_exact [simp]: "a + b < size_mod \<Longrightarrow> sz_add a b = a + b"
  by (simp add: sz_add_def)

lemma sz_sub_exact [simp]:
  assumes "b \<le> a" and "a < size_mod"
  shows "sz_sub a b = a - b"
proof -
  have "a + (size_mod - b) = (a - b) + size_mod" using assms by simp
  then have "sz_sub a b = (a - b) mod size_mod" by (simp add: sz_sub_def)
  then show ?thesis using assms by simp
qed

lemma sz_sub_wraps:
  assumes "a < b" and "b \<le> size_mod"
  shows "sz_sub a b = size_mod - (b - a)"
  using assms by (simp add: sz_sub_def)

text \<open>One turn around a ring.\<close>

lemma mod_one_turn: "c \<le> a \<Longrightarrow> a < 2 * c \<Longrightarrow> a mod c = (a - c :: nat)"
  by (simp add: le_mod_geq)

section \<open>Little-endian numbers\<close>

fun bytes_to_nat :: "bytes \<Rightarrow> nat" where
  "bytes_to_nat [] = 0"
| "bytes_to_nat (b # bs) = unat b + 256 * bytes_to_nat bs"

fun nat_to_bytes :: "nat \<Rightarrow> nat \<Rightarrow> bytes" where
  "nat_to_bytes 0 n = []"
| "nat_to_bytes (Suc k) n = word_of_nat n # nat_to_bytes k (n div 256)"

definition le_word :: "bytes \<Rightarrow> 'a::len word" where
  "le_word bs = word_of_nat (bytes_to_nat bs)"

definition word_le :: "'a::len word \<Rightarrow> bytes" where
  "word_le w = nat_to_bytes (LENGTH('a) div 8) (unat w)"

lemma length_nat_to_bytes [simp]: "length (nat_to_bytes k n) = k"
  by (induction k n rule: nat_to_bytes.induct) simp_all

lemma length_word_le [simp]: "length (word_le (w :: 'a::len word)) = LENGTH('a) div 8"
  by (simp add: word_le_def)

lemma bytes_to_nat_of_nat: "bytes_to_nat (nat_to_bytes k n) = n mod 256 ^ k"
proof (induction k n rule: nat_to_bytes.induct)
  case (1 n)
  show ?case by simp
next
  case (2 k n)
  have "bytes_to_nat (nat_to_bytes (Suc k) n) = n mod 256 + 256 * (n div 256 mod 256 ^ k)"
    by (simp add: "2" unat_of_nat)
  then show ?case by (simp add: mod_mult2_eq)
qed

lemma nat_to_bytes_of_bytes: "nat_to_bytes (length bs) (bytes_to_nat bs) = bs"
proof (induction bs)
  case Nil
  show ?case by simp
next
  case (Cons b bs)
  have lt: "unat b < 256" using unsigned_less [of b, where 'a = nat] by simp
  then have "(unat b + 256 * bytes_to_nat bs) div 256 = bytes_to_nat bs" by simp
  moreover have "(word_of_nat (unat b + 256 * bytes_to_nat bs) :: byte) = b"
  proof (rule word_unat_eq_iff [THEN iffD2])
    show "unat (word_of_nat (unat b + 256 * bytes_to_nat bs) :: byte) = unat b"
      using lt by (simp only: unat_of_nat) simp
  qed
  ultimately show ?case using Cons.IH by simp
qed

lemma le_word_word_le [simp]:
  fixes w :: "'a::len word"
  assumes "8 dvd LENGTH('a)"
  shows "le_word (word_le w) = w"
proof -
  have "(256::nat) ^ (LENGTH('a) div 8) = 2 ^ (8 * (LENGTH('a) div 8))"
    by (simp add: power_mult)
  then have "(256::nat) ^ (LENGTH('a) div 8) = 2 ^ LENGTH('a)"
    using assms by simp
  then have "bytes_to_nat (word_le w) = unat w"
    by (simp add: word_le_def bytes_to_nat_of_nat unsigned_less)
  then show ?thesis by (simp add: le_word_def)
qed

section \<open>Capacity doubling\<close>

text \<open>
  \<^verbatim>\<open>while (size > newCap) newCap = newCap << 1;\<close> over size_t: \<open>None\<close> is a loop that
  does not end.
\<close>

partial_function (option) grow :: "nat \<Rightarrow> nat \<Rightarrow> nat option" where
  "grow newCap sz = (if newCap < sz then grow (sz_add newCap newCap) sz else Some newCap)"

declare grow.simps [code]

lemma grow_stop: "sz \<le> c \<Longrightarrow> grow c sz = Some c"
  by (simp add: grow.simps)

text \<open>It ends for every positive capacity and every size up to half the range.\<close>

lemma grow_terminates:
  assumes "0 < c" and "sz \<le> 2 ^ 63"
  shows "\<exists>r. grow c sz = Some r"
  using assms
proof (induction "sz - c" arbitrary: c rule: less_induct)
  case less
  show ?case
  proof (cases "c < sz")
    case True
    with less.prems have "sz_add c c = c + c" by (simp add: size_mod_def)
    moreover have "\<exists>r. grow (c + c) sz = Some r"
      using less.prems True by (intro less.hyps) auto
    ultimately show ?thesis using True by (simp add: grow.simps [of c])
  next
    case False
    then show ?thesis by (simp add: grow_stop)
  qed
qed

text \<open>What it returns: the capacity doubled just often enough.\<close>

lemma grow_result:
  assumes "grow c sz = Some r" and "0 < c" and "sz \<le> 2 ^ 63"
  shows "sz \<le> r \<and> c \<le> r \<and> (r = c \<or> r < 2 * sz) \<and> (\<exists>k. r = c * 2 ^ k)"
  using assms
proof (induction "sz - c" arbitrary: c rule: less_induct)
  case less
  show ?case
  proof (cases "c < sz")
    case True
    with less.prems have cc: "sz_add c c = c + c" by (simp add: size_mod_def)
    with less.prems True have g: "grow (c + c) sz = Some r" by (simp add: grow.simps [of c])
    have IH: "sz \<le> r \<and> c + c \<le> r \<and> (r = c + c \<or> r < 2 * sz) \<and> (\<exists>k. r = (c + c) * 2 ^ k)"
      using less.prems True by (intro less.hyps g) auto
    then obtain k where "r = (c + c) * 2 ^ k" by blast
    then have pow: "\<exists>k. r = c * 2 ^ k" by (intro exI [of _ "Suc k"]) simp
    show ?thesis
    proof (intro conjI)
      show "sz \<le> r" and "c \<le> r" using IH by simp_all
      show "r = c \<or> r < 2 * sz" using IH True by auto
    qed (rule pow)
  next
    case False
    with less.prems have "r = c" by (simp add: grow_stop)
    moreover have "\<exists>k. c = c * 2 ^ k" by (rule exI [of _ 0]) simp
    ultimately show ?thesis using False by auto
  qed
qed

text \<open>Whenever the loop ends, without any bound on the sizes:\<close>

lemma grow_some:
  assumes "grow c sz = Some r"
  shows "sz \<le> r \<and> c \<le> r \<and> (c < size_mod \<longrightarrow> r < size_mod)"
proof -
  have "sz \<le> r \<and> (c < sz \<or> r = c) \<and> (c < size_mod \<longrightarrow> r < size_mod)"
  proof (rule grow.raw_induct [OF _ assms, where P = "\<lambda>c sz r. sz \<le> r \<and> (c < sz \<or> r = c)
      \<and> (c < size_mod \<longrightarrow> r < size_mod)"])
    fix f :: "nat \<Rightarrow> nat \<Rightarrow> nat option" and c sz r
    assume IH: "\<And>c sz r. f c sz = Some r \<Longrightarrow>
        sz \<le> r \<and> (c < sz \<or> r = c) \<and> (c < size_mod \<longrightarrow> r < size_mod)"
      and eq: "(if c < sz then f (sz_add c c) sz else Some c) = Some r"
    show "sz \<le> r \<and> (c < sz \<or> r = c) \<and> (c < size_mod \<longrightarrow> r < size_mod)"
    proof (cases "c < sz")
      case True
      with eq have "f (sz_add c c) sz = Some r" by simp
      from IH [OF this] True show ?thesis by (simp add: sz_add_def)
    next
      case False
      with eq show ?thesis by simp
    qed
  qed
  then show ?thesis by auto
qed

text \<open>From capacity 0 the loop doubles 0 for ever.\<close>

lemma grow_zero_diverges:
  assumes "0 < sz"
  shows "grow 0 sz = None"
proof (rule ccontr)
  assume "grow 0 sz \<noteq> None"
  then obtain r where r: "grow 0 sz = Some r" by auto
  have "0 = (0::nat) \<longrightarrow> sz \<le> 0"
  proof (rule grow.raw_induct [where P = "\<lambda>c sz r. c = 0 \<longrightarrow> sz \<le> 0", OF _ r])
    fix f :: "nat \<Rightarrow> nat \<Rightarrow> nat option" and c sz r
    assume IH: "\<And>c sz r. f c sz = Some r \<Longrightarrow> c = 0 \<longrightarrow> sz \<le> 0"
      and eq: "(if c < sz then f (sz_add c c) sz else Some c) = Some r"
    show "c = 0 \<longrightarrow> sz \<le> 0"
    proof
      assume "c = 0"
      then have "sz_add c c = 0" by (simp add: sz_add_def)
      with eq IH [of 0 sz r] \<open>c = 0\<close> show "sz \<le> 0" by (cases "0 < sz") auto
    qed
  qed
  with assms show False by simp
qed

section \<open>Conversions of integers\<close>

lemma uint_of_int_small:
  assumes "0 \<le> x" and "x < 2 ^ LENGTH('a)"
  shows "uint (of_int x :: 'a::len word) = x"
  using assms by (simp add: uint_word_of_int take_bit_int_eq_self)

lemma ucast_of_int: "LENGTH('b) \<le> LENGTH('a) \<Longrightarrow> (ucast (of_int x :: 'a::len word) :: 'b::len word) = of_int x"
  by transfer (simp add: take_bit_of_int min_absorb2)

lemma sint_of_int_small:
  assumes "- (2 ^ (LENGTH('a) - 1)) \<le> x" and "x < 2 ^ (LENGTH('a) - 1)"
  shows "sint (of_int x :: 'a::len word) = x"
  using assms by transfer (simp add: signed_take_bit_int_eq_self)

end
