(* ===== verification/Byte_Stream.thy ===== *)
theory Byte_Stream
  imports Prelude
begin

text \<open>
  The contract that \<^verbatim>\<open>ByteArray\<close> and \<^verbatim>\<open>RingBuffer\<close> share, as their clients (the
  sockets, the string and number operators) use it: bytes are written at the back, read
  from the front, and nothing is lost, duplicated or reordered. The locale states it for
  any implementation; Byte_Array and Ring_Buffer interpret it on the two buffers.
\<close>

section \<open>Operations on a stream and their specification\<close>

datatype stream_op = Put bytes | Get nat

text \<open>A list of writes and reads on an implementation; the outputs of the reads.\<close>

fun run_stream ::
    "(bytes \<Rightarrow> 's \<Rightarrow> error + 's) \<Rightarrow> (nat \<Rightarrow> 's \<Rightarrow> error + bytes \<times> 's)
      \<Rightarrow> stream_op list \<Rightarrow> 's \<Rightarrow> error + bytes list \<times> 's" where
  "run_stream put get [] s = Inr ([], s)"
| "run_stream put get (Put xs # ops) s = bindE (put xs s) (run_stream put get ops)"
| "run_stream put get (Get n # ops) s =
     bindE (get n s) (\<lambda>(ys, s1).
     bindE (run_stream put get ops s1) (\<lambda>(out, s2). Inr (ys # out, s2)))"

text \<open>
  The same on a plain list of bytes. A read of length 0 takes everything, as
  \<^verbatim>\<open>readData\<close> does on both buffers.
\<close>

definition spec_get :: "nat \<Rightarrow> bytes \<Rightarrow> bytes \<times> bytes" where
  "spec_get n q = (if n = 0 then (q, []) else (take n q, drop n q))"

fun spec_stream :: "stream_op list \<Rightarrow> bytes \<Rightarrow> bytes list \<times> bytes" where
  "spec_stream [] q = ([], q)"
| "spec_stream (Put xs # ops) q = spec_stream ops (q @ xs)"
| "spec_stream (Get n # ops) q =
     (let (ys, q1) = spec_get n q; (out, q2) = spec_stream ops q1 in (ys # out, q2))"

text \<open>Nothing is lost: what came out, then what is left, is what was there, then what went in.\<close>

fun puts :: "stream_op list \<Rightarrow> bytes" where
  "puts [] = []"
| "puts (Put xs # ops) = xs @ puts ops"
| "puts (Get n # ops) = puts ops"

lemma spec_get_append: "spec_get n q = (ys, q1) \<Longrightarrow> ys @ q1 = q"
  by (auto simp: spec_get_def split: if_splits)

lemma spec_stream_conserves:
  "spec_stream ops q = (out, q') \<Longrightarrow> concat out @ q' = q @ puts ops"
proof (induction ops q arbitrary: out q' rule: spec_stream.induct)
  case (1 q)
  then show ?case by simp
next
  case (2 xs ops q)
  then show ?case by simp
next
  case (3 n ops q)
  obtain ys q1 where g: "spec_get n q = (ys, q1)" by fastforce
  obtain out1 q2 where r: "spec_stream ops q1 = (out1, q2)" by fastforce
  have "concat out1 @ q2 = q1 @ puts ops" using "3.IH" [OF g [symmetric] refl] r by simp
  moreover have "out = ys # out1" and "q' = q2" using "3.prems" g r by simp_all
  moreover have "ys @ q1 = q" using g by (rule spec_get_append)
  ultimately show ?case by auto
qed

section \<open>Length-prefixed frames\<close>

text \<open>
  A string travels as its length in two bytes, then its bytes. \<open>frame\<close> is what one
  frame looks like on the wire.
\<close>

definition frame :: "bytes \<Rightarrow> bytes" where
  "frame xs = word_le (word_of_nat (length xs) :: u16) @ xs"

definition put_frame :: "(bytes \<Rightarrow> 's \<Rightarrow> error + 's) \<Rightarrow> bytes \<Rightarrow> 's \<Rightarrow> error + 's" where
  "put_frame put xs s = bindE (put (word_le (word_of_nat (length xs) :: u16)) s) (put xs)"

definition get_frame ::
    "(nat \<Rightarrow> 's \<Rightarrow> error + bytes \<times> 's) \<Rightarrow> 's \<Rightarrow> error + bytes \<times> 's" where
  "get_frame get s = bindE (get 2 s) (\<lambda>(h, s1). get (unat (le_word h :: u16)) s1)"

text \<open>Read a number of frames, one after the other.\<close>

fun repeat_get :: "nat \<Rightarrow> ('s \<Rightarrow> error + 'x \<times> 's) \<Rightarrow> 's \<Rightarrow> error + 'x list \<times> 's" where
  "repeat_get 0 f s = Inr ([], s)"
| "repeat_get (Suc n) f s =
     bindE (f s) (\<lambda>(x, s1). bindE (repeat_get n f s1) (\<lambda>(xs, s2). Inr (x # xs, s2)))"

text \<open>A body a frame can carry: not empty and short enough for the two-byte length.\<close>

definition framable :: "bytes \<Rightarrow> bool" where
  "framable xs \<longleftrightarrow> xs \<noteq> [] \<and> length xs < 2 ^ 16"

lemma frame_header_length:
  "framable xs \<Longrightarrow> unat (le_word (word_le (word_of_nat (length xs) :: u16)) :: u16) = length xs"
  by (simp add: framable_def unat_of_nat)

section \<open>The contract\<close>

locale byte_stream =
  fixes put :: "bytes \<Rightarrow> 's \<Rightarrow> error + 's"
    and get :: "nat \<Rightarrow> 's \<Rightarrow> error + bytes \<times> 's"
    and unread :: "'s \<Rightarrow> bytes"
    and inv :: "'s \<Rightarrow> bool"
  assumes put_inv: "inv s \<Longrightarrow> put xs s = Inr s' \<Longrightarrow> inv s'"
    and put_unread: "inv s \<Longrightarrow> put xs s = Inr s' \<Longrightarrow> unread s' = unread s @ xs"
    and get_total: "inv s \<Longrightarrow> \<exists>ys s'. get n s = Inr (ys, s')"
    and get_inv: "inv s \<Longrightarrow> get n s = Inr (ys, s') \<Longrightarrow> inv s'"
    and get_unread: "inv s \<Longrightarrow> get n s = Inr (ys, s') \<Longrightarrow> (ys, unread s') = spec_get n (unread s)"
begin

text \<open>Any mix of writes and reads behaves like the list.\<close>

lemma run_refines:
  "inv s \<Longrightarrow> run_stream put get ops s = Inr (out, s')
     \<Longrightarrow> inv s' \<and> spec_stream ops (unread s) = (out, unread s')"
proof (induction ops arbitrary: s out)
  case Nil
  then show ?case by simp
next
  case (Cons a ops)
  show ?case
  proof (cases a)
    case (Put xs)
    with Cons.prems(2) obtain s1 where p: "put xs s = Inr s1"
      and r: "run_stream put get ops s1 = Inr (out, s')"
      by (auto simp: bindE_eq_Inr)
    have "inv s1" using Cons.prems(1) p by (rule put_inv)
    moreover have "unread s1 = unread s @ xs" using Cons.prems(1) p by (rule put_unread)
    ultimately show ?thesis using Cons.IH [OF _ r] Put by simp
  next
    case (Get n)
    with Cons.prems(2) obtain ys s1 out1 where g: "get n s = Inr (ys, s1)"
      and r: "run_stream put get ops s1 = Inr (out1, s')" and o: "out = ys # out1"
      by (auto simp: bindE_eq_Inr)
    have "inv s1" using Cons.prems(1) g by (rule get_inv)
    moreover have "spec_get n (unread s) = (ys, unread s1)"
      using get_unread [OF Cons.prems(1) g] by simp
    ultimately show ?thesis using Cons.IH [OF _ r] Get o by simp
  qed
qed

lemma run_conserves:
  assumes "inv s" and "run_stream put get ops s = Inr (out, s')"
  shows "concat out @ unread s' = unread s @ puts ops"
  using run_refines [OF assms] spec_stream_conserves by blast

text \<open>Frames: what is written frame by frame is read back frame by frame.\<close>

lemma put_frame_unread:
  assumes "inv s" and "put_frame put xs s = Inr s'"
  shows "inv s' \<and> unread s' = unread s @ frame xs"
proof -
  from assms(2) obtain s1 where 1: "put (word_le (word_of_nat (length xs) :: u16)) s = Inr s1"
    and 2: "put xs s1 = Inr s'"
    by (auto simp: put_frame_def bindE_eq_Inr)
  have "inv s1" using assms(1) 1 by (rule put_inv)
  with put_inv [OF this 2] put_unread [OF this 2] put_unread [OF assms(1) 1]
  show ?thesis by (simp add: frame_def)
qed

lemma put_frames_unread:
  "inv s \<Longrightarrow> runE (put_frame put) xss s = Inr s'
     \<Longrightarrow> inv s' \<and> unread s' = unread s @ concat (map frame xss)"
proof (induction xss arbitrary: s)
  case Nil
  then show ?case by simp
next
  case (Cons xs xss)
  then obtain s1 where 1: "put_frame put xs s = Inr s1" and 2: "runE (put_frame put) xss s1 = Inr s'"
    by (auto simp: bindE_eq_Inr)
  with put_frame_unread [OF Cons.prems(1) 1] Cons.IH [OF _ 2] show ?case by simp
qed

lemma get_frame_unread:
  assumes "inv s" and "unread s = frame xs @ rest" and "framable xs"
  shows "\<exists>s'. get_frame get s = Inr (xs, s') \<and> inv s' \<and> unread s' = rest"
proof -
  obtain h s1 where g1: "get 2 s = Inr (h, s1)" using get_total [OF assms(1)] by blast
  have h: "h = word_le (word_of_nat (length xs) :: u16)" and u1: "unread s1 = xs @ rest"
    using get_unread [OF assms(1) g1] assms(2) by (simp_all add: spec_get_def frame_def)
  have i1: "inv s1" using assms(1) g1 by (rule get_inv)
  obtain ys s2 where g2: "get (length xs) s1 = Inr (ys, s2)" using get_total [OF i1] by blast
  have "ys = xs" and "unread s2 = rest"
    using get_unread [OF i1 g2] u1 assms(3) by (simp_all add: spec_get_def framable_def)
  moreover have "inv s2" using i1 g2 by (rule get_inv)
  moreover have "get_frame get s = Inr (ys, s2)"
    using g1 g2 h frame_header_length [OF assms(3)] by (simp add: get_frame_def)
  ultimately show ?thesis by blast
qed

lemma get_frames_unread:
  "inv s \<Longrightarrow> unread s = concat (map frame xss) @ rest \<Longrightarrow> list_all framable xss
     \<Longrightarrow> \<exists>s'. repeat_get (length xss) (get_frame get) s = Inr (xss, s')
            \<and> inv s' \<and> unread s' = rest"
proof (induction xss arbitrary: s)
  case Nil
  then show ?case by simp
next
  case (Cons xs xss)
  have "unread s = frame xs @ (concat (map frame xss) @ rest)" and "framable xs"
    using Cons.prems(2,3) by simp_all
  with get_frame_unread [OF Cons.prems(1)] obtain s1
    where g: "get_frame get s = Inr (xs, s1)" and i: "inv s1"
      and u: "unread s1 = concat (map frame xss) @ rest"
    by blast
  from Cons.IH [OF i u] Cons.prems(3) g show ?case by auto
qed

lemma frames_roundtrip:
  assumes "inv s" and "unread s = []" and "list_all framable xss"
    and "runE (put_frame put) xss s = Inr s'"
  shows "\<exists>s''. repeat_get (length xss) (get_frame get) s' = Inr (xss, s'') \<and> unread s'' = []"
proof -
  have "inv s'" and "unread s' = concat (map frame xss) @ []"
    using put_frames_unread [OF assms(1,4)] assms(2) by simp_all
  from get_frames_unread [OF this assms(3)] show ?thesis by blast
qed

end

end
