(* ===== verification/Byte_Array.thy ===== *)
theory Byte_Array
  imports Byte_Stream
begin

text \<open>
  Model of \<^verbatim>\<open>ws::core::ByteArray\<close> (include/ws/core/ByteArray.h,
  wsCore/src/ByteArray.cpp): a growable block of memory with a read and a write position.
  The record has the class's fields; \<open>ba_data\<close> is the content of the block \<^verbatim>\<open>_data\<close>
  points to, the empty list for a null pointer. A memory access outside the block and a
  \<^verbatim>\<open>realloc\<close> of attached memory are \<open>Undefined_behaviour\<close>. Positions are size_t:
  every sum and difference the code computes on them is taken modulo 2^64.
\<close>

section \<open>State\<close>

record byte_array =
  isAttached :: bool
  ba_readOnly :: bool
  ba_data :: bytes
  ba_readPos :: nat
  ba_writePos :: nat
  ba_capacity :: nat

definition BYTES_DEFAULT_SIZE :: nat where
  "BYTES_DEFAULT_SIZE = 4096"

section \<open>Construction\<close>

definition ba_new :: "env \<Rightarrow> nat \<Rightarrow> error + byte_array" where
  "ba_new E len =
     (let n = (if len = 0 then BYTES_DEFAULT_SIZE else len) in
      if malloc_ok E n
      then Inr \<lparr>isAttached = False, ba_readOnly = False, ba_data = replicate n 0,
                ba_readPos = 0, ba_writePos = 0, ba_capacity = n\<rparr>
      else Inl Bad_alloc)"

definition ba_copy :: "env \<Rightarrow> byte_array \<Rightarrow> error + byte_array" where
  "ba_copy E other =
     (if isAttached other then Inr other
      else if malloc_ok E (ba_capacity other)
      then bindE (peek (ba_data other) 0 (ba_capacity other)) (\<lambda>d. Inr (other\<lparr>ba_data := d\<rparr>))
      else Inl Bad_alloc)"

definition ba_of_memory :: "env \<Rightarrow> bytes \<Rightarrow> nat \<Rightarrow> bool \<Rightarrow> error + byte_array" where
  "ba_of_memory E mem len cp =
     (let b = \<lparr>isAttached = \<not> cp, ba_readOnly = \<not> cp, ba_data = take len mem,
               ba_readPos = 0, ba_writePos = len, ba_capacity = len\<rparr> in
      if cp then
        if malloc_ok E len
        then bindE (peek mem 0 len) (\<lambda>d. Inr (b\<lparr>ba_data := d\<rparr>))
        else Inl Bad_alloc
      else Inr b)"

text \<open>The moved-from object of the move constructor and of the move assignment.\<close>

definition ba_moved :: "byte_array \<Rightarrow> byte_array" where
  "ba_moved r = r\<lparr>ba_data := [], ba_capacity := 0, ba_readPos := 0, ba_writePos := 0,
                  ba_readOnly := False, isAttached := False\<rparr>"

definition ba_move :: "byte_array \<Rightarrow> byte_array \<times> byte_array" where
  "ba_move r = (r, ba_moved r)"

text \<open>
  The assignments. The old content of the target plays no part; copy assignment drops the
  old block without freeing it, which this model of values does not show.
\<close>

definition ba_assign :: "env \<Rightarrow> byte_array \<Rightarrow> byte_array \<Rightarrow> error + byte_array" where
  "ba_assign E this other =
     (let b = this\<lparr>isAttached := isAttached other, ba_readOnly := ba_readOnly other,
                   ba_readPos := ba_readPos other, ba_writePos := ba_writePos other,
                   ba_capacity := ba_capacity other\<rparr> in
      if isAttached other then Inr (b\<lparr>ba_data := ba_data other\<rparr>)
      else if malloc_ok E (ba_capacity other)
      then bindE (peek (ba_data other) 0 (ba_capacity other)) (\<lambda>d. Inr (b\<lparr>ba_data := d\<rparr>))
      else Inl Bad_alloc)"

definition ba_move_assign :: "byte_array \<Rightarrow> byte_array \<Rightarrow> byte_array \<times> byte_array" where
  "ba_move_assign this r =
     (this\<lparr>isAttached := isAttached r, ba_readOnly := ba_readOnly r, ba_data := ba_data r,
           ba_readPos := ba_readPos r, ba_writePos := ba_writePos r,
           ba_capacity := ba_capacity r\<rparr>, ba_moved r)"

definition ba_attach :: "bytes \<Rightarrow> nat \<Rightarrow> byte_array \<Rightarrow> byte_array" where
  "ba_attach mem len b =
     b\<lparr>ba_data := take len mem, isAttached := True, ba_readOnly := True,
       ba_capacity := len, ba_readPos := 0, ba_writePos := len\<rparr>"

definition ba_swap :: "byte_array \<times> byte_array \<Rightarrow> byte_array \<times> byte_array" where
  "ba_swap p = (case p of (a, b) \<Rightarrow> (b, a))"

section \<open>Positions and capacity\<close>

definition readOnly :: "byte_array \<Rightarrow> bool" where
  "readOnly b = (isAttached b \<or> ba_readOnly b)"

definition set_readOnly :: "bool \<Rightarrow> byte_array \<Rightarrow> byte_array" where
  "set_readOnly v b = b\<lparr>ba_readOnly := v\<rparr>"

definition readAvailable :: "byte_array \<Rightarrow> nat" where
  "readAvailable b = sz_sub (ba_writePos b) (ba_readPos b)"

definition writeAvailable :: "byte_array \<Rightarrow> nat" where
  "writeAvailable b = sz_sub (ba_capacity b) (ba_writePos b)"

definition set_readPosition :: "nat \<Rightarrow> byte_array \<Rightarrow> byte_array" where
  "set_readPosition v b =
     b\<lparr>ba_readPos := (if ba_writePos b < v then ba_writePos b else v)\<rparr>"

text \<open>\<^verbatim>\<open>pos\<close> is a C int other than the least one, whose negation is undefined.\<close>

definition seek :: "int \<Rightarrow> byte_array \<Rightarrow> byte_array" where
  "seek pos b =
     (if 0 < pos then set_readPosition (sz_add (ba_readPos b) (nat pos)) b
      else if pos < 0 then set_readPosition (sz_sub (ba_readPos b) (nat (- pos))) b
      else b)"

definition ba_expand :: "env \<Rightarrow> nat \<Rightarrow> byte_array \<Rightarrow> error + byte_array" where
  "ba_expand E sz b =
     (case grow (ba_capacity b) sz of
        None \<Rightarrow> Inl Diverges
      | Some newCap \<Rightarrow>
          if newCap = ba_capacity b then Inr b
          else if isAttached b then Inl Undefined_behaviour
          else if malloc_ok E newCap
          then Inr (b\<lparr>ba_data := ba_data b @ fresh E (ba_capacity b) newCap,
                      ba_capacity := newCap\<rparr>)
          else Inl Bad_alloc)"

definition set_writePosition :: "env \<Rightarrow> nat \<Rightarrow> byte_array \<Rightarrow> error + byte_array" where
  "set_writePosition E v b =
     (if ba_readOnly b then Inr b
      else bindE (ba_expand E v b) (\<lambda>b1. Inr (b1\<lparr>ba_writePos := v\<rparr>)))"

definition ba_truncate :: "env \<Rightarrow> nat \<Rightarrow> byte_array \<Rightarrow> error + byte_array" where
  "ba_truncate E resetSize b =
     bindE (if resetSize \<noteq> 0 \<and> \<not> isAttached b
            then if malloc_ok E resetSize
                 then Inr (b\<lparr>ba_data := fresh E 0 resetSize, ba_capacity := resetSize\<rparr>)
                 else Inl Bad_alloc
            else Inr b)
       (\<lambda>b1. Inr (b1\<lparr>ba_readPos := 0, ba_writePos := 0\<rparr>))"

section \<open>Writing\<close>

text \<open>The common tail of the writers: grow, copy to the write position, advance it.\<close>

definition ba_append :: "env \<Rightarrow> bytes \<Rightarrow> byte_array \<Rightarrow> error + byte_array" where
  "ba_append E xs b =
     bindE (ba_expand E (sz_add (ba_writePos b) (length xs)) b) (\<lambda>b1.
     bindE (poke (ba_data b1) (ba_writePos b1) xs) (\<lambda>d.
     Inr (b1\<lparr>ba_data := d, ba_writePos := sz_add (ba_writePos b1) (length xs)\<rparr>)))"

text \<open>\<^verbatim>\<open>writeData(inData, length)\<close>: \<open>None\<close> is a null pointer.\<close>

definition ba_writeData :: "env \<Rightarrow> bytes option \<Rightarrow> nat \<Rightarrow> byte_array \<Rightarrow> error + byte_array" where
  "ba_writeData E inData len b =
     (case inData of
        None \<Rightarrow> Inr b
      | Some mem \<Rightarrow>
          if readOnly b \<or> len = 0 then Inr b
          else bindE (peek mem 0 len) (\<lambda>xs. ba_append E xs b))"

definition ba_writeEmptyData :: "env \<Rightarrow> nat \<Rightarrow> byte_array \<Rightarrow> error + byte_array" where
  "ba_writeEmptyData E len b =
     (if readOnly b \<or> len = 0 then Inr b else ba_append E (replicate len 0) b)"

text \<open>\<^verbatim>\<open>operator<<(const T&)\<close>, with the bytes of the value.\<close>

definition ba_shl :: "env \<Rightarrow> bytes \<Rightarrow> byte_array \<Rightarrow> error + byte_array" where
  "ba_shl E val b = (if readOnly b then Inl Read_only else ba_append E val b)"

definition ba_shl_word :: "env \<Rightarrow> 'a::len word \<Rightarrow> byte_array \<Rightarrow> error + byte_array" where
  "ba_shl_word E w b = ba_shl E (word_le w) b"

definition ba_shl_array :: "env \<Rightarrow> byte_array \<Rightarrow> byte_array \<Rightarrow> error + byte_array" where
  "ba_shl_array E other b = ba_writeData E (Some (ba_data other)) (ba_writePos other) b"

definition ba_shl_string :: "env \<Rightarrow> bytes \<Rightarrow> byte_array \<Rightarrow> error + byte_array" where
  "ba_shl_string E val b =
     (let len = (word_of_nat (length val) :: u16) in
      bindE (ba_shl_word E len b) (ba_writeData E (Some val) (unat len)))"

text \<open>\<^verbatim>\<open>emplace<T>()\<close>: the bytes of a fresh T, and the offset of the new object.\<close>

definition ba_emplace ::
    "env \<Rightarrow> bytes \<Rightarrow> byte_array \<Rightarrow> error + nat option \<times> byte_array" where
  "ba_emplace E obj b =
     (if \<not> readOnly b
      then bindE (ba_append E obj b) (\<lambda>b1. Inr (Some (ba_writePos b), b1))
      else Inr (None, b))"

section \<open>Reading\<close>

text \<open>\<open>out\<close> says whether the output pointer of \<^verbatim>\<open>readData\<close> is not null.\<close>

definition ba_readData :: "bool \<Rightarrow> nat \<Rightarrow> byte_array \<Rightarrow> error + bytes \<times> byte_array" where
  "ba_readData out len b =
     (if \<not> out then Inr ([], b)
      else let n = (if len = 0 \<or> readAvailable b < len then readAvailable b else len) in
           if 0 < n
           then bindE (peek (ba_data b) (ba_readPos b) n)
                  (\<lambda>xs. Inr (xs, b\<lparr>ba_readPos := sz_add (ba_readPos b) n\<rparr>))
           else Inr ([], b))"

text \<open>\<^verbatim>\<open>readBytes\<close>: the bytes read, the target, the source.\<close>

definition ba_readBytes ::
    "env \<Rightarrow> nat \<Rightarrow> byte_array \<Rightarrow> byte_array \<Rightarrow> error + nat \<times> byte_array \<times> byte_array" where
  "ba_readBytes E len out b =
     (if 0 < len
      then let n = (if readAvailable b < len then readAvailable b else len) in
           bindE (ba_expand E (sz_add (ba_writePos out) n) out) (\<lambda>o1.
           bindE (peek (ba_data b) (ba_readPos b) n) (\<lambda>xs.
           bindE (poke (ba_data o1) (ba_writePos o1) xs) (\<lambda>d.
           Inr (n, o1\<lparr>ba_data := d, ba_writePos := sz_add (ba_writePos o1) n\<rparr>,
                b\<lparr>ba_readPos := sz_add (ba_readPos b) n\<rparr>))))
      else Inr (len, out, b))"

definition ba_readString :: "nat \<Rightarrow> byte_array \<Rightarrow> error + bytes \<times> byte_array" where
  "ba_readString len b =
     (let n = (if readAvailable b < len then readAvailable b else len) in
      if 0 < n
      then bindE (peek (ba_data b) (ba_readPos b) n)
             (\<lambda>xs. Inr (xs, b\<lparr>ba_readPos := sz_add (ba_readPos b) n\<rparr>))
      else Inr ([], b))"

definition ba_readNumber :: "byte_array \<Rightarrow> error + 'a::len word \<times> byte_array" where
  "ba_readNumber b =
     (let n = LENGTH('a) div 8 in
      if n \<le> readAvailable b
      then bindE (peek (ba_data b) (ba_readPos b) n)
             (\<lambda>xs. Inr (le_word xs, b\<lparr>ba_readPos := sz_add (ba_readPos b) n\<rparr>))
      else Inr (0, b))"

text \<open>\<^verbatim>\<open>operator>>(T&)\<close>: \<open>val\<close> holds the bytes of the target before and after.\<close>

definition ba_shr :: "bytes \<Rightarrow> byte_array \<Rightarrow> error + bytes \<times> byte_array" where
  "ba_shr val b =
     (let n = length val in
      if n \<le> readAvailable b
      then bindE (peek (ba_data b) (ba_readPos b) n)
             (\<lambda>xs. Inr (xs, b\<lparr>ba_readPos := sz_add (ba_readPos b) n\<rparr>))
      else Inr (val, b))"

definition ba_shr_string :: "bytes \<Rightarrow> byte_array \<Rightarrow> error + bytes \<times> byte_array" where
  "ba_shr_string val b =
     bindE (ba_readNumber b) (\<lambda>(len, b1).
       let n = unat (len :: u16) in
       if n \<noteq> 0 \<and> n \<le> readAvailable b1
       then bindE (peek (ba_data b1) (ba_readPos b1) n)
              (\<lambda>xs. Inr (xs, b1\<lparr>ba_readPos := sz_add (ba_readPos b1) n\<rparr>))
       else Inr (val, b1))"

definition ba_shr_array ::
    "env \<Rightarrow> byte_array \<Rightarrow> byte_array \<Rightarrow> error + byte_array \<times> byte_array" where
  "ba_shr_array E out b =
     bindE (ba_readBytes E (readAvailable b) out b) (\<lambda>(n, o1, b1). Inr (o1, b1))"

section \<open>Cutting\<close>

text \<open>What both versions of \<^verbatim>\<open>cutHead\<close> do once the cut bytes have been copied out.\<close>

definition drop_head :: "nat \<Rightarrow> byte_array \<Rightarrow> error + byte_array" where
  "drop_head len b =
     (let wp = sz_sub (ba_writePos b) len in
      bindE (peek (ba_data b) len wp) (\<lambda>xs.
      bindE (poke (ba_data b) 0 xs) (\<lambda>d.
      Inr (b\<lparr>ba_data := d, ba_writePos := wp,
             ba_readPos := (if len < ba_readPos b then sz_sub (ba_readPos b) len else 0)\<rparr>))))"

text \<open>
  \<^verbatim>\<open>cutHead(length, char*)\<close>: the bytes copied out (none for a null pointer) and the
  array after.
\<close>

definition cutHead ::
    "env \<Rightarrow> nat \<Rightarrow> bool \<Rightarrow> byte_array \<Rightarrow> error + bytes \<times> byte_array" where
  "cutHead E len out b =
     (if ba_writePos b = 0 \<or> len = 0 then Inr ([], b)
      else if ba_writePos b \<le> len
      then bindE (if out then peek (ba_data b) 0 (ba_writePos b) else Inr []) (\<lambda>xs.
           bindE (ba_truncate E 0 b) (\<lambda>b1. Inr (xs, b1)))
      else bindE (if out then peek (ba_data b) 0 len else Inr []) (\<lambda>xs.
           bindE (drop_head len b) (\<lambda>b1. Inr (xs, b1))))"

text \<open>\<^verbatim>\<open>cutHead(length, ByteArray&)\<close>: the target and the array after.\<close>

definition cutHead_to ::
    "env \<Rightarrow> nat \<Rightarrow> byte_array \<Rightarrow> byte_array \<Rightarrow> error + byte_array \<times> byte_array" where
  "cutHead_to E len out b =
     (if ba_writePos b = 0 \<or> len = 0 then Inr (out, b)
      else if ba_writePos b \<le> len
      then bindE (ba_writeData E (Some (ba_data b)) (ba_writePos b) out) (\<lambda>o1.
           bindE (ba_truncate E 0 b) (\<lambda>b1. Inr (o1, b1)))
      else bindE (ba_writeData E (Some (ba_data b)) len out) (\<lambda>o1.
           bindE (drop_head len b) (\<lambda>b1. Inr (o1, b1))))"

definition drop_tail :: "nat \<Rightarrow> byte_array \<Rightarrow> byte_array" where
  "drop_tail len b =
     (let wp = sz_sub (ba_writePos b) len in
      b\<lparr>ba_writePos := wp, ba_readPos := (if wp < ba_readPos b then wp else ba_readPos b)\<rparr>)"

definition cutTail ::
    "env \<Rightarrow> nat \<Rightarrow> bool \<Rightarrow> byte_array \<Rightarrow> error + bytes \<times> byte_array" where
  "cutTail E len out b =
     (if ba_writePos b = 0 then Inr ([], b)
      else if ba_writePos b \<le> len
      then bindE (if out then peek (ba_data b) 0 (ba_writePos b) else Inr []) (\<lambda>xs.
           bindE (ba_truncate E 0 b) (\<lambda>b1. Inr (xs, b1)))
      else bindE (if out then peek (ba_data b) (sz_sub (ba_writePos b) len) len else Inr [])
             (\<lambda>xs. Inr (xs, drop_tail len b)))"

definition cutTail_to ::
    "env \<Rightarrow> nat \<Rightarrow> byte_array \<Rightarrow> byte_array \<Rightarrow> error + byte_array \<times> byte_array" where
  "cutTail_to E len out b =
     (if ba_writePos b = 0 then Inr (out, b)
      else if ba_writePos b \<le> len
      then bindE (ba_writeData E (Some (ba_data b)) (ba_writePos b) out) (\<lambda>o1.
           bindE (ba_truncate E 0 b) (\<lambda>b1. Inr (o1, b1)))
      else bindE (ba_writeData E (Some (drop (sz_sub (ba_writePos b) len) (ba_data b))) len out)
             (\<lambda>o1. Inr (o1, drop_tail len b)))"

section \<open>Hexadecimal text\<close>

definition hex_char :: "bool \<Rightarrow> nat \<Rightarrow> char" where
  "hex_char upper n = (if upper then ''0123456789ABCDEF'' else ''0123456789abcdef'') ! n"

definition hex_byte :: "bool \<Rightarrow> byte \<Rightarrow> string" where
  "hex_byte upper x = [hex_char upper (unat x div 16), hex_char upper (unat x mod 16)]"

definition toHexString :: "bool \<Rightarrow> byte_array \<Rightarrow> error + string" where
  "toHexString upper b =
     bindE (peek (ba_data b) 0 (ba_writePos b)) (\<lambda>xs. Inr (concat (map (hex_byte upper) xs)))"

text \<open>
  \<^verbatim>\<open>std::from_chars(p, p + 2, byte, 16)\<close>: the value of the longest prefix of hexadecimal
  digits, an error if there is none.
\<close>

definition hex_val :: "char \<Rightarrow> nat option" where
  "hex_val c =
     (let n = (of_char c :: nat) in
      if 48 \<le> n \<and> n \<le> 57 then Some (n - 48)
      else if 65 \<le> n \<and> n \<le> 70 then Some (n - 55)
      else if 97 \<le> n \<and> n \<le> 102 then Some (n - 87)
      else None)"

definition from_chars2 :: "char \<Rightarrow> char \<Rightarrow> nat option" where
  "from_chars2 c1 c2 =
     (case hex_val c1 of
        None \<Rightarrow> None
      | Some h \<Rightarrow> (case hex_val c2 of None \<Rightarrow> Some h | Some l \<Rightarrow> Some (16 * h + l)))"

fun hex_loop :: "string \<Rightarrow> nat \<Rightarrow> bytes \<Rightarrow> error + bool \<times> bytes" where
  "hex_loop (c1 # c2 # cs) i d =
     (case from_chars2 c1 c2 of
        None \<Rightarrow> Inr (False, d)
      | Some v \<Rightarrow> bindE (poke d i [word_of_nat v]) (hex_loop cs (Suc i)))"
| "hex_loop cs i d = Inr (True, d)"

definition fromHexString :: "env \<Rightarrow> string \<Rightarrow> byte_array \<Rightarrow> error + bool \<times> byte_array" where
  "fromHexString E hexStr b =
     (if length hexStr mod 2 \<noteq> 0 then Inr (False, b)
      else bindE (ba_truncate E (length hexStr div 2) b) (\<lambda>b1.
           bindE (hex_loop hexStr 0 (ba_data b1)) (\<lambda>(ok, d).
           Inr (ok, b1\<lparr>ba_data := d,
                      ba_writePos := (if ok then length hexStr div 2 else ba_writePos b1)\<rparr>))))"

section \<open>Well-formed arrays\<close>

definition ba_inv :: "byte_array \<Rightarrow> bool" where
  "ba_inv b \<longleftrightarrow> ba_readPos b \<le> ba_writePos b \<and> ba_writePos b \<le> ba_capacity b
     \<and> length (ba_data b) = ba_capacity b \<and> ba_capacity b < size_mod"

text \<open>An array that owns its block, which is not empty and came from the allocator.\<close>

definition ba_owned :: "byte_array \<Rightarrow> bool" where
  "ba_owned b \<longleftrightarrow> ba_inv b \<and> \<not> isAttached b \<and> 0 < ba_capacity b \<and> ba_capacity b < 2 ^ 63"

lemma ba_owned_inv: "ba_owned b \<Longrightarrow> ba_inv b"
  by (simp add: ba_owned_def)

text \<open>What has been written, and the part of it not yet read.\<close>

definition contents :: "byte_array \<Rightarrow> bytes" where
  "contents b = take (ba_writePos b) (ba_data b)"

definition ba_unread :: "byte_array \<Rightarrow> bytes" where
  "ba_unread b = drop (ba_readPos b) (contents b)"

lemma readAvailable_eq: "ba_inv b \<Longrightarrow> readAvailable b = ba_writePos b - ba_readPos b"
  by (simp add: readAvailable_def ba_inv_def)

lemma length_contents: "ba_inv b \<Longrightarrow> length (contents b) = ba_writePos b"
  by (simp add: ba_inv_def contents_def)

text \<open>Writing from the block of an array is writing its content.\<close>

lemma writeData_contents:
  assumes "ba_inv p"
  shows "ba_writeData E (Some (ba_data p)) (ba_writePos p) b
    = ba_writeData E (Some (contents p)) (length (contents p)) b"
  using assms length_contents [OF assms] by (simp add: ba_writeData_def peek_ok contents_def ba_inv_def)

lemma length_ba_unread: "ba_inv b \<Longrightarrow> length (ba_unread b) = readAvailable b"
  by (simp add: readAvailable_eq ba_unread_def length_contents)

subsection \<open>Growing and appending\<close>

lemma ba_expand_ok:
  assumes "ba_inv b" and "ba_expand E sz b = Inr b'"
  shows "ba_inv b'" and "sz \<le> ba_capacity b'" and "contents b' = contents b"
    and "ba_readPos b' = ba_readPos b" and "ba_writePos b' = ba_writePos b"
    and "isAttached b' = isAttached b" and "ba_readOnly b' = ba_readOnly b"
    and "ba_capacity b \<le> ba_capacity b'"
proof -
  from assms(2) obtain c where c: "grow (ba_capacity b) sz = Some c"
    by (auto simp: ba_expand_def split: option.splits)
  have "sz \<le> c \<and> ba_capacity b \<le> c \<and> c < size_mod"
    using grow_some [OF c] assms(1) by (simp add: ba_inv_def)
  with assms c show "ba_inv b'" and "sz \<le> ba_capacity b'" and "contents b' = contents b"
    and "ba_readPos b' = ba_readPos b" and "ba_writePos b' = ba_writePos b"
    and "isAttached b' = isAttached b" and "ba_readOnly b' = ba_readOnly b"
    and "ba_capacity b \<le> ba_capacity b'"
    by (auto simp: ba_expand_def ba_inv_def contents_def split: if_splits)
qed

lemma ba_append_ok:
  assumes "ba_inv b" and "ba_append E xs b = Inr b'"
  shows "ba_inv b'" and "contents b' = contents b @ xs"
    and "ba_readPos b' = ba_readPos b"
    and "isAttached b' = isAttached b" and "ba_readOnly b' = ba_readOnly b"
    and "ba_capacity b \<le> ba_capacity b'"
proof -
  from assms(2) obtain b1 d where e: "ba_expand E (sz_add (ba_writePos b) (length xs)) b = Inr b1"
    and p: "poke (ba_data b1) (ba_writePos b1) xs = Inr d"
    and b': "b' = b1\<lparr>ba_data := d, ba_writePos := sz_add (ba_writePos b1) (length xs)\<rparr>"
    by (auto simp: ba_append_def bindE_eq_Inr)
  note ex = ba_expand_ok [OF assms(1) e]
  from p ex(1) have le: "ba_writePos b1 + length xs \<le> ba_capacity b1"
    by (auto simp: poke_def ba_inv_def split: if_splits)
  with ex(1) have sum: "sz_add (ba_writePos b1) (length xs) = ba_writePos b1 + length xs"
    by (simp add: ba_inv_def)
  show "ba_inv b'" using ex(1) le sum poke_length [OF p] by (simp add: b' ba_inv_def)
  show "contents b' = contents b @ xs"
    using poke_take [OF p] sum ex(3) by (simp add: b' contents_def)
  show "ba_readPos b' = ba_readPos b" and "isAttached b' = isAttached b"
    and "ba_readOnly b' = ba_readOnly b" and "ba_capacity b \<le> ba_capacity b'"
    using ex by (simp_all add: b')
qed

text \<open>An owned array can always grow and append: only the allocator can refuse.\<close>

lemma ba_expand_total:
  assumes "ba_owned b" and "sz \<le> 2 ^ 63"
  shows "(\<exists>b'. ba_expand E sz b = Inr b') \<or> (ba_expand E sz b = Inl Bad_alloc \<and> (\<exists>c. grow (ba_capacity b) sz = Some c \<and> \<not> malloc_ok E c))"
proof -
  obtain c where "grow (ba_capacity b) sz = Some c"
    using grow_terminates assms by (auto simp: ba_owned_def)
  with assms(1) show ?thesis by (auto simp: ba_expand_def ba_owned_def)
qed

lemma ba_append_total:
  assumes "ba_owned b" and "ba_writePos b + length xs \<le> 2 ^ 63"
  shows "(\<exists>b'. ba_append E xs b = Inr b') \<or> (ba_append E xs b = Inl Bad_alloc
    \<and> (\<exists>c. grow (ba_capacity b) (ba_writePos b + length xs) = Some c \<and> \<not> malloc_ok E c))"
proof -
  have sum: "sz_add (ba_writePos b) (length xs) = ba_writePos b + length xs"
    using assms(2) by (simp add: size_mod_def)
  from ba_expand_total [OF assms(1), of "ba_writePos b + length xs" E] assms(2)
  consider (ok) b1 where "ba_expand E (ba_writePos b + length xs) b = Inr b1"
    | (bad) "ba_expand E (ba_writePos b + length xs) b = Inl Bad_alloc" 
        and "\<exists>c. grow (ba_capacity b) (ba_writePos b + length xs) = Some c \<and> \<not> malloc_ok E c"
    by auto
  then show ?thesis
  proof cases
    case ok
    from assms(1) have "ba_inv b" by (simp add: ba_owned_def)
    note ex = ba_expand_ok [OF this ok]
    then have "poke (ba_data b1) (ba_writePos b1) xs =
        Inr (take (ba_writePos b1) (ba_data b1) @ xs
          @ drop (ba_writePos b1 + length xs) (ba_data b1))"
      by (intro poke_ok) (simp add: ba_inv_def)
    with ok sum show ?thesis by (simp add: ba_append_def)
  next
    case bad
    with sum show ?thesis by (simp add: ba_append_def)
  qed
qed

text \<open>Whatever the sizes, an owned array never touches memory it must not touch.\<close>

lemma ba_expand_safe:
  "ba_owned b \<Longrightarrow> ba_expand E sz b \<noteq> Inl Undefined_behaviour"
  by (auto simp: ba_expand_def ba_owned_def split: option.splits)

lemma ba_expand_owned:
  assumes "ba_owned b" and "ba_expand E sz b = Inr b'"
  shows "ba_owned b'"
proof -
  have "ba_inv b'" and "isAttached b' = isAttached b" and "ba_capacity b \<le> ba_capacity b'"
    using ba_expand_ok [OF ba_owned_inv [OF assms(1)] assms(2)] by simp_all
  moreover have "ba_capacity b' < 2 ^ 63"
    using assms by (auto simp: ba_expand_def malloc_ok_def ba_owned_def split: option.splits if_splits)
  ultimately show ?thesis using assms(1) by (simp add: ba_owned_def)
qed

lemma ba_append_safe:
  assumes "ba_owned b" and "length xs < 2 ^ 63"
  shows "ba_append E xs b \<noteq> Inl Undefined_behaviour"
proof
  assume ub: "ba_append E xs b = Inl Undefined_behaviour"
  have "ba_writePos b + length xs < size_mod"
    using assms by (simp add: ba_owned_def ba_inv_def size_mod_def)
  then have sum: "sz_add (ba_writePos b) (length xs) = ba_writePos b + length xs" by simp
  with ub ba_expand_safe [OF assms(1)] obtain b1
    where e: "ba_expand E (ba_writePos b + length xs) b = Inr b1"
      and p: "poke (ba_data b1) (ba_writePos b1) xs = Inl Undefined_behaviour"
    by (auto simp: ba_append_def bindE_eq_Inl)
  note ex = ba_expand_ok [OF ba_owned_inv [OF assms(1)] e]
  then have "ba_writePos b1 + length xs \<le> length (ba_data b1)" by (simp add: ba_inv_def)
  with p show False by (simp add: poke_ok)
qed

lemma ba_append_owned:
  assumes "ba_owned b" and "ba_append E xs b = Inr b'"
  shows "ba_owned b'"
proof -
  from assms(2) obtain b1 where e: "ba_expand E (sz_add (ba_writePos b) (length xs)) b = Inr b1"
    and cap: "ba_capacity b' = ba_capacity b1" and att: "isAttached b' = isAttached b1"
    by (auto simp: ba_append_def bindE_eq_Inr)
  have "ba_owned b1" using ba_expand_owned [OF assms(1) e] .
  moreover have "ba_inv b'" using ba_append_ok(1) [OF ba_owned_inv [OF assms(1)] assms(2)] .
  ultimately show ?thesis using cap att by (simp add: ba_owned_def)
qed

subsection \<open>The writers\<close>

lemma ba_writeData_eq:
  "\<not> readOnly b \<Longrightarrow> len \<le> length mem \<Longrightarrow> 0 < len
     \<Longrightarrow> ba_writeData E (Some mem) len b = ba_append E (take len mem) b"
  by (simp add: ba_writeData_def mem_simps)

lemma ba_writeData_ignored:
  "readOnly b \<or> inData = None \<or> len = 0 \<Longrightarrow> ba_writeData E inData len b = Inr b"
  by (auto simp: ba_writeData_def split: option.splits)

lemma ba_writeData_ok:
  assumes "ba_inv b" and "\<not> readOnly b" and "ba_writeData E (Some mem) len b = Inr b'"
  shows "ba_inv b' \<and> \<not> readOnly b' \<and> contents b' = contents b @ take len mem
    \<and> ba_readPos b' = ba_readPos b"
proof (cases "len = 0")
  case True
  with assms show ?thesis by (simp add: ba_writeData_def)
next
  case False
  with assms(2,3) have le: "len \<le> length mem"
    by (auto simp: ba_writeData_def bindE_eq_Inr peek_def split: if_splits)
  with False assms(2,3) have "ba_append E (take len mem) b = Inr b'"
    by (simp add: ba_writeData_eq)
  from ba_append_ok [OF assms(1) this] assms(2) show ?thesis by (simp add: readOnly_def)
qed

lemma ba_shl_eq: "\<not> readOnly b \<Longrightarrow> ba_shl E val b = ba_append E val b"
  by (simp add: ba_shl_def)

lemma ba_unread_append:
  "ba_inv b \<Longrightarrow> contents b' = contents b @ xs \<Longrightarrow> ba_readPos b' = ba_readPos b
     \<Longrightarrow> ba_unread b' = ba_unread b @ xs"
  by (simp add: ba_unread_def length_contents ba_inv_def)

subsection \<open>The readers\<close>

lemma peek_unread:
  assumes "ba_inv b" and "n \<le> readAvailable b"
  shows "peek (ba_data b) (ba_readPos b) n = Inr (take n (ba_unread b))"
proof -
  have "ba_readPos b + n \<le> ba_writePos b"
    using assms by (auto simp: readAvailable_eq ba_inv_def)
  moreover from this assms(1) have "ba_readPos b + n \<le> length (ba_data b)"
    by (simp add: ba_inv_def)
  ultimately show ?thesis
    by (simp add: peek_ok ba_unread_def contents_def drop_take min_def)
qed

text \<open>Moving the read position over what was read.\<close>

lemma advance_read:
  assumes "ba_inv b" and "n \<le> readAvailable b"
  shows "sz_add (ba_readPos b) n = ba_readPos b + n"
    and "ba_inv (b\<lparr>ba_readPos := ba_readPos b + n\<rparr>)"
    and "ba_unread (b\<lparr>ba_readPos := ba_readPos b + n\<rparr>) = drop n (ba_unread b)"
  using assms
  by (auto simp: readAvailable_eq ba_inv_def ba_unread_def contents_def add.commute)

lemma ba_readData_ok:
  assumes "ba_inv b"
  shows "\<exists>b'. ba_readData True len b = Inr (fst (spec_get len (ba_unread b)), b')
    \<and> ba_inv b' \<and> readOnly b' = readOnly b
    \<and> ba_unread b' = snd (spec_get len (ba_unread b))"
proof -
  define n where "n = (if len = 0 \<or> readAvailable b < len then readAvailable b else len)"
  have le: "n \<le> readAvailable b" by (simp add: n_def)
  have sp: "spec_get len (ba_unread b) = (take n (ba_unread b), drop n (ba_unread b))"
    using assms by (auto simp: spec_get_def n_def length_ba_unread)
  have "ba_readData True len b =
      (if 0 < n then Inr (take n (ba_unread b), b\<lparr>ba_readPos := ba_readPos b + n\<rparr>) else Inr ([], b))"
    using assms peek_unread [OF assms le] advance_read(1) [OF assms le]
    by (simp add: ba_readData_def n_def Let_def)
  with sp assms advance_read(2,3) [OF assms le] show ?thesis
    by (cases "n = 0") (auto simp: readOnly_def)
qed

subsection \<open>The array is a byte stream\<close>

definition ba_put :: "env \<Rightarrow> bytes \<Rightarrow> byte_array \<Rightarrow> error + byte_array" where
  "ba_put E xs b = ba_writeData E (Some xs) (length xs) b"

definition ba_open :: "byte_array \<Rightarrow> bool" where
  "ba_open b \<longleftrightarrow> ba_inv b \<and> \<not> readOnly b"

interpretation ba: byte_stream "ba_put E" "ba_readData True" ba_unread ba_open
  for E
proof unfold_locales
  fix s s' :: byte_array and xs
  assume "ba_open s" and "ba_put E xs s = Inr s'"
  with ba_writeData_ok [of s E xs "length xs" s'] show "ba_open s'"
    and "ba_unread s' = ba_unread s @ xs"
    by (simp_all add: ba_open_def ba_put_def ba_unread_append)
next
  fix s :: byte_array and n
  assume "ba_open s"
  then show "\<exists>ys s'. ba_readData True n s = Inr (ys, s')"
    using ba_readData_ok [of s n] by (auto simp: ba_open_def)
next
  fix s s' :: byte_array and n ys
  assume "ba_open s" and "ba_readData True n s = Inr (ys, s')"
  with ba_readData_ok [of s n] show "ba_open s'"
    and "(ys, ba_unread s') = spec_get n (ba_unread s)"
    by (auto simp: ba_open_def)
qed

subsection \<open>Numbers and strings\<close>

lemma ba_shl_word_put:
  assumes "ba_open b" and "8 \<le> LENGTH('a)"
  shows "ba_shl_word E (w :: 'a::len word) b = ba_put E (word_le w) b"
proof -
  have "0 < LENGTH('a) div 8" using assms(2) by (simp add: div_greater_zero_iff)
  with assms show ?thesis
    by (simp add: ba_shl_word_def ba_shl_eq ba_open_def ba_put_def ba_writeData_eq)
qed

lemma ba_readNumber_ok:
  fixes w :: "'a::len word"
  assumes "ba_inv b" and "ba_unread b = word_le w @ rest" and "8 dvd LENGTH('a)"
  shows "\<exists>b'. ba_readNumber b = Inr (w, b') \<and> ba_inv b' \<and> readOnly b' = readOnly b
    \<and> ba_unread b' = rest"
proof -
  have le: "LENGTH('a) div 8 \<le> readAvailable b"
    using assms(2) length_ba_unread [OF assms(1)] by simp
  show ?thesis
    using peek_unread [OF assms(1) le] advance_read [OF assms(1) le] assms(2,3) le
    by (simp add: ba_readNumber_def readOnly_def)
qed

text \<open>Too few bytes: the number is 0 and nothing is consumed.\<close>

lemma ba_readNumber_short:
  "readAvailable b < LENGTH('a::len) div 8
     \<Longrightarrow> ba_readNumber b = Inr (0 :: 'a word, b)"
  by (simp add: ba_readNumber_def)

lemma ba_shl_string_frame:
  assumes "ba_open b" and "framable val"
  shows "ba_shl_string E val b = put_frame (ba_put E) val b"
proof -
  have "unat (word_of_nat (length val) :: u16) = length val"
    using assms(2) by (simp add: framable_def unat_of_nat)
  moreover have "ba_put E val = ba_writeData E (Some val) (length val)"
    by (rule ext) (simp add: ba_put_def)
  ultimately show ?thesis
    using ba_shl_word_put [OF assms(1), of E "word_of_nat (length val) :: u16"]
    by (simp add: ba_shl_string_def put_frame_def)
qed

lemma ba_shr_string_frame:
  assumes "ba_inv b" and "ba_unread b = frame xs @ rest" and "framable xs"
  shows "\<exists>b'. ba_shr_string val b = Inr (xs, b') \<and> ba_inv b' \<and> readOnly b' = readOnly b
    \<and> ba_unread b' = rest"
proof -
  let ?h = "word_of_nat (length xs) :: u16"
  have "ba_unread b = word_le ?h @ (xs @ rest)" using assms(2) by (simp add: frame_def)
  from ba_readNumber_ok [OF assms(1) this] obtain b1 where n: "ba_readNumber b = Inr (?h, b1)"
    and i1: "ba_inv b1" and r1: "readOnly b1 = readOnly b" and u1: "ba_unread b1 = xs @ rest"
    by auto
  have h: "unat ?h = length xs" and ne: "length xs \<noteq> 0"
    using assms(3) by (simp_all add: framable_def unat_of_nat)
  have le: "length xs \<le> readAvailable b1"
    using length_ba_unread [OF i1] u1 by simp
  show ?thesis
    using n h ne le r1 u1 peek_unread [OF i1 le] advance_read [OF i1 le]
    by (simp add: ba_shr_string_def Let_def readOnly_def)
qed

lemma ba_strings_written:
  assumes "ba_open b" and "list_all framable xss" and "runE (ba_shl_string E) xss b = Inr b'"
  shows "ba_open b' \<and> ba_unread b' = ba_unread b @ concat (map frame xss)"
proof -
  have "runE (ba_shl_string E) xss b = runE (put_frame (ba_put E)) xss b"
  proof (rule runE_cong_invariant [where P = ba_open])
    fix x s assume "x \<in> set xss" and "ba_open s"
    then show "ba_shl_string E x s = put_frame (ba_put E) x s"
      using assms(2) by (simp add: ba_shl_string_frame list_all_iff)
  next
    fix x s s' assume "ba_open s" and "put_frame (ba_put E) x s = Inr s'"
    then show "ba_open s'" using ba.put_frame_unread by blast
  qed (rule assms(1))
  with ba.put_frames_unread [OF assms(1)] assms(3) show ?thesis by simp
qed

lemma ba_strings_read:
  "ba_inv b \<Longrightarrow> ba_unread b = concat (map frame xss) @ rest \<Longrightarrow> list_all framable xss
     \<Longrightarrow> \<exists>b'. repeat_get (length xss) (ba_shr_string val) b = Inr (xss, b')
           \<and> ba_unread b' = rest"
proof (induction xss arbitrary: b)
  case Nil
  then show ?case by simp
next
  case (Cons xs xss)
  have u: "ba_unread b = frame xs @ (concat (map frame xss) @ rest)" and "framable xs"
    using Cons.prems by simp_all
  from ba_shr_string_frame [OF Cons.prems(1) this] obtain b1
    where "ba_shr_string val b = Inr (xs, b1)" and "ba_inv b1"
      and "ba_unread b1 = concat (map frame xss) @ rest"
    by blast
  with Cons.IH [of b1] Cons.prems(3) show ?case by auto
qed

subsection \<open>Positions\<close>

lemma set_readPosition_inv: "ba_inv b \<Longrightarrow> ba_inv (set_readPosition v b)"
  by (simp add: set_readPosition_def ba_inv_def)

lemma seek_inv: "ba_inv b \<Longrightarrow> ba_inv (seek pos b)"
  by (simp add: seek_def set_readPosition_inv)

lemma seek_forward:
  assumes "ba_inv b" and "0 \<le> pos" and "pos < 2 ^ 31" and "ba_writePos b < 2 ^ 63"
  shows "ba_readPos (seek pos b) = min (ba_readPos b + nat pos) (ba_writePos b)"
proof -
  have "nat pos < 2 ^ 31" using assms(2,3) by (simp add: nat_less_iff)
  then have "ba_readPos b + nat pos < size_mod"
    using assms(1,4) by (simp add: ba_inv_def size_mod_def)
  then show ?thesis
    using assms(1,2) by (auto simp: seek_def set_readPosition_def ba_inv_def)
qed

lemma seek_backward:
  assumes "ba_inv b" and "pos < 0" and "nat (- pos) \<le> ba_readPos b"
  shows "ba_readPos (seek pos b) = ba_readPos b - nat (- pos)"
  using assms by (auto simp: seek_def set_readPosition_def ba_inv_def)

text \<open>
  A step back beyond the start does not stop at the start: the difference wraps around and
  is clamped to the end.
\<close>

lemma seek_before_start:
  assumes "ba_inv b" and "pos < 0" and "ba_readPos b < nat (- pos)" and "nat (- pos) \<le> 2 ^ 31"
    and "ba_writePos b < 2 ^ 63"
  shows "ba_readPos (seek pos b) = ba_writePos b"
proof -
  have "sz_sub (ba_readPos b) (nat (- pos)) = size_mod - (nat (- pos) - ba_readPos b)"
    using assms by (intro sz_sub_wraps) (auto simp: size_mod_def)
  moreover have "ba_writePos b < size_mod - (nat (- pos) - ba_readPos b)"
    using assms(4,5) by (simp add: size_mod_def)
  ultimately show ?thesis using assms(2) by (simp add: seek_def set_readPosition_def)
qed

text \<open>
  Moving the write position in front of the read position leaves \<open>readAvailable\<close> a
  wrapped difference.
\<close>

lemma set_writePosition_ok:
  assumes "ba_inv b" and "ba_readPos b \<le> v" and "set_writePosition E v b = Inr b'"
  shows "ba_inv b'"
proof (cases "ba_readOnly b")
  case True
  with assms show ?thesis by (simp add: set_writePosition_def)
next
  case False
  with assms(3) obtain b1 where e: "ba_expand E v b = Inr b1" and b': "b' = b1\<lparr>ba_writePos := v\<rparr>"
    by (auto simp: set_writePosition_def bindE_eq_Inr)
  with ba_expand_ok [OF assms(1) e] assms(2) show ?thesis by (simp add: ba_inv_def)
qed

lemma set_writePosition_breaks_readAvailable:
  assumes "ba_inv b" and "\<not> ba_readOnly b" and "v < ba_readPos b"
  shows "\<exists>b'. set_writePosition E v b = Inr b'
    \<and> readAvailable b' = size_mod - (ba_readPos b - v)"
proof -
  have "ba_expand E v b = Inr b"
    using assms by (simp add: ba_expand_def grow_stop ba_inv_def)
  with assms show ?thesis
    by (simp add: set_writePosition_def readAvailable_def sz_sub_wraps ba_inv_def)
qed

subsection \<open>Cutting\<close>

lemma ba_truncate_0: "ba_truncate E 0 b = Inr (b\<lparr>ba_readPos := 0, ba_writePos := 0\<rparr>)"
  by (simp add: ba_truncate_def)

lemma drop_head_ok:
  assumes "ba_inv b" and "len < ba_writePos b"
  shows "\<exists>b'. drop_head len b = Inr b' \<and> ba_inv b' \<and> contents b' = drop len (contents b)
    \<and> ba_readPos b' = ba_readPos b - len \<and> ba_capacity b' = ba_capacity b
    \<and> isAttached b' = isAttached b \<and> ba_readOnly b' = ba_readOnly b"
proof -
  let ?wp = "ba_writePos b - len"
  let ?xs = "take ?wp (drop len (ba_data b))"
  have bounds: "ba_readPos b \<le> ba_writePos b" "ba_writePos b \<le> length (ba_data b)"
    "length (ba_data b) = ba_capacity b" "ba_writePos b < size_mod"
    using assms(1) by (simp_all add: ba_inv_def)
  have wp: "sz_sub (ba_writePos b) len = ?wp" using assms(2) bounds by simp
  have rp: "(if len < ba_readPos b then sz_sub (ba_readPos b) len else 0) = ba_readPos b - len"
    using bounds by simp
  have lxs: "length ?xs = ?wp" using assms(2) bounds by simp
  have pk: "peek (ba_data b) len ?wp = Inr ?xs"
    using assms(2) bounds by (simp add: peek_ok)
  have pp: "poke (ba_data b) 0 ?xs = Inr (?xs @ drop ?wp (ba_data b))"
    using poke_ok [of 0 ?xs "ba_data b"] lxs assms(2) bounds by simp
  have "drop_head len b = Inr (b\<lparr>ba_data := ?xs @ drop ?wp (ba_data b), ba_writePos := ?wp,
      ba_readPos := ba_readPos b - len\<rparr>)"
    unfolding drop_head_def Let_def wp rp pk pp bindE_Inr ..
  with assms bounds lxs show ?thesis
    by (auto simp: ba_inv_def contents_def drop_take)
qed

lemma cutHead_ok:
  assumes "ba_inv b"
  shows "\<exists>b'. cutHead E len out b = Inr (if out then take len (contents b) else [], b')
    \<and> ba_inv b' \<and> contents b' = drop len (contents b) \<and> ba_readPos b' = ba_readPos b - len
    \<and> ba_capacity b' = ba_capacity b \<and> isAttached b' = isAttached b
    \<and> ba_readOnly b' = ba_readOnly b"
proof -
  have lc: "length (contents b) = ba_writePos b" using assms by (rule length_contents)
  have pk: "peek (ba_data b) 0 n = Inr (take n (contents b))" if "n \<le> ba_writePos b" for n
    using that assms by (simp add: peek_ok contents_def ba_inv_def min_def)
  consider (nothing) "ba_writePos b = 0 \<or> len = 0"
    | (all) "ba_writePos b \<noteq> 0" "len \<noteq> 0" "ba_writePos b \<le> len"
    | (part) "ba_writePos b \<noteq> 0" "len \<noteq> 0" "len < ba_writePos b" by linarith
  then show ?thesis
  proof cases
    case nothing
    with assms lc show ?thesis by (auto simp: cutHead_def ba_inv_def contents_def)
  next
    case all
    with assms lc pk [of "ba_writePos b"] show ?thesis
      by (auto simp: cutHead_def ba_truncate_0 ba_inv_def contents_def)
  next
    case part
    with pk [of len] drop_head_ok [OF assms part(3)] show ?thesis
      by (auto simp: cutHead_def)
  qed
qed

text \<open>Cutting what has been read: the unread bytes stay, the read position is 0.\<close>

lemma cutHead_read_part:
  assumes "ba_inv b"
  shows "\<exists>b'. cutHead E (ba_readPos b) out b =
        Inr (if out then take (ba_readPos b) (contents b) else [], b')
    \<and> ba_inv b' \<and> ba_readPos b' = 0 \<and> ba_unread b' = ba_unread b \<and> contents b' = ba_unread b
    \<and> readOnly b' = readOnly b"
  using cutHead_ok [OF assms, of E "ba_readPos b" out]
  by (auto simp: ba_unread_def readOnly_def)

lemma cutTail_ok:
  assumes "ba_inv b"
  shows "\<exists>b'. cutTail E len out b =
        Inr (if out then drop (ba_writePos b - len) (contents b) else [], b')
    \<and> ba_inv b' \<and> contents b' = take (ba_writePos b - len) (contents b)
    \<and> ba_readPos b' = min (ba_readPos b) (ba_writePos b - len)
    \<and> ba_capacity b' = ba_capacity b \<and> isAttached b' = isAttached b
    \<and> ba_readOnly b' = ba_readOnly b"
proof -
  have lc: "length (contents b) = ba_writePos b" using assms by (rule length_contents)
  consider (nothing) "ba_writePos b = 0" | (all) "ba_writePos b \<noteq> 0" "ba_writePos b \<le> len"
    | (part) "ba_writePos b \<noteq> 0" "len < ba_writePos b" by linarith
  then show ?thesis
  proof cases
    case nothing
    with assms lc show ?thesis by (auto simp: cutTail_def ba_inv_def contents_def)
  next
    case all
    moreover have "peek (ba_data b) 0 (ba_writePos b) = Inr (contents b)"
      using assms by (simp add: peek_ok contents_def ba_inv_def)
    ultimately show ?thesis
      using assms lc by (auto simp: cutTail_def ba_truncate_0 ba_inv_def contents_def)
  next
    case part
    have wp: "sz_sub (ba_writePos b) len = ba_writePos b - len"
      using part assms by (simp add: ba_inv_def)
    have "peek (ba_data b) (ba_writePos b - len) len =
        Inr (drop (ba_writePos b - len) (contents b))"
      using part assms by (simp add: peek_ok contents_def ba_inv_def drop_take)
    with part assms wp show ?thesis
      by (auto simp: cutTail_def drop_tail_def Let_def ba_inv_def contents_def)
  qed
qed

subsection \<open>Hexadecimal round trip\<close>

lemma hex_val_hex_char_all:
  "list_all (\<lambda>n. hex_val (hex_char True n) = Some n \<and> hex_val (hex_char False n) = Some n) [0..<16]"
  by code_simp

lemma hex_val_hex_char: "n < 16 \<Longrightarrow> hex_val (hex_char up n) = Some n"
  using hex_val_hex_char_all by (cases up) (simp_all add: list_all_iff)

lemma from_chars2_hex_byte:
  "from_chars2 (hex_char up (unat x div 16)) (hex_char up (unat x mod 16)) = Some (unat (x :: byte))"
proof -
  have "unat x < 256" using unsigned_less [of x, where 'a = nat] by simp
  then have "unat x div 16 < 16" by simp
  then show ?thesis by (simp add: from_chars2_def hex_val_hex_char)
qed

lemma hex_loop_hex:
  "i + length xs \<le> length d \<Longrightarrow>
     hex_loop (concat (map (hex_byte up) xs)) i d = Inr (True, take i d @ xs @ drop (i + length xs) d)"
proof (induction xs arbitrary: i d)
  case Nil
  then show ?case by simp
next
  case (Cons x xs)
  let ?d = "take i d @ [x] @ drop (Suc i) d"
  have p: "poke d i [x] = Inr ?d" using Cons.prems by (simp add: poke_ok)
  have len: "length (take i d) = i" using Cons.prems by simp
  have "hex_loop (concat (map (hex_byte up) xs)) (Suc i) ?d
      = Inr (True, take (Suc i) ?d @ xs @ drop (Suc i + length xs) ?d)"
    using Cons.prems by (intro Cons.IH) simp
  moreover have "take (Suc i) ?d = take i d @ [x]" using len by simp
  moreover have "drop (Suc i + length xs) ?d = drop (i + length (x # xs)) d"
    using len by (simp add: add.commute)
  ultimately show ?case
    using p by (simp add: hex_byte_def [of up x] from_chars2_hex_byte)
qed

lemma length_hex: "length (concat (map (hex_byte up) xs)) = 2 * length xs"
  by (induction xs) (simp_all add: hex_byte_def)

lemma toHexString_ok:
  "ba_inv b \<Longrightarrow> toHexString up b = Inr (concat (map (hex_byte up) (contents b)))"
  by (simp add: toHexString_def peek_ok ba_inv_def contents_def)

lemma fromHexString_hex:
  assumes "\<not> isAttached b" and "malloc_ok E (length xs)"
  shows "\<exists>b'. fromHexString E (concat (map (hex_byte up) xs)) b = Inr (True, b')
    \<and> contents b' = xs \<and> ba_readPos b' = 0"
proof -
  obtain b1 where t: "ba_truncate E (length xs) b = Inr b1"
    and len: "length xs \<le> length (ba_data b1)" and rp: "ba_readPos b1 = 0"
    using assms by (cases "xs = []") (auto simp: ba_truncate_def)
  from len have "hex_loop (concat (map (hex_byte up) xs)) 0 (ba_data b1)
      = Inr (True, xs @ drop (length xs) (ba_data b1))"
    using hex_loop_hex [of 0 xs "ba_data b1" up] by simp
  with t rp show ?thesis by (simp add: fromHexString_def length_hex contents_def)
qed

subsection \<open>Two arrays\<close>

lemma ba_readBytes_ok:
  assumes "ba_inv out" and "ba_inv b" and "ba_readBytes E len out b = Inr (n, out', b')"
  shows "n = min len (readAvailable b) \<and> contents out' = contents out @ take n (ba_unread b)
    \<and> ba_unread b' = drop n (ba_unread b) \<and> ba_inv out' \<and> ba_inv b'"
proof (cases "len = 0")
  case True
  with assms show ?thesis by (simp add: ba_readBytes_def)
next
  case False
  define k where "k = (if readAvailable b < len then readAvailable b else len)"
  define xs where "xs = take k (ba_unread b)"
  have km: "k = min len (readAvailable b)" and le: "k \<le> readAvailable b" by (simp_all add: k_def)
  have pk: "peek (ba_data b) (ba_readPos b) k = Inr xs"
    unfolding xs_def using assms(2) le by (rule peek_unread)
  have lxs: "length xs = k" using length_ba_unread [OF assms(2)] le by (simp add: xs_def)
  note adv = advance_read [OF assms(2) le]
  have "ba_readBytes E len out b =
      bindE (ba_append E xs out) (\<lambda>o1. Inr (k, o1, b\<lparr>ba_readPos := ba_readPos b + k\<rparr>))"
    using False unfolding ba_readBytes_def ba_append_def Let_def k_def [symmetric] pk lxs adv(1)
    by (cases "ba_expand E (sz_add (ba_writePos out) k) out")
      (simp_all add: bindE_def split: sum.splits)
  with assms(3) have app: "ba_append E xs out = Inr out'"
    and b': "b' = b\<lparr>ba_readPos := ba_readPos b + k\<rparr>" and n: "n = k"
    by (auto simp: bindE_eq_Inr)
  show ?thesis
    using ba_append_ok(1,2) [OF assms(1) app] adv(2,3) n b' km xs_def by simp
qed

text \<open>\<^verbatim>\<open>cutHead(length, ByteArray&)\<close> on a writable target moves the bytes over.\<close>

lemma cutHead_to_ok:
  assumes "ba_inv out" and "\<not> readOnly out" and "ba_inv b"
    and "cutHead_to E len out b = Inr (out', b')"
  shows "contents out' = contents out @ take len (contents b)
    \<and> contents b' = drop len (contents b) \<and> ba_inv out' \<and> ba_inv b'"
proof -
  have lc: "length (contents b) = ba_writePos b" using assms(3) by (rule length_contents)
  have tk: "take n (ba_data b) = take n (contents b)" if "n \<le> ba_writePos b" for n
    using that by (simp add: contents_def min_def)
  consider (nothing) "ba_writePos b = 0 \<or> len = 0"
    | (all) "ba_writePos b \<noteq> 0" "len \<noteq> 0" "ba_writePos b \<le> len"
    | (part) "ba_writePos b \<noteq> 0" "len \<noteq> 0" "len < ba_writePos b" by linarith
  then show ?thesis
  proof cases
    case nothing
    with assms lc show ?thesis by (auto simp: cutHead_to_def)
  next
    case all
    with assms(4) have w: "ba_writeData E (Some (ba_data b)) (ba_writePos b) out = Inr out'"
      and b': "b' = b\<lparr>ba_readPos := 0, ba_writePos := 0\<rparr>"
      by (auto simp: cutHead_to_def ba_truncate_0 bindE_eq_Inr)
    have "contents b' = []" and "ba_inv b'"
      using assms(3) by (simp_all add: b' ba_inv_def contents_def)
    moreover have "take (ba_writePos b) (ba_data b) = take len (contents b)"
      using tk [of "ba_writePos b"] lc all(3) by simp
    ultimately show ?thesis using ba_writeData_ok [OF assms(1,2) w] lc all(3) by simp
  next
    case part
    with assms(4) have w: "ba_writeData E (Some (ba_data b)) len out = Inr out'"
      and d: "drop_head len b = Inr b'"
      by (auto simp: cutHead_to_def bindE_eq_Inr)
    from ba_writeData_ok [OF assms(1,2) w] drop_head_ok [OF assms(3) part(3), simplified d]
      tk [of len] part(3)
    show ?thesis by auto
  qed
qed

text \<open>A copy of an owned array has the same contents and is owned; so is a fresh array.\<close>

lemma ba_copy_ok: "ba_owned b \<Longrightarrow> ba_copy E b = Inr b' \<Longrightarrow> b' = b"
  by (auto simp: ba_copy_def ba_owned_def ba_inv_def peek_def split: if_splits)

lemma ba_assign_ok: "ba_owned b \<Longrightarrow> ba_assign E a b = Inr b' \<Longrightarrow> b' = b"
  by (auto simp: ba_assign_def Let_def ba_owned_def ba_inv_def peek_def split: if_splits)

lemma ba_move_assign_ok: "fst (ba_move_assign a b) = b"
  by (simp add: ba_move_assign_def)

lemma ba_new_owned: "ba_new E len = Inr b \<Longrightarrow> ba_owned b \<and> contents b = []"
  by (auto simp: ba_new_def Let_def ba_owned_def ba_inv_def contents_def malloc_ok_def size_mod_def
      BYTES_DEFAULT_SIZE_def split: if_splits dest!: spec)

text \<open>
  The object a move leaves behind has capacity 0. It cannot be written again: the doubling
  loop of \<^verbatim>\<open>expand\<close> never ends. The same holds for a copy of an empty memory block.
\<close>

lemma moved_from_write_diverges:
  assumes "0 < length xs" and "length xs < size_mod"
  shows "ba_put E xs (snd (ba_move b)) = Inl Diverges"
  using assms
  by (simp add: ba_put_def ba_writeData_def ba_move_def ba_moved_def readOnly_def mem_simps
      ba_append_def ba_expand_def grow_zero_diverges)

lemma empty_copy_write_diverges:
  assumes "ba_of_memory E mem 0 True = Inr b" and "0 < length xs" and "length xs < size_mod"
  shows "ba_put E xs b = Inl Diverges"
  using assms
  by (auto simp: ba_put_def ba_writeData_def ba_of_memory_def readOnly_def mem_simps
      ba_append_def ba_expand_def grow_zero_diverges split: if_splits)

text \<open>
  \<^verbatim>\<open>readBytes\<close> does not ask whether its target is read-only: an attached target is
  reallocated as soon as the bytes do not fit.
\<close>

lemma readBytes_into_attached:
  assumes "isAttached out" and "ba_inv out" and "ba_capacity out < ba_writePos out + n"
    and "ba_inv b" and "0 < n" and "n \<le> readAvailable b"
    and "0 < ba_capacity out" and "ba_writePos out + n \<le> 2 ^ 63"
  shows "ba_readBytes E n out b = Inl Undefined_behaviour"
proof -
  have sum: "sz_add (ba_writePos out) n = ba_writePos out + n"
    using assms(8) by (simp add: size_mod_def)
  obtain c where c: "grow (ba_capacity out) (ba_writePos out + n) = Some c"
    using grow_terminates assms(7,8) by blast
  have "c \<noteq> ba_capacity out" using grow_some [OF c] assms(3) by auto
  then have "ba_expand E (ba_writePos out + n) out = Inl Undefined_behaviour"
    using c assms(1) by (simp add: ba_expand_def)
  then show ?thesis using assms(5,6) sum by (simp add: ba_readBytes_def)
qed

text \<open>\<^verbatim>\<open>fromHexString\<close> accepts a pair whose second character is no digit.\<close>

lemma fromHexString_accepts_half_byte:
  "from_chars2 (CHR ''1'') (CHR ''g'') = Some 1"
  by (simp add: from_chars2_def hex_val_def)

section \<open>Every reachable array is safe\<close>

text \<open>The operations of one array, with the arguments they take.\<close>

datatype ba_op =
    WriteData "bytes option" nat
  | WriteEmptyData nat
  | Shl bytes
  | ShlString bytes
  | Emplace bytes
  | ReadData bool nat
  | ReadString nat
  | ReadNumber16
  | Shr bytes
  | ShrString bytes
  | ReadPosition nat
  | WritePosition nat
  | Seek int
  | Expand nat
  | Truncate nat
  | CutHead nat bool
  | CutTail nat bool
  | FromHexString string
  | SetReadOnly bool

definition state_of :: "error + 'x \<times> byte_array \<Rightarrow> error + byte_array" where
  "state_of r = bindE r (\<lambda>(x, b). Inr b)"

fun ba_step :: "env \<Rightarrow> ba_op \<Rightarrow> byte_array \<Rightarrow> error + byte_array" where
  "ba_step E (WriteData m n) b = ba_writeData E m n b"
| "ba_step E (WriteEmptyData n) b = ba_writeEmptyData E n b"
| "ba_step E (Shl v) b = ba_shl E v b"
| "ba_step E (ShlString v) b = ba_shl_string E v b"
| "ba_step E (Emplace v) b = state_of (ba_emplace E v b)"
| "ba_step E (ReadData out n) b = state_of (ba_readData out n b)"
| "ba_step E (ReadString n) b = state_of (ba_readString n b)"
| "ba_step E ReadNumber16 b = state_of (ba_readNumber b :: error + u16 \<times> byte_array)"
| "ba_step E (Shr v) b = state_of (ba_shr v b)"
| "ba_step E (ShrString v) b = state_of (ba_shr_string v b)"
| "ba_step E (ReadPosition v) b = Inr (set_readPosition v b)"
| "ba_step E (WritePosition v) b = set_writePosition E v b"
| "ba_step E (Seek n) b = Inr (seek n b)"
| "ba_step E (Expand n) b = ba_expand E n b"
| "ba_step E (Truncate n) b = ba_truncate E n b"
| "ba_step E (CutHead n out) b = state_of (cutHead E n out b)"
| "ba_step E (CutTail n out) b = state_of (cutTail E n out b)"
| "ba_step E (FromHexString s) b = state_of (fromHexString E s b)"
| "ba_step E (SetReadOnly v) b = Inr (set_readOnly v b)"

text \<open>
  The caller's side: pointers point to as many bytes as the length says, no argument is
  larger than memory, and the write position is not moved in front of the read position.
\<close>

fun valid_op :: "ba_op \<Rightarrow> byte_array \<Rightarrow> bool" where
  "valid_op (WriteData m n) b = (case m of None \<Rightarrow> True | Some xs \<Rightarrow> n \<le> length xs \<and> n < 2 ^ 63)"
| "valid_op (WriteEmptyData n) b = (n < 2 ^ 63)"
| "valid_op (Shl v) b = (length v < 2 ^ 63)"
| "valid_op (ShlString v) b = (length v < 2 ^ 63)"
| "valid_op (Emplace v) b = (length v < 2 ^ 63)"
| "valid_op (WritePosition v) b = (ba_readPos b \<le> v)"
| "valid_op _ b = True"

text \<open>The result of a step is fine: no undefined behaviour, and the array is still owned.\<close>

definition fine :: "error + byte_array \<Rightarrow> bool" where
  "fine r \<longleftrightarrow> (case r of Inl e \<Rightarrow> e \<noteq> Undefined_behaviour | Inr b \<Rightarrow> ba_owned b)"

lemma fine_Inr [simp]: "fine (Inr b) \<longleftrightarrow> ba_owned b"
  by (simp add: fine_def)

lemma fineI: "r \<noteq> Inl Undefined_behaviour \<Longrightarrow> (\<And>b. r = Inr b \<Longrightarrow> ba_owned b) \<Longrightarrow> fine r"
  by (cases r) (auto simp: fine_def)

lemma ba_append_fine: "ba_owned b \<Longrightarrow> length xs < 2 ^ 63 \<Longrightarrow> fine (ba_append E xs b)"
  by (rule fineI) (blast dest: ba_append_safe, blast dest: ba_append_owned)

lemma ba_expand_fine: "ba_owned b \<Longrightarrow> fine (ba_expand E n b)"
  by (rule fineI) (blast dest: ba_expand_safe, blast dest: ba_expand_owned)

lemma ba_owned_read:
  "ba_owned b \<Longrightarrow> n \<le> readAvailable b \<Longrightarrow> ba_owned (b\<lparr>ba_readPos := sz_add (ba_readPos b) n\<rparr>)"
  using advance_read [of b n] by (auto simp: ba_owned_def)

lemma read_fine:
  assumes "ba_owned b" and "n \<le> readAvailable b"
  shows "fine (state_of (bindE (peek (ba_data b) (ba_readPos b) n)
    (\<lambda>xs. Inr (f xs, b\<lparr>ba_readPos := sz_add (ba_readPos b) n\<rparr>))))"
  using peek_unread [OF ba_owned_inv [OF assms(1)] assms(2)] ba_owned_read [OF assms]
  by (simp add: state_of_def)

lemma state_of_Inr [simp]: "state_of (Inr (x, b)) = Inr b"
  by (simp add: state_of_def)

lemma ba_writeData_fine:
  assumes "ba_owned b" and "valid_op (WriteData m n) b"
  shows "fine (ba_writeData E m n b)"
proof (cases "m = None \<or> readOnly b \<or> n = 0")
  case True
  with assms(1) have "ba_writeData E m n b = Inr b" by (intro ba_writeData_ignored) auto
  with assms(1) show ?thesis by simp
next
  case False
  then obtain xs where m: "m = Some xs" by auto
  with False assms have "ba_writeData E m n b = ba_append E (take n xs) b"
    by (auto intro: ba_writeData_eq)
  with assms m show ?thesis by (simp add: ba_append_fine)
qed

lemma ba_shl_fine: "ba_owned b \<Longrightarrow> length v < 2 ^ 63 \<Longrightarrow> fine (ba_shl E v b)"
  by (simp add: ba_shl_def ba_append_fine) (simp add: fine_def)

lemma bindE_fine: "fine r \<Longrightarrow> (\<And>b. ba_owned b \<Longrightarrow> r = Inr b \<Longrightarrow> fine (f b)) \<Longrightarrow> fine (bindE r f)"
  by (cases r) (auto simp: fine_def)

lemma ba_shl_string_fine:
  assumes "ba_owned b"
  shows "fine (ba_shl_string E v b)"
  unfolding ba_shl_string_def Let_def ba_shl_word_def
proof (rule bindE_fine)
  show "fine (ba_shl E (word_le (word_of_nat (length v) :: u16)) b)"
    using assms by (intro ba_shl_fine) simp_all
  fix b1 assume b1: "ba_owned b1"
  have lt: "unat (word_of_nat (length v) :: u16) < 2 ^ 63"
    using unsigned_less [of "word_of_nat (length v) :: u16", where 'a = nat] by simp
  have le: "unat (word_of_nat (length v) :: u16) \<le> length v"
    by (simp add: unat_of_nat)
  show "fine (ba_writeData E (Some v) (unat (word_of_nat (length v) :: u16)) b1)"
    using b1 lt le by (intro ba_writeData_fine) simp_all
qed

lemma hex_loop_fine:
  "i + length s div 2 \<le> length d
     \<Longrightarrow> \<exists>ok d'. hex_loop s i d = Inr (ok, d') \<and> length d' = length d"
proof (induction s i d rule: hex_loop.induct)
  case (1 c1 c2 cs i d)
  show ?case
  proof (cases "from_chars2 c1 c2")
    case None
    then show ?thesis by auto
  next
    case (Some v)
    let ?d = "take i d @ [word_of_nat v] @ drop (Suc i) d"
    have p: "poke d i [word_of_nat v] = Inr ?d" using "1.prems" by (simp add: poke_ok)
    have len: "length ?d = length d" using "1.prems" by simp
    have "\<exists>ok d'. hex_loop cs (Suc i) ?d = Inr (ok, d') \<and> length d' = length ?d"
      using "1.prems" by (intro "1.IH" [OF Some]) simp
    with Some p show ?thesis unfolding len by simp
  qed
qed auto

lemma ba_truncate_fine: "ba_owned b \<Longrightarrow> fine (ba_truncate E n b)"
  by (auto simp: ba_truncate_def fine_def ba_owned_def ba_inv_def malloc_ok_def size_mod_def
      dest: spec [of _ n])

lemma fromHexString_fine:
  assumes "ba_owned b"
  shows "fine (state_of (fromHexString E s b))"
proof (cases "length s mod 2 = 0")
  case False
  with assms(1) show ?thesis by (simp add: fromHexString_def)
next
  case True
  show ?thesis
  proof (cases "ba_truncate E (length s div 2) b")
    case (Inl e)
    with True ba_truncate_fine [OF assms, of E "length s div 2"] show ?thesis
      by (simp add: fromHexString_def state_of_def fine_def)
  next
    case (Inr b1)
    have o1: "ba_owned b1" using ba_truncate_fine [OF assms] Inr by (metis fine_Inr)
    have pos: "ba_readPos b1 = 0" "ba_writePos b1 = 0" and len: "length s div 2 \<le> ba_capacity b1"
      using Inr assms(1) True
      by (auto simp: ba_truncate_def ba_owned_def ba_inv_def split: if_splits)
    have "0 + length s div 2 \<le> length (ba_data b1)"
      using o1 len by (simp add: ba_owned_def ba_inv_def)
    from hex_loop_fine [OF this] obtain ok d' where "hex_loop s 0 (ba_data b1) = Inr (ok, d')"
      and "length d' = length (ba_data b1)" by blast
    with Inr True o1 pos len show ?thesis
      by (simp add: fromHexString_def ba_owned_def ba_inv_def)
  qed
qed

lemma ba_readString_fine: "ba_owned b \<Longrightarrow> fine (state_of (ba_readString n b))"
  by (auto simp: ba_readString_def Let_def intro!: read_fine)

lemma ba_readData_fine: "ba_owned b \<Longrightarrow> fine (state_of (ba_readData out n b))"
  by (auto simp: ba_readData_def Let_def intro!: read_fine)

lemma ba_shr_fine: "ba_owned b \<Longrightarrow> fine (state_of (ba_shr v b))"
  by (auto simp: ba_shr_def Let_def intro!: read_fine)

lemma ba_readNumber_fine: "ba_owned b \<Longrightarrow> fine (state_of (ba_readNumber b :: error + 'a::len word \<times> byte_array))"
  by (auto simp: ba_readNumber_def Let_def intro!: read_fine)

lemma state_of_bindE_pair: "state_of (bindE r (\<lambda>(x, b). g x b)) = bindE r (\<lambda>(x, b). state_of (g x b))"
  by (cases r) (auto simp: state_of_def)

lemma ba_shr_string_fine:
  assumes "ba_owned b"
  shows "fine (state_of (ba_shr_string v b))"
proof (cases "ba_readNumber b :: error + u16 \<times> byte_array")
  case (Inl e)
  with ba_readNumber_fine [OF assms, where 'a = 16] show ?thesis
    by (simp add: ba_shr_string_def state_of_def fine_def)
next
  case (Inr r)
  obtain len b1 where r: "r = (len, b1)" by fastforce
  have "ba_owned b1" using ba_readNumber_fine [OF assms, where 'a = 16] Inr r by simp
  with Inr r show ?thesis by (auto simp: ba_shr_string_def Let_def intro!: read_fine)
qed

theorem ba_step_fine:
  assumes "ba_owned b" and "valid_op op b"
  shows "fine (ba_step E op b)"
proof (cases op)
  case (WriteEmptyData n)
  with assms show ?thesis by (simp add: ba_writeEmptyData_def ba_append_fine)
next
  case (Emplace v)
  have "state_of (bindE r (\<lambda>b1. Inr (x, b1))) = r" for r :: "error + byte_array" and x :: "nat option"
    by (cases r) (simp_all add: state_of_def)
  with Emplace assms show ?thesis by (simp add: ba_emplace_def ba_append_fine)
next
  case (WritePosition v)
  show ?thesis
  proof (cases "ba_readOnly b")
    case False
    have "fine (bindE (ba_expand E v b) (\<lambda>b1. Inr (b1\<lparr>ba_writePos := v\<rparr>)))"
    proof (rule bindE_fine)
      show "fine (ba_expand E v b)" using assms by (simp add: ba_expand_fine)
      fix b1 assume "ba_owned b1" and "ba_expand E v b = Inr b1"
      with ba_expand_ok [OF ba_owned_inv [OF assms(1)]] assms(2) WritePosition
      show "fine (Inr (b1\<lparr>ba_writePos := v\<rparr>))"
        by (auto simp: ba_owned_def ba_inv_def)
    qed
    with False WritePosition show ?thesis by (simp add: set_writePosition_def)
  qed (use assms WritePosition in \<open>simp add: set_writePosition_def\<close>)
next
  case (CutHead n out)
  with cutHead_ok [OF ba_owned_inv [OF assms(1)], of E n out] assms(1) show ?thesis
    by (auto simp: ba_owned_def)
next
  case (CutTail n out)
  with cutTail_ok [OF ba_owned_inv [OF assms(1)], of E n out] assms(1) show ?thesis
    by (auto simp: ba_owned_def)
next
  case (ReadPosition v)
  with assms set_readPosition_inv [of b v] show ?thesis
    by (simp add: ba_owned_def set_readPosition_def)
next
  case (Seek n)
  with assms seek_inv [of b n] show ?thesis
    by (simp add: ba_owned_def seek_def set_readPosition_def)
next
  case (SetReadOnly v)
  with assms show ?thesis by (simp add: ba_owned_def ba_inv_def set_readOnly_def)
qed (use assms in \<open>simp_all add: ba_writeData_fine ba_shl_fine ba_shl_string_fine ba_expand_fine
  ba_truncate_fine fromHexString_fine ba_readString_fine ba_readData_fine ba_shr_fine
  ba_readNumber_fine ba_shr_string_fine\<close>)

text \<open>The arrays a program can build: a fresh one, then any valid operations.\<close>

inductive ba_reachable :: "env \<Rightarrow> byte_array \<Rightarrow> bool" for E where
  fresh_array: "ba_new E n = Inr b \<Longrightarrow> ba_reachable E b"
| next_array: "ba_reachable E b \<Longrightarrow> valid_op op b \<Longrightarrow> ba_step E op b = Inr b' \<Longrightarrow> ba_reachable E b'"

lemma ba_reachable_owned: "ba_reachable E b \<Longrightarrow> ba_owned b"
proof (induction rule: ba_reachable.induct)
  case (fresh_array n b)
  then show ?case using ba_new_owned by blast
next
  case (next_array b op b')
  then show ?case using ba_step_fine [of b op E] by (metis fine_Inr)
qed

section \<open>Properties\<close>



text \<open>C14. A writable array is a byte queue: any mix of \<^verbatim>\<open>writeData\<close> and
  \<^verbatim>\<open>readData\<close> that the allocator lets through returns the bytes a plain list would, across
  every reallocation.\<close>

theorem ba_stream_refines:
  assumes "ba_inv b" and "\<not> readOnly b"
    and "run_stream (ba_put E) (ba_readData True) ops b = Inr (out, b')"
  shows "spec_stream ops (ba_unread b) = (out, ba_unread b') \<and> ba_inv b'"
proof -
  have "ba_open b" using assms(1,2) by (simp add: ba_open_def)
  from ba.run_refines [OF this assms(3)] show ?thesis by (simp add: ba_open_def)
qed

theorem ba_stream_refines_witness:
  "\<exists>b'. spec_stream [Put [1, 2, 3], Get 2, Get 0] [] = ([[1, 2], [3]], ba_unread b') \<and> ba_inv b'"
proof -
  let ?b = "\<lparr>isAttached = False, ba_readOnly = False, ba_data = [0, 0],
    ba_readPos = 0, ba_writePos = 0, ba_capacity = 2\<rparr>"
  let ?b' = "\<lparr>isAttached = False, ba_readOnly = False, ba_data = [1, 2, 3, 7],
    ba_readPos = 3, ba_writePos = 3, ba_capacity = 4\<rparr>"
  have i: "ba_inv ?b" and w: "\<not> readOnly ?b" and u: "ba_unread ?b = []" by code_simp+
  have "run_stream (ba_put small_env) (ba_readData True) [Put [1, 2, 3], Get 2, Get 0] ?b
      = Inr ([[1, 2], [3]], ?b')"
    by code_simp
  from ba_stream_refines [OF i w this] u show ?thesis by auto
qed

text \<open>What \<^verbatim>\<open>writeData\<close> does to an array that owns its memory, for every size up
  to half the address range: it appends exactly the given bytes and leaves the read position
  alone, or the allocator refused the doubled capacity and it throws
  \<^verbatim>\<open>std::bad_alloc\<close>. A read-only array and a length of 0 are ignored.\<close>

theorem ba_writeData_outcome:
  assumes "ba_owned b" and "len \<le> length mem" and "ba_writePos b + len \<le> 2 ^ 63"
  shows "if readOnly b \<or> len = 0 then ba_writeData E (Some mem) len b = Inr b
    else (\<exists>b'. ba_writeData E (Some mem) len b = Inr b' \<and> ba_owned b'
              \<and> contents b' = contents b @ take len mem \<and> ba_readPos b' = ba_readPos b)
       \<or> (ba_writeData E (Some mem) len b = Inl Bad_alloc
          \<and> (\<exists>c. grow (ba_capacity b) (ba_writePos b + len) = Some c \<and> \<not> malloc_ok E c))"
proof (cases "readOnly b \<or> len = 0")
  case True
  then show ?thesis by (auto intro: ba_writeData_ignored)
next
  case False
  then have eq: "ba_writeData E (Some mem) len b = ba_append E (take len mem) b"
    using assms(2) by (simp add: ba_writeData_eq)
  have lt: "length (take len mem) = len" using assms(2) by simp
  have "ba_writePos b + length (take len mem) \<le> 2 ^ 63" using assms(3) lt by simp
  from ba_append_total [OF assms(1) this, of E] False show ?thesis
    unfolding eq lt
    using ba_append_ok [OF ba_owned_inv [OF assms(1)]] ba_append_owned [OF assms(1)]
    by auto
qed

theorem ba_writeData_outcome_witness:
  "\<exists>b b'. ba_owned b \<and> ba_writeData small_env (Some [5, 6]) 2 b = Inr b'
     \<and> contents b' = contents b @ [5, 6]"
proof -
  let ?b = "\<lparr>isAttached = False, ba_readOnly = False, ba_data = [4, 0],
    ba_readPos = 0, ba_writePos = 1, ba_capacity = 2\<rparr>"
  have o: "ba_owned ?b" and r: "\<not> (readOnly ?b \<or> (2::nat) = 0)" by code_simp+
  have le: "2 \<le> length [5, 6 :: byte]" and lt: "ba_writePos ?b + 2 \<le> 2 ^ 63" by simp_all
  have "grow (ba_capacity ?b) (ba_writePos ?b + 2) = Some 4" and "malloc_ok small_env 4"
    by code_simp+
  with ba_writeData_outcome [OF o le lt, of small_env] r
  have "\<exists>b'. ba_writeData small_env (Some [5, 6]) 2 ?b = Inr b' \<and> contents b' = contents ?b @ [5, 6]"
    by auto
  with o show ?thesis by blast
qed



text \<open>A number of any width written with \<^verbatim>\<open>operator<<\<close> and read back with
  \<^verbatim>\<open>readNumber\<close> is the number, and the bytes behind it are untouched. With too few bytes
  left \<^verbatim>\<open>readNumber\<close> returns 0 and consumes nothing.\<close>

theorem ba_number_roundtrip:
  fixes w :: "'a::len word"
  assumes "ba_inv b" and "\<not> readOnly b" and "ba_unread b = []" and "8 dvd LENGTH('a)"
    and "ba_shl_word E w b = Inr b1" and "ba_put E rest b1 = Inr b2"
  shows "(\<exists>b3. ba_readNumber b2 = Inr (w, b3) \<and> ba_unread b3 = rest)
    \<and> ba_readNumber b = Inr (0 :: 'a word, b)"
proof
  have o: "ba_open b" using assms(1,2) by (simp add: ba_open_def)
  have "8 \<le> LENGTH('a)" using assms(4) by (simp add: dvd_imp_le)
  then have p: "ba_put E (word_le w) b = Inr b1"
    using ba_shl_word_put [OF o] assms(5) by metis
  have o1: "ba_open b1" and "ba_unread b1 = word_le w"
    using ba.put_inv [OF o p] ba.put_unread [OF o p] assms(3) by simp_all
  then have "ba_inv b2" and "ba_unread b2 = word_le w @ rest"
    using ba.put_inv [OF o1 assms(6)] ba.put_unread [OF o1 assms(6)] by (simp_all add: ba_open_def)
  from ba_readNumber_ok [OF this assms(4)]
  show "\<exists>b3. ba_readNumber b2 = Inr (w, b3) \<and> ba_unread b3 = rest" by blast
  show "ba_readNumber b = Inr (0 :: 'a word, b)"
    using length_ba_unread [OF assms(1)] assms(3) \<open>8 \<le> LENGTH('a)\<close>
    by (intro ba_readNumber_short) (simp add: div_greater_zero_iff)
qed

theorem ba_number_roundtrip_witness:
  "\<exists>b2 b3. ba_readNumber b2 = Inr (0xDEADBEEF :: u32, b3) \<and> ba_unread b3 = [1]"
proof -
  let ?b = "\<lparr>isAttached = False, ba_readOnly = False, ba_data = [0, 0, 0, 0, 0],
    ba_readPos = 0, ba_writePos = 0, ba_capacity = 5\<rparr>"
  let ?b1 = "?b\<lparr>ba_data := [0xEF, 0xBE, 0xAD, 0xDE, 0], ba_writePos := 4\<rparr>"
  let ?b2 = "?b\<lparr>ba_data := [0xEF, 0xBE, 0xAD, 0xDE, 1], ba_writePos := 5\<rparr>"
  have i: "ba_inv ?b" and w: "\<not> readOnly ?b" and u: "ba_unread ?b = []" by code_simp+
  have d: "8 dvd LENGTH(32)" by simp
  have "ba_shl_word small_env (0xDEADBEEF :: u32) ?b = Inr ?b1" by code_simp
  moreover have "ba_put small_env [1] ?b1 = Inr ?b2" by code_simp
  ultimately show ?thesis using ba_number_roundtrip [OF i w u d] by blast
qed

text \<open>Cutting conserves the data: \<^verbatim>\<open>cutHead\<close> hands out exactly the front and keeps
  the rest with the read position moved along; \<^verbatim>\<open>cutTail\<close> hands out exactly the back and
  keeps the front with the read position clamped.\<close>

theorem ba_cut_conserves:
  assumes "ba_inv b"
  shows "\<exists>h b1 t b2. cutHead E len True b = Inr (h, b1) \<and> h @ contents b1 = contents b
    \<and> length h = min len (ba_writePos b) \<and> ba_readPos b1 = ba_readPos b - len \<and> ba_inv b1
    \<and> cutTail E len True b = Inr (t, b2) \<and> contents b2 @ t = contents b
    \<and> length t = min len (ba_writePos b)
    \<and> ba_readPos b2 = min (ba_readPos b) (ba_writePos b - len) \<and> ba_inv b2"
proof -
  have len: "length (contents b) = ba_writePos b" using assms by (rule length_contents)
  from cutHead_ok [OF assms, of E len True] cutTail_ok [OF assms, of E len True]
  obtain b1 b2 where "cutHead E len True b = Inr (take len (contents b), b1)"
    and "contents b1 = drop len (contents b)" and "ba_readPos b1 = ba_readPos b - len"
    and "ba_inv b1" and "cutTail E len True b = Inr (drop (ba_writePos b - len) (contents b), b2)"
    and "contents b2 = take (ba_writePos b - len) (contents b)"
    and "ba_readPos b2 = min (ba_readPos b) (ba_writePos b - len)" and "ba_inv b2"
    by auto
  with len show ?thesis by (auto simp: min.commute)
qed

theorem ba_cut_conserves_witness:
  "\<exists>b h b1. cutHead small_env 2 True b = Inr (h, b1) \<and> h @ contents b1 = contents b \<and> contents b = [1, 2, 3]"
proof -
  let ?b = "\<lparr>isAttached = False, ba_readOnly = False, ba_data = [1, 2, 3, 0],
    ba_readPos = 1, ba_writePos = 3, ba_capacity = 4\<rparr>"
  have i: "ba_inv ?b" by code_simp
  have c: "contents ?b = [1, 2, 3]" by code_simp
  from ba_cut_conserves [OF i, of small_env 2] c show ?thesis by blast
qed

text \<open>Hexadecimal round trip: what \<^verbatim>\<open>toHexString\<close> prints, in either case,
  \<^verbatim>\<open>fromHexString\<close> reads back into any array that owns its memory.\<close>

theorem ba_hex_roundtrip:
  assumes "ba_inv b" and "\<not> isAttached b2" and "malloc_ok E (ba_writePos b)"
  shows "\<exists>s b3. toHexString up b = Inr s \<and> length s = 2 * ba_writePos b
    \<and> fromHexString E s b2 = Inr (True, b3) \<and> contents b3 = contents b"
proof -
  have "malloc_ok E (length (contents b))" using assms(1,3) by (simp add: length_contents)
  from fromHexString_hex [OF assms(2) this, of up] toHexString_ok [OF assms(1), of up]
  show ?thesis by (auto simp: length_hex length_contents [OF assms(1)])
qed

theorem ba_hex_roundtrip_witness:
  "\<exists>b b2 s b3. toHexString True b = Inr s \<and> contents b = [0x3C, 0xFF]
     \<and> fromHexString small_env s b2 = Inr (True, b3) \<and> contents b3 = contents b"
proof -
  let ?b = "\<lparr>isAttached = False, ba_readOnly = False, ba_data = [0x3C, 0xFF, 0, 0],
    ba_readPos = 1, ba_writePos = 2, ba_capacity = 4\<rparr>"
  have i: "ba_inv ?b" and a: "\<not> isAttached ?b" and m: "malloc_ok small_env (ba_writePos ?b)"
    by code_simp+
  have c: "contents ?b = [0x3C, 0xFF]" by code_simp
  from ba_hex_roundtrip [OF i a m, of True] c show ?thesis by blast
qed

text \<open>\<^verbatim>\<open>seek\<close>, all three ways: forward it stops at the write position, backward it
  moves exactly, and a step back beyond the start lands at the write position, not at 0.\<close>

theorem ba_seek_spec:
  assumes "ba_inv b" and "ba_writePos b < 2 ^ 63" and "\<bar>pos\<bar> < 2 ^ 31"
  shows "ba_readPos (seek pos b) =
    (if 0 \<le> pos then min (ba_readPos b + nat pos) (ba_writePos b)
     else if nat (- pos) \<le> ba_readPos b then ba_readPos b - nat (- pos)
     else ba_writePos b)"
proof -
  consider "0 \<le> pos" | "pos < 0" "nat (- pos) \<le> ba_readPos b"
    | "pos < 0" "ba_readPos b < nat (- pos)" by linarith
  then show ?thesis
  proof cases
    case 1
    with seek_forward [OF assms(1)] assms show ?thesis by simp
  next
    case 2
    with seek_backward [OF assms(1)] show ?thesis by simp
  next
    case 3
    moreover have "nat (- pos) \<le> 2 ^ 31" using assms(3) by simp
    ultimately show ?thesis using seek_before_start [OF assms(1)] assms(2) by simp
  qed
qed

theorem ba_seek_spec_witness:
  "\<exists>b. ba_inv b \<and> ba_readPos b = 2 \<and> ba_writePos b = 4 \<and> ba_readPos (seek (- 3) b) = 4"
proof -
  let ?b = "\<lparr>isAttached = False, ba_readOnly = False, ba_data = [1, 2, 3, 4],
    ba_readPos = 2, ba_writePos = 4, ba_capacity = 4\<rparr>"
  have i: "ba_inv ?b" by code_simp
  have "ba_writePos ?b < 2 ^ 63" and "\<bar>- 3 :: int\<bar> < 2 ^ 31" by simp_all
  from ba_seek_spec [OF i this] have "ba_readPos (seek (- 3) ?b) = 4" by simp
  with i show ?thesis by (intro exI [of _ ?b]) simp
qed

end
