(* ===== verification/Ring_Buffer.thy ===== *)
theory Ring_Buffer
  imports Byte_Stream
begin

text \<open>
  Model of \<^verbatim>\<open>ws::core::RingBuffer\<close> (include/ws/core/RingBuffer.h,
  wsCore/src/RingBuffer.cpp): a circular block of memory that keeps one byte free, grows
  by doubling and unfolds its wrapped content when it grows. \<open>rb_data\<close> is the content of
  the block, the empty list for a null pointer. The class has the contract of
  \<open>byte_stream\<close>; the theory proves it and instantiates the locale.
\<close>

section \<open>State and construction\<close>

record ring_buffer =
  rb_data :: bytes
  rb_capacity :: nat
  rb_readPos :: nat
  rb_writePos :: nat

definition rb_new :: "env \<Rightarrow> error + ring_buffer" where
  "rb_new E =
     (if malloc_ok E 4096
      then Inr \<lparr>rb_data = replicate 4096 0, rb_capacity = 4096, rb_readPos = 0, rb_writePos = 0\<rparr>
      else Inl Bad_alloc)"

definition rb_copy :: "env \<Rightarrow> ring_buffer \<Rightarrow> error + ring_buffer" where
  "rb_copy E other =
     (if malloc_ok E (rb_capacity other)
      then bindE (peek (rb_data other) 0 (rb_capacity other)) (\<lambda>d. Inr (other\<lparr>rb_data := d\<rparr>))
      else Inl Bad_alloc)"

text \<open>The object a move leaves behind.\<close>

definition rb_moved :: "ring_buffer \<Rightarrow> ring_buffer" where
  "rb_moved r = r\<lparr>rb_data := [], rb_capacity := 0, rb_readPos := 0, rb_writePos := 0\<rparr>"

definition rb_move :: "ring_buffer \<Rightarrow> ring_buffer \<times> ring_buffer" where
  "rb_move r = (r, rb_moved r)"

definition rb_assign :: "env \<Rightarrow> ring_buffer \<Rightarrow> ring_buffer \<Rightarrow> error + ring_buffer" where
  "rb_assign E this other =
     (let b = this\<lparr>rb_capacity := rb_capacity other\<rparr> in
      if malloc_ok E (rb_capacity b)
      then bindE (peek (rb_data other) 0 (rb_capacity b)) (\<lambda>d.
           Inr (b\<lparr>rb_data := d, rb_readPos := rb_readPos other, rb_writePos := rb_writePos other\<rparr>))
      else Inl Bad_alloc)"

definition rb_move_assign :: "ring_buffer \<Rightarrow> ring_buffer \<Rightarrow> ring_buffer \<times> ring_buffer" where
  "rb_move_assign this r =
     (this\<lparr>rb_data := rb_data r, rb_readPos := rb_readPos r, rb_writePos := rb_writePos r,
           rb_capacity := rb_capacity r\<rparr>, rb_moved r)"

definition rb_swap :: "ring_buffer \<times> ring_buffer \<Rightarrow> ring_buffer \<times> ring_buffer" where
  "rb_swap p = (case p of (a, b) \<Rightarrow> (b, a))"

section \<open>Sizes\<close>

definition rb_used :: "ring_buffer \<Rightarrow> nat" where
  "rb_used b =
     (if rb_readPos b \<le> rb_writePos b then sz_sub (rb_writePos b) (rb_readPos b)
      else sz_add (sz_sub (rb_capacity b) (rb_readPos b)) (rb_writePos b))"

definition rb_available :: "ring_buffer \<Rightarrow> nat" where
  "rb_available b = sz_sub (sz_sub (rb_capacity b) (rb_used b)) 1"

text \<open>
  The result of \<^verbatim>\<open>malloc\<close> is not checked: the pointer may be null afterwards, here an
  empty block of capacity 4096.
\<close>

definition rb_truncate :: "env \<Rightarrow> bool \<Rightarrow> ring_buffer \<Rightarrow> ring_buffer" where
  "rb_truncate E resize b =
     (let b1 = (if resize
                then b\<lparr>rb_capacity := 4096,
                       rb_data := (if malloc_ok E 4096 then fresh E 0 4096 else [])\<rparr>
                else b)
      in b1\<lparr>rb_readPos := 0, rb_writePos := 0\<rparr>)"

definition rb_expand :: "env \<Rightarrow> nat \<Rightarrow> ring_buffer \<Rightarrow> error + ring_buffer" where
  "rb_expand E sz b =
     (case grow (rb_capacity b) sz of
        None \<Rightarrow> Inl Diverges
      | Some newCap \<Rightarrow>
          if newCap \<noteq> rb_capacity b then
            if malloc_ok E newCap then
              let d = rb_data b @ fresh E (rb_capacity b) newCap in
              if rb_writePos b < rb_readPos b then
                let tmp = sz_sub (rb_capacity b) (rb_readPos b) in
                bindE (peek d (rb_readPos b) tmp) (\<lambda>xs.
                bindE (poke d (sz_sub newCap tmp) xs) (\<lambda>d1.
                Inr (b\<lparr>rb_data := d1, rb_readPos := sz_sub newCap tmp, rb_capacity := newCap\<rparr>)))
              else Inr (b\<lparr>rb_data := d, rb_capacity := newCap\<rparr>)
            else Inl Bad_alloc
          else Inr b)"

section \<open>Writing\<close>

text \<open>The two copies of \<^verbatim>\<open>writeData\<close>: up to the end of the block, then from its start.\<close>

definition rb_store :: "bytes \<Rightarrow> ring_buffer \<Rightarrow> error + ring_buffer" where
  "rb_store xs b =
     (let n = length xs; tmp = min n (sz_sub (rb_capacity b) (rb_writePos b)) in
      bindE (poke (rb_data b) (rb_writePos b) (take tmp xs)) (\<lambda>d1.
      bindE (if tmp < n then poke d1 0 (drop tmp xs) else Inr d1) (\<lambda>d2.
      if rb_capacity b = 0 then Inl Undefined_behaviour
      else Inr (b\<lparr>rb_data := d2,
                  rb_writePos := sz_add (rb_writePos b) n mod rb_capacity b\<rparr>))))"

text \<open>\<open>None\<close> is a null pointer.\<close>

definition rb_writeData :: "env \<Rightarrow> bytes option \<Rightarrow> nat \<Rightarrow> ring_buffer \<Rightarrow> error + ring_buffer" where
  "rb_writeData E inData len b =
     (case inData of
        None \<Rightarrow> Inr b
      | Some mem \<Rightarrow>
          if len = 0 then Inr b
          else let ava = rb_available b in
               bindE (if ava < len
                      then rb_expand E (sz_add (sz_sub len ava) (rb_capacity b)) b
                      else Inr b) (\<lambda>b1.
               bindE (peek mem 0 len) (\<lambda>xs. rb_store xs b1)))"

text \<open>\<^verbatim>\<open>operator<<\<close>: a value by its bytes, and a string after its length in two bytes.\<close>

definition rb_shl :: "env \<Rightarrow> bytes \<Rightarrow> ring_buffer \<Rightarrow> error + ring_buffer" where
  "rb_shl E val b = rb_writeData E (Some val) (length val) b"

definition rb_shl_string :: "env \<Rightarrow> bytes \<Rightarrow> ring_buffer \<Rightarrow> error + ring_buffer" where
  "rb_shl_string E val b =
     (let len = (word_of_nat (length val) :: u16) in
      bindE (rb_shl E (word_le len) b) (rb_writeData E (Some val) (length val)))"

section \<open>Reading\<close>

text \<open>\<open>out\<close> says whether the output pointer is not null. The result is what is copied to it.\<close>

definition rb_readData :: "bool \<Rightarrow> nat \<Rightarrow> ring_buffer \<Rightarrow> error + bytes \<times> ring_buffer" where
  "rb_readData out len b =
     (if \<not> out then Inr ([], b)
      else let n = (if len = 0 \<or> rb_used b < len then rb_used b else len) in
           if 0 < n
           then let tmp = min n (sz_sub (rb_capacity b) (rb_readPos b)) in
                bindE (peek (rb_data b) (rb_readPos b) tmp) (\<lambda>xs.
                bindE (if tmp < n then peek (rb_data b) 0 (n - tmp) else Inr []) (\<lambda>ys.
                if rb_capacity b = 0 then Inl Undefined_behaviour
                else Inr (xs @ ys, b\<lparr>rb_readPos := sz_add (rb_readPos b) n mod rb_capacity b\<rparr>)))
           else Inr ([], b))"

text \<open>
  \<^verbatim>\<open>operator>>(T&)\<close>: \<open>val\<close> holds the bytes of the target (at least one) before and
  after; with too few bytes in the buffer only the first bytes of the target change.
\<close>

definition rb_shr :: "bytes \<Rightarrow> ring_buffer \<Rightarrow> error + bytes \<times> ring_buffer" where
  "rb_shr val b =
     bindE (rb_readData True (length val) b) (\<lambda>(xs, b1).
     bindE (poke val 0 xs) (\<lambda>v. Inr (v, b1)))"

definition rb_readNumber :: "ring_buffer \<Rightarrow> error + 'a::len word \<times> ring_buffer" where
  "rb_readNumber b =
     bindE (rb_readData True (LENGTH('a) div 8) b) (\<lambda>(xs, b1).
     bindE (poke (replicate (LENGTH('a) div 8) 0) 0 xs) (\<lambda>v. Inr (le_word v, b1)))"

text \<open>The string is made with \<open>len\<close> characters, filled, and cut to what was read.\<close>

definition rb_readString :: "nat \<Rightarrow> ring_buffer \<Rightarrow> error + bytes \<times> ring_buffer" where
  "rb_readString len b =
     bindE (rb_readData True len b) (\<lambda>(xs, b1).
     bindE (poke (replicate len 0) 0 xs) (\<lambda>v. Inr (take (length xs) v, b1)))"

definition rb_shr_string :: "ring_buffer \<Rightarrow> error + bytes \<times> ring_buffer" where
  "rb_shr_string b =
     bindE (rb_readNumber b) (\<lambda>(len, b1). rb_readString (unat (len :: u16)) b1)"

section \<open>Well-formed buffers and what they hold\<close>

definition rb_inv :: "ring_buffer \<Rightarrow> bool" where
  "rb_inv b \<longleftrightarrow> rb_capacity b < 2 ^ 63 \<and> length (rb_data b) = rb_capacity b
     \<and> rb_readPos b < rb_capacity b \<and> rb_writePos b < rb_capacity b"

definition rb_unread :: "ring_buffer \<Rightarrow> bytes" where
  "rb_unread b =
     (if rb_readPos b \<le> rb_writePos b
      then drop (rb_readPos b) (take (rb_writePos b) (rb_data b))
      else drop (rb_readPos b) (rb_data b) @ take (rb_writePos b) (rb_data b))"

lemma rb_used_nat:
  "rb_inv b \<Longrightarrow> rb_used b =
     (if rb_readPos b \<le> rb_writePos b then rb_writePos b - rb_readPos b
      else rb_capacity b - rb_readPos b + rb_writePos b)"
  by (auto simp: rb_used_def rb_inv_def size_mod_def)

lemma rb_used_eq: "rb_inv b \<Longrightarrow> rb_used b = length (rb_unread b)"
  by (auto simp: rb_used_nat) (auto simp: rb_unread_def rb_inv_def)

lemma rb_used_less: "rb_inv b \<Longrightarrow> rb_used b < rb_capacity b"
  by (auto simp: rb_used_nat) (auto simp: rb_inv_def)

lemma rb_available_nat: "rb_inv b \<Longrightarrow> rb_available b = rb_capacity b - rb_used b - 1"
  using rb_used_less [of b] sz_sub_exact [of 1 "rb_capacity b - rb_used b"]
    sz_sub_exact [of "rb_used b" "rb_capacity b"]
  by (auto simp: rb_available_def rb_inv_def size_mod_def simp del: sz_sub_exact)

lemma rb_available_eq:
  "rb_inv b \<Longrightarrow> rb_available b + length (rb_unread b) + 1 = rb_capacity b"
  using rb_used_less [of b] by (simp add: rb_available_nat rb_used_eq)

lemma rb_new_inv: "rb_new E = Inr b \<Longrightarrow> rb_inv b \<and> rb_unread b = []"
  by (auto simp: rb_new_def rb_inv_def rb_unread_def split: if_splits)

lemma rb_truncate_inv:
  "rb_inv b \<Longrightarrow> \<not> resize \<or> malloc_ok E 4096
     \<Longrightarrow> rb_inv (rb_truncate E resize b) \<and> rb_unread (rb_truncate E resize b) = []"
  by (auto simp: rb_truncate_def rb_inv_def rb_unread_def)

lemma rb_copy_inv:
  "rb_inv b \<Longrightarrow> malloc_ok E (rb_capacity b) \<Longrightarrow> rb_copy E b = Inr b"
  by (simp add: rb_copy_def rb_inv_def mem_simps)

subsection \<open>Growing\<close>

lemma rb_expand_ok:
  assumes "rb_inv b" and "rb_expand E sz b = Inr b'"
  shows "rb_inv b' \<and> rb_unread b' = rb_unread b \<and> sz \<le> rb_capacity b'"
proof -
  from assms(2) obtain c where c: "grow (rb_capacity b) sz = Some c"
    by (auto simp: rb_expand_def split: option.splits)
  have le: "sz \<le> c" "rb_capacity b \<le> c" using grow_some [OF c] by auto
  show ?thesis
  proof (cases "c = rb_capacity b")
    case True
    with assms c le show ?thesis by (simp add: rb_expand_def)
  next
    case False
    then have ok: "c < 2 ^ 63" and lt: "rb_capacity b < c"
      using assms(2) c le by (auto simp: rb_expand_def malloc_ok_def split: if_splits)
    show ?thesis
    proof (cases "rb_writePos b < rb_readPos b")
      case True
      let ?t = "rb_capacity b - rb_readPos b"
      have "sz_sub (rb_capacity b) (rb_readPos b) = ?t" and "sz_sub c ?t = c - ?t"
        using assms(1) ok lt by (simp_all add: rb_inv_def size_mod_def)
      with assms c True lt ok le show ?thesis
        by (auto simp: rb_expand_def rb_inv_def rb_unread_def mem_simps bindE_eq_Inr Let_def
            split: if_splits)
    next
      case False
      with assms c lt ok le show ?thesis
        by (auto simp: rb_expand_def rb_inv_def rb_unread_def split: if_splits)
    qed
  qed
qed

lemma rb_expand_total:
  assumes "rb_inv b" and "sz \<le> 2 ^ 63"
  shows "\<exists>c. grow (rb_capacity b) sz = Some c
    \<and> (if c = rb_capacity b \<or> malloc_ok E c then \<exists>b'. rb_expand E sz b = Inr b'
       else rb_expand E sz b = Inl Bad_alloc)"
proof -
  have "0 < rb_capacity b" using assms(1) by (auto simp: rb_inv_def)
  from grow_terminates [OF this assms(2)] obtain c where c: "grow (rb_capacity b) sz = Some c" ..
  have le: "rb_capacity b \<le> c" using grow_some [OF c] by auto
  have "sz_sub (rb_capacity b) (rb_readPos b) = rb_capacity b - rb_readPos b"
    and "malloc_ok E c \<Longrightarrow> sz_sub c (rb_capacity b - rb_readPos b)
      = c - (rb_capacity b - rb_readPos b)"
    using assms(1) le by (simp_all add: rb_inv_def size_mod_def malloc_ok_def)
  with c le assms(1) show ?thesis
    by (auto simp: rb_expand_def rb_inv_def mem_simps Let_def)
qed

subsection \<open>Writing and reading\<close>

text \<open>A write that fits appends to the unread bytes, across the end of the block or not.\<close>

lemma rb_store_ok:
  assumes "rb_inv b" and "length xs \<le> rb_available b" and "xs \<noteq> []"
  shows "\<exists>b'. rb_store xs b = Inr b' \<and> rb_inv b' \<and> rb_unread b' = rb_unread b @ xs
    \<and> rb_capacity b' = rb_capacity b"
proof -
  let ?n = "length xs" and ?w = "rb_writePos b" and ?c = "rb_capacity b" and ?d = "rb_data b"
  have inv: "?c < 2 ^ 63" "length ?d = ?c" "rb_readPos b < ?c" "?w < ?c"
    using assms(1) by (simp_all add: rb_inv_def)
  have room: "?n + rb_used b < ?c" using assms rb_used_less [OF assms(1)]
    by (simp add: rb_available_nat)
  have sub: "sz_sub ?c ?w = ?c - ?w" and add: "sz_add ?w ?n = ?w + ?n"
    using inv room by (simp_all add: size_mod_def)
  show ?thesis
  proof (cases "?w + ?n < ?c")
    case True
    let ?b = "b\<lparr>rb_data := take ?w ?d @ xs @ drop (?w + ?n) ?d, rb_writePos := ?w + ?n\<rparr>"
    have "rb_store xs b = Inr ?b"
      using True inv by (simp add: rb_store_def Let_def sub add mem_simps)
    moreover have "rb_inv ?b" using True inv by (simp add: rb_inv_def)
    moreover have "rb_unread ?b = rb_unread b @ xs"
      using room inv by (auto simp: rb_unread_def rb_used_nat [OF assms(1)])
    ultimately show ?thesis by auto
  next
    case False
    let ?k = "?c - ?w"
    have k: "?k \<le> ?n" "?n - ?k < rb_readPos b" "rb_readPos b \<le> ?w"
      using False room inv by (auto simp: rb_used_nat [OF assms(1)] split: if_splits)
    let ?e = "take ?w ?d @ take ?k xs"
    let ?b = "b\<lparr>rb_data := drop ?k xs @ drop (?n - ?k) ?e, rb_writePos := ?n - ?k\<rparr>"
    have le: "length ?e = ?c" using k inv by simp
    have "(?w + ?n) mod ?c = ?n - ?k"
      using k inv by (subst mod_one_turn) auto
    moreover have "poke ?d ?w (take ?k xs) = Inr ?e" using k inv by (simp add: mem_simps)
    moreover have "poke ?e 0 (drop ?k xs) = Inr (drop ?k xs @ drop (?n - ?k) ?e)"
      using le k inv by (simp add: poke_def)
    ultimately have "rb_store xs b = Inr ?b"
      using k inv by (cases "?k < ?n") (simp_all add: rb_store_def Let_def sub add min_absorb2)
    moreover have "rb_inv ?b" using le k inv by (simp add: rb_inv_def)
    moreover have "rb_unread ?b = rb_unread b @ xs"
      using k inv by (simp add: rb_unread_def)
    ultimately show ?thesis by auto
  qed
qed

lemma rb_writeData_eq:
  "0 < len \<Longrightarrow> len \<le> length mem
     \<Longrightarrow> rb_writeData E (Some mem) len b =
       bindE (if rb_available b < len
              then rb_expand E (sz_add (sz_sub len (rb_available b)) (rb_capacity b)) b
              else Inr b) (rb_store (take len mem))"
  by (simp add: rb_writeData_def Let_def mem_simps)

lemma rb_need_eq:
  assumes "rb_inv b" and "rb_available b < len" and "len < 2 ^ 63"
  shows "sz_add (sz_sub len (rb_available b)) (rb_capacity b)
    = len + length (rb_unread b) + 1"
proof -
  have "sz_sub len (rb_available b) = len - rb_available b"
    using assms by (intro sz_sub_exact) (simp_all add: size_mod_def)
  moreover have "sz_add (len - rb_available b) (rb_capacity b) = len - rb_available b + rb_capacity b"
    using assms by (intro sz_add_exact) (auto simp: rb_inv_def size_mod_def)
  ultimately show ?thesis using rb_available_eq [OF assms(1)] assms(2) by simp
qed

lemma rb_writeData_ok:
  assumes "rb_inv b" and "len \<le> length mem" and "len < 2 ^ 63"
    and "rb_writeData E (Some mem) len b = Inr b'"
  shows "rb_inv b' \<and> rb_unread b' = rb_unread b @ take len mem"
proof (cases "len = 0")
  case True
  with assms show ?thesis by (simp add: rb_writeData_def)
next
  case False
  with assms(2,4) obtain b1 where e: "(if rb_available b < len
      then rb_expand E (sz_add (sz_sub len (rb_available b)) (rb_capacity b)) b else Inr b) = Inr b1"
    and s: "rb_store (take len mem) b1 = Inr b'"
    by (auto simp: rb_writeData_eq bindE_eq_Inr)
  have b1: "rb_inv b1 \<and> rb_unread b1 = rb_unread b \<and> len \<le> rb_available b1"
  proof (cases "rb_available b < len")
    case True
    with e rb_expand_ok [OF assms(1)] have "rb_inv b1 \<and> rb_unread b1 = rb_unread b
        \<and> len + length (rb_unread b) + 1 \<le> rb_capacity b1"
      by (simp add: rb_need_eq [OF assms(1) True assms(3)])
    with rb_available_eq [of b1] show ?thesis by simp
  next
    case False
    with e assms(1) show ?thesis by simp
  qed
  moreover have "length (take len mem) = len" using assms(2) by simp
  moreover have "take len mem \<noteq> []" using False assms(2) by auto
  ultimately show ?thesis using rb_store_ok [of b1 "take len mem"] s by auto
qed

text \<open>A read never fails and takes from the front of the unread bytes.\<close>

lemma rb_readData_ok:
  assumes "rb_inv b"
  shows "\<exists>b'. rb_readData True len b = Inr (fst (spec_get len (rb_unread b)), b')
    \<and> rb_inv b' \<and> rb_unread b' = snd (spec_get len (rb_unread b))
    \<and> rb_capacity b' = rb_capacity b"
proof -
  let ?r = "rb_readPos b" and ?w = "rb_writePos b" and ?c = "rb_capacity b" and ?d = "rb_data b"
  let ?n = "if len = 0 \<or> rb_used b < len then rb_used b else len"
  define n where "n = ?n"
  have inv: "?c < 2 ^ 63" "length ?d = ?c" "?r < ?c" "?w < ?c"
    using assms by (simp_all add: rb_inv_def)
  have le: "n \<le> rb_used b" by (simp add: n_def)
  have spec: "spec_get len (rb_unread b) = (take n (rb_unread b), drop n (rb_unread b))"
    by (auto simp: spec_get_def n_def rb_used_eq [OF assms])
  have sub: "sz_sub ?c ?r = ?c - ?r" and add: "sz_add ?r n = ?r + n"
    using inv le rb_used_less [OF assms] by (simp_all add: size_mod_def)
  have eq: "rb_readData True len b =
    (if 0 < n
     then let tmp = min n (?c - ?r) in
          bindE (peek ?d ?r tmp) (\<lambda>xs.
          bindE (if tmp < n then peek ?d 0 (n - tmp) else Inr []) (\<lambda>ys.
          Inr (xs @ ys, b\<lparr>rb_readPos := (?r + n) mod ?c\<rparr>)))
     else Inr ([], b))"
    using inv unfolding rb_readData_def Let_def n_def [symmetric] sub add by simp
  show ?thesis
  proof (cases "n = 0 \<or> ?r + n < ?c")
    case True
    let ?b = "b\<lparr>rb_readPos := ?r + n\<rparr>"
    have "rb_readData True len b = Inr (take n (drop ?r ?d), ?b)"
      using True inv by (auto simp: eq Let_def mem_simps)
    moreover have "take n (drop ?r ?d) = take n (rb_unread b)"
      using True le inv by (auto simp: rb_unread_def rb_used_nat [OF assms] take_drop)
    moreover have "rb_unread ?b = drop n (rb_unread b)"
      using True le inv by (auto simp: rb_unread_def rb_used_nat [OF assms] add.commute)
    moreover have "rb_inv ?b" using True inv by (auto simp: rb_inv_def)
    ultimately show ?thesis unfolding spec by auto
  next
    case False
    let ?k = "?c - ?r"
    let ?b = "b\<lparr>rb_readPos := n - ?k\<rparr>"
    have k: "?k \<le> n" "n - ?k \<le> ?w" "?w < ?r" "0 < n"
      using False le inv by (auto simp: rb_used_nat [OF assms] split: if_splits)
    have "(?r + n) mod ?c = n - ?k"
      using k inv by (subst mod_one_turn) auto
    then have "rb_readData True len b = Inr (drop ?r ?d @ take (n - ?k) ?d, ?b)"
      using k inv by (auto simp: eq Let_def mem_simps min_absorb2)
    moreover have "drop ?r ?d @ take (n - ?k) ?d = take n (rb_unread b)"
      using k inv by (simp add: rb_unread_def)
    moreover have "rb_unread ?b = drop n (rb_unread b)"
      using k inv by (simp add: rb_unread_def)
    moreover have "rb_inv ?b" using k inv by (simp add: rb_inv_def)
    ultimately show ?thesis unfolding spec by auto
  qed
qed

section \<open>The buffer is a byte stream\<close>

text \<open>No block of memory is as large as half the address range.\<close>

definition rb_put :: "env \<Rightarrow> bytes \<Rightarrow> ring_buffer \<Rightarrow> error + ring_buffer" where
  "rb_put E xs b =
     (if length xs < 2 ^ 63 then rb_writeData E (Some xs) (length xs) b else Inl Bad_alloc)"

interpretation rb: byte_stream "rb_put E" "rb_readData True" rb_unread rb_inv
  for E
proof unfold_locales
  fix s s' :: ring_buffer and xs
  assume "rb_inv s" and "rb_put E xs s = Inr s'"
  with rb_writeData_ok [of s "length xs" xs E s'] show "rb_inv s'"
    and "rb_unread s' = rb_unread s @ xs"
    by (auto simp: rb_put_def split: if_splits)
next
  fix s :: ring_buffer and n
  assume i: "rb_inv s"
  obtain s1 where g: "rb_readData True n s = Inr (fst (spec_get n (rb_unread s)), s1)"
    and "rb_inv s1" and "rb_unread s1 = snd (spec_get n (rb_unread s))"
    using rb_readData_ok [OF i, of n] by blast
  then show "\<exists>ys s'. rb_readData True n s = Inr (ys, s')" by blast
  fix ys s'
  assume "rb_readData True n s = Inr (ys, s')"
  with g have "ys = fst (spec_get n (rb_unread s))" and "s' = s1" by simp_all
  with \<open>rb_inv s1\<close> \<open>rb_unread s1 = _\<close>
  show "rb_inv s'" and "(ys, rb_unread s') = spec_get n (rb_unread s)" by simp_all
qed

text \<open>Writing ends, for every size up to a quarter of the range.\<close>

lemma rb_writeData_total:
  assumes "rb_inv b" and "len \<le> length mem" and "len < 2 ^ 62" and "length (rb_unread b) < 2 ^ 62"
  shows "(\<exists>b'. rb_writeData E (Some mem) len b = Inr b')
    \<or> rb_writeData E (Some mem) len b = Inl Bad_alloc
      \<and> (\<exists>c. grow (rb_capacity b) (len + length (rb_unread b) + 1) = Some c \<and> \<not> malloc_ok E c)"
proof (cases "len = 0")
  case True
  then show ?thesis by (simp add: rb_writeData_def)
next
  case False
  then have ne: "take len mem \<noteq> []" and lt: "length (take len mem) = len" using assms(2) by auto
  note eq = rb_writeData_eq [OF _ assms(2), of E b]
  show ?thesis
  proof (cases "rb_available b < len")
    case True
    let ?need = "len + length (rb_unread b) + 1"
    have need: "sz_add (sz_sub len (rb_available b)) (rb_capacity b) = ?need"
      using rb_need_eq [OF assms(1) True] assms(3) by simp
    have "?need \<le> 2 ^ 63" using assms(3,4) by simp
    from rb_expand_total [OF assms(1) this, of E] obtain c
      where c: "grow (rb_capacity b) ?need = Some c"
      and r: "if c = rb_capacity b \<or> malloc_ok E c then \<exists>b'. rb_expand E ?need b = Inr b'
              else rb_expand E ?need b = Inl Bad_alloc" by blast
    show ?thesis
    proof (cases "c = rb_capacity b \<or> malloc_ok E c")
      case True
      then obtain b1 where b1: "rb_expand E ?need b = Inr b1" using r by auto
      from rb_expand_ok [OF assms(1) this] rb_available_eq [of b1] rb_store_ok [of b1 "take len mem"]
      show ?thesis using False \<open>rb_available b < len\<close> need b1 ne lt by (auto simp: eq)
    next
      case c': False
      then have "rb_expand E ?need b = Inl Bad_alloc" using r by simp
      with c c' show ?thesis using False True need by (auto simp: eq)
    qed
  next
    case fits: False
    with rb_store_ok [OF assms(1), of "take len mem"] ne lt False show ?thesis
      by (auto simp: eq)
  qed
qed

subsection \<open>Strings and numbers\<close>

lemma poke_all: "length xs = length m \<Longrightarrow> poke m 0 xs = Inr xs"
  by (simp add: poke_def)

lemma rb_readNumber_ok:
  fixes w :: "'a::len word"
  assumes "rb_inv b" and "rb_unread b = word_le w @ rest" and "8 dvd LENGTH('a)"
  shows "\<exists>b'. rb_readNumber b = Inr (w, b') \<and> rb_inv b' \<and> rb_unread b' = rest"
proof -
  have "0 < LENGTH('a) div 8" using assms(3) by (simp add: div_greater_zero_iff dvd_imp_le)
  with rb_readData_ok [OF assms(1), of "LENGTH('a) div 8"] assms(2,3) show ?thesis
    by (auto simp: rb_readNumber_def spec_get_def poke_all)
qed

lemma rb_readString_ok:
  assumes "rb_inv b" and "0 < len" and "len \<le> length (rb_unread b)"
  shows "\<exists>b'. rb_readString len b = Inr (take len (rb_unread b), b') \<and> rb_inv b'
    \<and> rb_unread b' = drop len (rb_unread b)"
  using rb_readData_ok [OF assms(1), of len] assms(2,3)
  by (auto simp: rb_readString_def spec_get_def poke_all min_def)

text \<open>With fewer bytes than asked for, the string is what there is.\<close>

lemma rb_readString_short:
  assumes "rb_inv b" and "length (rb_unread b) < len"
  shows "\<exists>b'. rb_readString len b = Inr (rb_unread b, b') \<and> rb_unread b' = []"
  using rb_readData_ok [OF assms(1), of len] assms(2)
  by (auto simp: rb_readString_def spec_get_def mem_simps)

text \<open>
  A string is read by its two-byte length, so on frames the string operators are the
  framed writes and reads of the stream.
\<close>

lemma rb_shl_string_frame:
  assumes "framable xs"
  shows "rb_shl_string E xs b = put_frame (rb_put E) xs b"
proof -
  have "rb_put E xs = rb_writeData E (Some xs) (length xs)"
    using assms by (simp add: rb_put_def framable_def fun_eq_iff)
  then show ?thesis by (simp add: rb_shl_string_def put_frame_def rb_put_def rb_shl_def)
qed

lemma rb_shr_string_frame:
  assumes "rb_inv b" and "rb_unread b = frame xs @ rest" and "framable xs"
  shows "\<exists>b'. rb_shr_string b = Inr (xs, b') \<and> rb_inv b' \<and> rb_unread b' = rest"
proof -
  let ?h = "word_of_nat (length xs) :: u16"
  have u: "rb_unread b = word_le ?h @ (xs @ rest)" using assms(2) by (simp add: frame_def)
  have "8 dvd LENGTH(16)" by simp
  with rb_readNumber_ok [OF assms(1) u] obtain b1
    where b1: "rb_readNumber b = Inr (?h, b1)" "rb_inv b1" "rb_unread b1 = xs @ rest" by blast
  have len: "unat ?h = length xs" using frame_header_length [OF assms(3)] by simp
  have "0 < length xs" using assms(3) by (simp add: framable_def)
  with rb_readString_ok [OF b1(2), of "length xs"] b1 len show ?thesis
    by (auto simp: rb_shr_string_def)
qed

lemma rb_frames_read:
  "rb_inv b \<Longrightarrow> rb_unread b = concat (map frame xss) @ rest \<Longrightarrow> list_all framable xss
     \<Longrightarrow> \<exists>b'. repeat_get (length xss) rb_shr_string b = Inr (xss, b') \<and> rb_unread b' = rest"
proof (induction xss arbitrary: b)
  case Nil
  then show ?case by simp
next
  case (Cons xs xss)
  have "rb_unread b = frame xs @ (concat (map frame xss) @ rest)" and "framable xs"
    using Cons.prems(2,3) by simp_all
  with rb_shr_string_frame [OF Cons.prems(1)] obtain b1
    where g: "rb_shr_string b = Inr (xs, b1)" and i: "rb_inv b1"
      and u: "rb_unread b1 = concat (map frame xss) @ rest" by blast
  from Cons.IH [OF i u] Cons.prems(3) g show ?case by auto
qed

lemma rb_frames_written:
  "list_all framable xss \<Longrightarrow> runE (rb_shl_string E) xss b = runE (put_frame (rb_put E)) xss b"
  by (rule runE_cong_invariant [where P = "\<lambda>b. True"])
    (auto simp: list_all_iff rb_shl_string_frame)

subsection \<open>Corners\<close>

text \<open>
  \<^verbatim>\<open>readString(0)\<close> asks \<^verbatim>\<open>readData\<close> for everything and gives it an empty string to fill:
  with unread bytes in the buffer it writes past the string. So a length prefix of 0, which
  an empty string writes, breaks the reader as soon as anything follows it.
\<close>

lemma rb_readString_0_overflows:
  assumes "rb_inv b" and "rb_unread b \<noteq> []"
  shows "rb_readString 0 b = Inl Undefined_behaviour"
  using rb_readData_ok [OF assms(1), of 0] assms(2)
  by (auto simp: rb_readString_def spec_get_def poke_def)

lemma rb_empty_frame_overflows:
  assumes "rb_inv b" and "rb_unread b = frame [] @ rest" and "rest \<noteq> []"
  shows "rb_shr_string b = Inl Undefined_behaviour"
proof -
  have "rb_unread b = word_le (0 :: u16) @ rest" using assms(2) by (simp add: frame_def)
  with rb_readNumber_ok [OF assms(1)] obtain b1
    where "rb_readNumber b = Inr (0 :: u16, b1)" "rb_inv b1" "rb_unread b1 = rest" by force
  with rb_readString_0_overflows [of b1] assms(3) show ?thesis by (simp add: rb_shr_string_def)
qed

text \<open>
  A buffer that has been moved from has capacity 0; its free space wraps around to the
  largest size, nothing is grown, and a write goes through the null pointer.
\<close>

lemma rb_moved_write:
  assumes "0 < len" and "len \<le> length mem" and "len < 2 ^ 63"
  shows "rb_writeData E (Some mem) len (rb_moved b) = Inl Undefined_behaviour"
  using assms by (simp add: rb_writeData_eq rb_moved_def rb_available_def rb_used_def
      sz_sub_def size_mod_def rb_store_def poke_def)

text \<open>
  \<^verbatim>\<open>truncate(true)\<close> does not look at what \<^verbatim>\<open>malloc\<close> returned; the next write then goes
  through the null pointer.
\<close>

lemma rb_truncate_unchecked:
  assumes "\<not> malloc_ok E 4096" and "0 < len" and "len \<le> length mem" and "len < 4096"
  shows "rb_writeData E (Some mem) len (rb_truncate E True b) = Inl Undefined_behaviour"
proof -
  have "rb_available (rb_truncate E True b) = 4095"
    using assms(1)
    by (simp add: rb_truncate_def rb_available_def rb_used_def sz_sub_def size_mod_def)
  with assms show ?thesis
    by (simp add: rb_writeData_eq) (simp add: rb_truncate_def rb_store_def Let_def poke_def sz_sub_def size_mod_def)
qed

section \<open>Properties\<close>

text \<open>C16. The ring is a byte queue: any mix of \<^verbatim>\<open>writeData\<close> and \<^verbatim>\<open>readData\<close> that the
  allocator lets through returns the bytes a plain list would, wherever the positions wrap
  and whenever the block is reallocated and unfolded in between.\<close>

theorem rb_stream_refines:
  assumes "rb_inv b" and "run_stream (rb_put E) (rb_readData True) ops b = Inr (out, b')"
  shows "spec_stream ops (rb_unread b) = (out, rb_unread b') \<and> rb_inv b'"
  using rb.run_refines [OF assms] by blast

theorem rb_stream_refines_witness:
  "\<exists>b'. spec_stream [Get 1, Put [4, 5, 6, 7], Get 3, Get 0] [1, 2, 3]
     = ([[1], [2, 3, 4], [5, 6, 7]], rb_unread b') \<and> rb_inv b'"
proof -
  let ?b = "\<lparr>rb_data = [2, 3, 0, 1], rb_capacity = 4, rb_readPos = 3, rb_writePos = 2\<rparr>"
  have i: "rb_inv ?b" and u: "rb_unread ?b = [1, 2, 3]" by code_simp+
  let ?b' = "\<lparr>rb_data = [2, 3, 4, 5, 6, 7, 7, 7], rb_capacity = 8, rb_readPos = 6, rb_writePos = 6\<rparr>"
  have "run_stream (rb_put small_env) (rb_readData True) [Get 1, Put [4, 5, 6, 7], Get 3, Get 0] ?b
      = Inr ([[1], [2, 3, 4], [5, 6, 7]], ?b')"
    by code_simp
  from rb_stream_refines [OF i this] u show ?thesis by auto
qed

text \<open>What \<^verbatim>\<open>writeData\<close> does, on every branch, for sizes below a quarter of the
  address range: it appends exactly the given bytes, or the allocator refused the doubled
  capacity and it throws \<^verbatim>\<open>std::bad_alloc\<close>. It never diverges and never writes outside
  the block.\<close>

theorem rb_writeData_outcome:
  assumes "rb_inv b" and "len \<le> length mem" and "len < 2 ^ 62" and "length (rb_unread b) < 2 ^ 62"
  shows "(\<exists>b'. rb_writeData E (Some mem) len b = Inr b' \<and> rb_inv b'
            \<and> rb_unread b' = rb_unread b @ take len mem)
    \<or> rb_writeData E (Some mem) len b = Inl Bad_alloc
      \<and> (\<exists>c. grow (rb_capacity b) (len + length (rb_unread b) + 1) = Some c \<and> \<not> malloc_ok E c)"
  using rb_writeData_total [OF assms, of E] rb_writeData_ok [OF assms(1,2), of E] assms(3) by force

theorem rb_writeData_outcome_witness:
  "\<exists>b. rb_unread b = [1] \<and> rb_inv b \<and> (\<exists>b'. rb_writeData small_env (Some [8, 9]) 2 b = Inr b'
     \<and> rb_unread b' = [1, 8, 9])"
proof -
  let ?b = "\<lparr>rb_data = [0, 1], rb_capacity = 2, rb_readPos = 1, rb_writePos = 0\<rparr>"
  have i: "rb_inv ?b" and u: "rb_unread ?b = [1]" by code_simp+
  have le: "2 \<le> length [8, 9 :: byte]" by simp
  have lt: "(2::nat) < 2 ^ 62" and lu: "length (rb_unread ?b) < 2 ^ 62"
    unfolding u by simp_all
  have "grow (rb_capacity ?b) 4 = Some 4" and "malloc_ok small_env 4" by code_simp+
  moreover have "2 + length (rb_unread ?b) + 1 = 4" unfolding u by simp
  moreover have "rb_unread ?b @ take 2 [8, 9] = [1, 8, 9]" unfolding u by simp
  ultimately have "\<exists>b'. rb_writeData small_env (Some [8, 9]) 2 ?b = Inr b' \<and> rb_unread b' = [1, 8, 9]"
    using rb_writeData_outcome [OF i le lt lu, of small_env] by (metis option.inject)
  with i u show ?thesis by blast
qed

text \<open>Strings written with \<^verbatim>\<open>operator<<\<close> are read back by \<^verbatim>\<open>operator>>\<close>, in order
  and complete, as long as each is not empty and shorter than 65536 bytes.\<close>

theorem rb_strings_roundtrip:
  assumes "rb_inv b" and "rb_unread b = []" and "list_all framable xss"
    and "runE (rb_shl_string E) xss b = Inr b'"
  shows "\<exists>b''. repeat_get (length xss) rb_shr_string b' = Inr (xss, b'') \<and> rb_unread b'' = []"
proof -
  have "runE (put_frame (rb_put E)) xss b = Inr b'"
    using assms(4) rb_frames_written [OF assms(3)] by simp
  from rb.put_frames_unread [OF assms(1) this] assms(2)
  have "rb_inv b'" and "rb_unread b' = concat (map frame xss) @ []" by simp_all
  from rb_frames_read [OF this assms(3)] show ?thesis by blast
qed

theorem rb_strings_roundtrip_witness:
  "\<exists>b' b''. repeat_get 2 rb_shr_string b' = Inr ([[5], [6, 7]], b'') \<and> rb_unread b'' = []"
proof -
  let ?b = "\<lparr>rb_data = [0, 0, 0], rb_capacity = 3, rb_readPos = 2, rb_writePos = 2\<rparr>"
  have i: "rb_inv ?b" and u: "rb_unread ?b = []" and f: "list_all framable [[5], [6, 7]]"
    by code_simp+
  have "\<exists>b'. runE (rb_shl_string small_env) [[5], [6, 7]] ?b = Inr b'"
  proof -
    have "runE (rb_shl_string small_env) [[5], [6, 7]] ?b =
      Inr \<lparr>rb_data = [0, 5, 2, 0, 6, 7, 7, 7, 7, 7, 7, 1], rb_capacity = 12,
           rb_readPos = 11, rb_writePos = 6\<rparr>" by code_simp
    then show ?thesis by blast
  qed
  then obtain b' where run: "runE (rb_shl_string small_env) [[5], [6, 7]] ?b = Inr b'" ..
  have len: "length [[5], [6, 7 :: byte]] = 2" by simp
  show ?thesis using rb_strings_roundtrip [OF i u f run] unfolding len by blast
qed

end
