(* ===== verification/Timer_Wheel.thy ===== *)
theory Timer_Wheel
  imports Prelude
begin

text \<open>
  Model of \<^verbatim>\<open>ws::core::Timer\<close> (include/ws/core/Timer.h, wsCore/src/Timer.cpp): a timing
  wheel of 256 near slots and four far wheels of 64 slots, driven by a worker thread that
  dispatches, advances the tick and carries once every 10 ms, while other threads add and
  remove timers and call \<^verbatim>\<open>update\<close>. Schedules are shared objects: \<open>heap\<close> maps their
  addresses to their content, and the lists hold addresses, so that \<^verbatim>\<open>remove\<close> reaches a
  schedule that is still in a wheel or waits to be called.
\<close>

section \<open>State\<close>

record 'cb schedule =
  s_id :: u32
  s_index :: u32
  s_remainTimes :: int
  s_interval :: int
  s_callback :: "'cb option"

type_synonym addr = nat

record 'cb timer =
  t_tick :: u32
  lastID :: u32
  nearFuture :: "nat \<Rightarrow> addr list"
  farFuture :: "nat \<Rightarrow> nat \<Rightarrow> addr list"
  dispatchList :: "addr list"
  scheduleList :: "u32 \<Rightarrow> addr option"
  heap :: "addr \<Rightarrow> 'cb schedule"
  next_addr :: addr

definition MIN_INTERVAL :: int where
  "MIN_INTERVAL = 10"

definition NEAR_FUTURE :: int where
  "NEAR_FUTURE = 256"

definition NEAR_MASK :: u32 where
  "NEAR_MASK = 255"

definition FAR_FUTURE :: int where
  "FAR_FUTURE = 64"

definition FAR_MASK :: u32 where
  "FAR_MASK = 63"

text \<open>The four far wheels, in the order the loops visit them.\<close>

definition far_wheels :: "nat list" where
  "far_wheels = [0, 1, 2, 3]"

definition timer_new :: "'cb timer" where
  "timer_new =
     \<lparr>t_tick = 0, lastID = 0, nearFuture = \<lambda>k. [], farFuture = \<lambda>i k. [], dispatchList = [],
      scheduleList = \<lambda>k. None,
      heap = \<lambda>a. \<lparr>s_id = 0, s_index = 0, s_remainTimes = 0, s_interval = 0, s_callback = None\<rparr>,
      next_addr = 0\<rparr>"

section \<open>Operations\<close>

definition push_near :: "nat \<Rightarrow> addr \<Rightarrow> 'cb timer \<Rightarrow> 'cb timer" where
  "push_near k a t = t\<lparr>nearFuture := (nearFuture t)(k := a # nearFuture t k)\<rparr>"

definition push_far :: "nat \<Rightarrow> nat \<Rightarrow> addr \<Rightarrow> 'cb timer \<Rightarrow> 'cb timer" where
  "push_far i k a t =
     t\<lparr>farFuture := (farFuture t)(i := (farFuture t i)(k := a # farFuture t i k))\<rparr>"

definition modify :: "addr \<Rightarrow> ('cb schedule \<Rightarrow> 'cb schedule) \<Rightarrow> 'cb timer \<Rightarrow> 'cb timer" where
  "modify a f t = t\<lparr>heap := (heap t)(a := f (heap t a))\<rparr>"

text \<open>Division of \<^verbatim>\<open>std::chrono\<close> counts truncates towards 0.\<close>

definition ticks_of :: "int \<Rightarrow> int" where
  "ticks_of ms = (if ms < 0 then - (- ms div MIN_INTERVAL) else ms div MIN_INTERVAL)"

text \<open>The loop of \<^verbatim>\<open>insert\<close> over the far wheels; past the last one the item is dropped.\<close>

fun insert_far :: "nat list \<Rightarrow> int \<Rightarrow> u32 \<Rightarrow> addr \<Rightarrow> 'cb timer \<Rightarrow> 'cb timer" where
  "insert_far [] iv ix a t = t"
| "insert_far (i # is) iv ix a t =
     (if iv < FAR_FUTURE then push_far i (unat (ix AND FAR_MASK)) a t
      else insert_far is (drop_bit 6 iv) (drop_bit 6 ix) a t)"

definition timer_insert :: "addr \<Rightarrow> 'cb timer \<Rightarrow> 'cb timer" where
  "timer_insert a t =
     (let iv = ticks_of (s_interval (heap t a));
          ix = word_of_int (uint (t_tick t) + iv);
          t1 = modify a (\<lambda>s. s\<lparr>s_index := ix\<rparr>) t in
      if iv < NEAR_FUTURE then push_near (unat (ix AND NEAR_MASK)) a t1
      else insert_far far_wheels (drop_bit 8 iv) (drop_bit 8 ix) a t1)"

text \<open>The result is the id handed out, 0 for a call that is not accepted.\<close>

definition addTimeCall :: "int \<Rightarrow> 'cb option \<Rightarrow> int \<Rightarrow> 'cb timer \<Rightarrow> u32 \<times> 'cb timer" where
  "addTimeCall iv cb tms t =
     (if cb \<noteq> None \<and> tms \<noteq> 0 \<and> (tms = 1 \<or> MIN_INTERVAL \<le> iv)
      then let a = next_addr t;
               n = lastID t + 1;
               s = \<lparr>s_id = n, s_index = 0, s_remainTimes = tms, s_interval = iv, s_callback = cb\<rparr>;
               t1 = timer_insert a (t\<lparr>heap := (heap t)(a := s), next_addr := Suc a, lastID := n\<rparr>)
           in (n, t1\<lparr>scheduleList := (scheduleList t1)(n := Some a)\<rparr>)
      else (0, t))"

definition delayCall :: "int \<Rightarrow> 'cb option \<Rightarrow> 'cb timer \<Rightarrow> u32 \<times> 'cb timer" where
  "delayCall iv cb t = addTimeCall iv cb 1 t"

definition timer_remove :: "u32 \<Rightarrow> 'cb timer \<Rightarrow> 'cb timer" where
  "timer_remove n t =
     (case scheduleList t n of
        None \<Rightarrow> t
      | Some a \<Rightarrow>
          (modify a (\<lambda>s. s\<lparr>s_remainTimes := 0, s_callback := None\<rparr>) t)
            \<lparr>scheduleList := (scheduleList t)(n := None)\<rparr>)"

text \<open>The body of the loop of \<^verbatim>\<open>dispatch\<close>, for one item.\<close>

definition dispatch_item :: "addr \<Rightarrow> 'cb timer \<Rightarrow> 'cb timer" where
  "dispatch_item a t =
     (if s_remainTimes (heap t a) \<noteq> 0
      then let t1 = t\<lparr>dispatchList := a # dispatchList t\<rparr> in
           if s_remainTimes (heap t1 a) = -1 then timer_insert a t1
           else let t2 = modify a (\<lambda>s. s\<lparr>s_remainTimes := s_remainTimes s - 1\<rparr>) t1 in
                if 0 < s_remainTimes (heap t2 a) then timer_insert a t2
                else t2\<lparr>scheduleList := (scheduleList t2)(s_id (heap t2 a) := None)\<rparr>
      else t)"

definition dispatch :: "'cb timer \<Rightarrow> 'cb timer" where
  "dispatch t =
     (let k = unat (t_tick t AND NEAR_MASK);
          t1 = fold dispatch_item (nearFuture t k) t
      in t1\<lparr>nearFuture := (nearFuture t1)(k := [])\<rparr>)"

fun timer_move :: "addr \<Rightarrow> nat \<Rightarrow> 'cb timer \<Rightarrow> 'cb timer" where
  "timer_move a 0 t = push_near (unat (s_index (heap t a) AND NEAR_MASK)) a t"
| "timer_move a (Suc l) t =
     (let k = unat (drop_bit (l * 6 + 8) (s_index (heap t a)) AND FAR_MASK) in
      if k = 0 then timer_move a l t else push_far l k a t)"

text \<open>The carry loop of \<^verbatim>\<open>expand\<close>.\<close>

definition expand_slot :: "nat \<Rightarrow> nat \<Rightarrow> 'cb timer \<Rightarrow> 'cb timer" where
  "expand_slot i k t =
     (let t1 = fold (\<lambda>a. timer_move a i) (farFuture t i k) t
      in t1\<lparr>farFuture := (farFuture t1)(i := (farFuture t1 i)(k := []))\<rparr>)"

fun expand_loop :: "nat list \<Rightarrow> u32 \<Rightarrow> 'cb timer \<Rightarrow> 'cb timer" where
  "expand_loop [] farTick t = t"
| "expand_loop (i # is) farTick t =
     (let k = unat (farTick AND FAR_MASK);
          t1 = expand_slot i k t in
      if k \<noteq> 0 then t1 else expand_loop is (drop_bit 6 farTick) t1)"

definition timer_expand :: "'cb timer \<Rightarrow> 'cb timer" where
  "timer_expand t =
     (if t_tick t AND NEAR_MASK = 0 then expand_loop far_wheels (drop_bit 8 (t_tick t)) t else t)"

text \<open>
  One turn of the loop of \<^verbatim>\<open>timerProc\<close> at the clock reading \<open>now\<close>, in nanoseconds:
  \<^verbatim>\<open>lastTime\<close> moves by whole ticks, and each of them is worked off.
\<close>

definition TICK_NS :: int where
  "TICK_NS = MIN_INTERVAL * 1000000"

fun worker_turns :: "nat \<Rightarrow> 'cb timer \<Rightarrow> 'cb timer" where
  "worker_turns 0 t = t"
| "worker_turns (Suc k) t =
     (let t1 = dispatch t in worker_turns k (timer_expand (t1\<lparr>t_tick := t_tick t1 + 1\<rparr>)))"

definition timerProc_pass :: "int \<Rightarrow> int \<times> 'cb timer \<Rightarrow> int \<times> 'cb timer" where
  "timerProc_pass now st =
     (let (lastTime, t) = st; delta = (now - lastTime) div TICK_NS
      in (lastTime + delta * TICK_NS, worker_turns (nat delta) t))"

section \<open>The threads\<close>

text \<open>
  What a client may call, also from inside a callback; \<open>script\<close> says what each callback
  does. \<^verbatim>\<open>update\<close> takes the dispatched list as it is and calls its callbacks one by one,
  skipping those whose schedule has been removed by then.
\<close>

datatype 'cb client_op = Add int "'cb option" int | Remove u32

fun client :: "'cb client_op \<Rightarrow> 'cb timer \<Rightarrow> 'cb timer" where
  "client (Add iv cb tms) t = snd (addTimeCall iv cb tms t)"
| "client (Remove n) t = timer_remove n t"

fun call_all :: "('cb \<Rightarrow> 'cb client_op list) \<Rightarrow> addr list \<Rightarrow> 'cb timer \<Rightarrow> addr list \<times> 'cb timer" where
  "call_all script [] t = ([], t)"
| "call_all script (a # as) t =
     (case s_callback (heap t a) of
        None \<Rightarrow> call_all script as t
      | Some cb \<Rightarrow>
          let (out, t1) = call_all script as (fold client (script cb) t) in (a # out, t1))"

definition timer_update :: "('cb \<Rightarrow> 'cb client_op list) \<Rightarrow> 'cb timer \<Rightarrow> addr list \<times> 'cb timer" where
  "timer_update script t = call_all script (dispatchList t) (t\<lparr>dispatchList := []\<rparr>)"

text \<open>
  The worker repeats dispatch, \<^verbatim>\<open>++tick\<close>, expand. Each of the three is one atomic step (the
  first and the third hold \<^verbatim>\<open>addMtx\<close>, as every client operation does), and the clients may
  run between any two of them; \<open>phase\<close> is where the worker is.
\<close>

datatype phase = At_dispatch | At_tick | At_expand

datatype 'cb timer_op = Client "'cb client_op" | Update | Worker

text \<open>What one dispatch hands to \<open>dispatchList\<close>.\<close>

definition dispatched :: "'cb timer \<Rightarrow> addr list" where
  "dispatched t =
     filter (\<lambda>a. s_remainTimes (heap t a) \<noteq> 0) (nearFuture t (unat (t_tick t AND NEAR_MASK)))"

fun worker :: "phase \<Rightarrow> 'cb timer \<Rightarrow> addr list list \<times> phase \<times> 'cb timer" where
  "worker At_dispatch t = ([dispatched t], At_tick, dispatch t)"
| "worker At_tick t = ([], At_expand, t\<lparr>t_tick := t_tick t + 1\<rparr>)"
| "worker At_expand t = ([], At_dispatch, timer_expand t)"

fun timer_exec ::
    "('cb \<Rightarrow> 'cb client_op list) \<Rightarrow> 'cb timer_op \<Rightarrow> phase \<Rightarrow> 'cb timer
      \<Rightarrow> addr list list \<times> phase \<times> 'cb timer" where
  "timer_exec script (Client c) ph t = ([], ph, client c t)"
| "timer_exec script Update ph t = ([], ph, snd (timer_update script t))"
| "timer_exec script Worker ph t = worker ph t"

fun timer_run ::
    "('cb \<Rightarrow> 'cb client_op list) \<Rightarrow> 'cb timer_op list \<Rightarrow> phase \<Rightarrow> 'cb timer
      \<Rightarrow> addr list list \<times> phase \<times> 'cb timer" where
  "timer_run script [] ph t = ([], ph, t)"
| "timer_run script (x # xs) ph t =
     (let (o1, ph1, t1) = timer_exec script x ph t;
          (o2, ph2, t2) = timer_run script xs ph1 t1 in (o1 @ o2, ph2, t2))"

section \<open>Slots and due times\<close>

lemma unat_and_255: "unat (w AND 255 :: u32) = unat w mod 256"
proof -
  have "(255 :: u32) = mask 8" by (simp add: mask_eq_exp_minus_1)
  then have "w AND 255 = take_bit 8 w" by (simp add: take_bit_eq_mask)
  then show ?thesis by (simp add: take_bit_eq_mod unat_mod)
qed

lemma unat_and_63: "unat (w AND 63 :: u32) = unat w mod 64"
proof -
  have "(63 :: u32) = mask 6" by (simp add: mask_eq_exp_minus_1)
  then have "w AND 63 = take_bit 6 w" by (simp add: take_bit_eq_mask)
  then show ?thesis by (simp add: take_bit_eq_mod unat_mod)
qed

lemma unat_drop_bit: "unat (drop_bit n w :: u32) = unat w div 2 ^ n"
  by (metis drop_bit_eq_div unat_drop_bit_eq)

text \<open>
  The worker's time \<open>N\<close> and an item's due time \<open>D\<close> are counted without wrap-around; the
  32-bit tick and index are what is left of them.
\<close>

definition span :: "nat \<Rightarrow> nat" where
  "span i = 2 ^ (8 + 6 * i)"

lemma span_pos [simp]: "0 < span i"
  by (simp add: span_def)

lemma span_neq_0 [simp]: "span i \<noteq> 0"
  by (simp add: span_def)

lemma same_turn: "a mod 64 = b mod 64 \<Longrightarrow> b \<le> a \<Longrightarrow> a < b + 64 \<Longrightarrow> a = (b :: nat)"
  using mod_eq_dvd_iff_nat [of b a 64] by (auto dest: dvd_imp_le)

lemma within_span:
  assumes "span i dvd N" and "D div span i = N div span i"
  shows "D < N + span i"
proof -
  from assms(1) obtain q where q: "N = span i * q" by blast
  then have "D = span i * q + D mod span i"
    using mult_div_mod_eq [of "span i" D] assms(2) by simp
  moreover have "D mod span i < span i" by (simp add: span_def)
  ultimately show ?thesis using q by linarith
qed

lemma span_Suc: "span (Suc i) = 64 * span i"
  by (simp add: span_def power_add)

lemma near_slot: "unat (word_of_nat D AND NEAR_MASK) = D mod 256"
  by (simp add: NEAR_MASK_def unat_and_255 unat_of_nat mod_mod_cancel)

lemma far_slot:
  assumes "i < 4"
  shows "unat (drop_bit (8 + 6 * i) (word_of_nat D) AND FAR_MASK) = D div span i mod 64"
proof -
  have dv: "(64::nat) dvd 2 ^ (24 - 6 * i)"
    using assms le_imp_power_dvd [of 6 "24 - 6 * i" "2::nat"] by simp
  have "unat (drop_bit (8 + 6 * i) (word_of_nat D) AND FAR_MASK)
      = D mod 2 ^ 32 div 2 ^ (8 + 6 * i) mod 64"
    by (simp only: FAR_MASK_def unat_and_63 unat_drop_bit unat_of_nat) simp
  also have "D mod 2 ^ 32 = D mod (2 ^ (8 + 6 * i) * 2 ^ (24 - 6 * i))"
    using assms by (simp flip: power_add)
  also have "\<dots> div 2 ^ (8 + 6 * i) = D div 2 ^ (8 + 6 * i) mod 2 ^ (24 - 6 * i)"
    by (simp add: mod_mult2_eq)
  also have "\<dots> mod 64 = D div 2 ^ (8 + 6 * i) mod 64"
    using dv by (rule mod_mod_cancel)
  finally show ?thesis by (simp add: span_def)
qed

definition due :: "nat \<Rightarrow> 'cb timer \<Rightarrow> addr \<Rightarrow> nat" where
  "due N t a = N + unat (s_index (heap t a) - t_tick t)"

lemma due_ge: "N \<le> due N t a"
  by (simp add: due_def)

lemma due_less: "due N t a < N + 2 ^ 32"
  unfolding due_def using unsigned_less [of "s_index (heap t a) - t_tick t", where 'a = nat] by simp

lemma index_due: "t_tick t = word_of_nat N \<Longrightarrow> s_index (heap t a) = word_of_nat (due N t a)"
  by (simp add: due_def)

text \<open>\<open>placed i\<close>: the slot of far wheel i an item due at D belongs to at time N; while the
  carry into a slot is pending, its items may already be due in the current span.\<close>

definition placed :: "bool \<Rightarrow> nat \<Rightarrow> nat \<Rightarrow> nat \<Rightarrow> nat \<Rightarrow> bool" where
  "placed pend i N D k \<longleftrightarrow> k = D div span i mod 64 \<and>
     (if pend \<and> span i dvd N
      then N div span i \<le> D div span i \<and> D div span i < N div span i + 64
      else N div span i < D div span i \<and> D div span i \<le> N div span i + 64)"

lemma placed_new:
  assumes "span i \<le> n" and "n < span (Suc i)"
  shows "placed pend i N (N + n) ((N + n) div span i mod 64)"
proof -
  have lo: "N div span i < (N + n) div span i"
  proof -
    have "N div span i + 1 = (N + span i) div span i" using div_add_self2 [of "span i" N] by simp
    also have "\<dots> \<le> (N + n) div span i" using assms(1) by (intro div_le_mono) simp
    finally show ?thesis by simp
  qed
  have "(N + n) div span i \<le> (N + 64 * span i) div span i"
    using assms(2) by (intro div_le_mono) (simp add: span_Suc)
  then have hi: "(N + n) div span i \<le> N div span i + 64" by (simp add: add.commute)
  have "(N + n) div span i < N div span i + 64" if "span i dvd N"
  proof -
    from that obtain q where q: "N = span i * q" by blast
    have "n div span i < 64" using assms(2) by (simp add: span_Suc less_mult_imp_div_less)
    with q show ?thesis by simp
  qed
  with lo hi show ?thesis by (simp add: placed_def)
qed

section \<open>What the wheels hold\<close>

definition wheel :: "'cb timer \<Rightarrow> addr multiset" where
  "wheel t = (\<Sum>k<256. mset (nearFuture t k)) + (\<Sum>i<4. \<Sum>k<64. mset (farFuture t i k))"

lemma sum_upd_mset:
  fixes f :: "nat \<Rightarrow> 'x multiset"
  assumes "k < n"
  shows "(\<Sum>j<n. (f(k := y)) j) + f k = (\<Sum>j<n. f j) + y"
proof -
  have "(\<Sum>j<n. (f(k := y)) j) = y + (\<Sum>j\<in>{..<n} - {k}. (f(k := y)) j)"
    using assms by (subst sum.remove [of _ k]) auto
  also have "(\<Sum>j\<in>{..<n} - {k}. (f(k := y)) j) = (\<Sum>j\<in>{..<n} - {k}. f j)"
    by (intro sum.cong) auto
  finally have "(\<Sum>j<n. (f(k := y)) j) = y + (\<Sum>j\<in>{..<n} - {k}. f j)" .
  moreover have "(\<Sum>j<n. f j) = f k + (\<Sum>j\<in>{..<n} - {k}. f j)"
    using assms by (subst sum.remove [of _ k]) auto
  ultimately show ?thesis by (simp add: ac_simps)
qed

lemma exchange:
  fixes X :: "'x multiset"
  assumes "X' + g = X + g'" and "g' + m = g + x"
  shows "X' + m = X + x"
proof (rule multiset_eqI)
  fix a
  have "count (X' + g) a = count (X + g') a" and "count (g' + m) a = count (g + x) a"
    using assms by simp_all
  then show "count (X' + m) a = count (X + x) a" by simp
qed

definition set_near :: "nat \<Rightarrow> addr list \<Rightarrow> 'cb timer \<Rightarrow> 'cb timer" where
  "set_near k xs t = t\<lparr>nearFuture := (nearFuture t)(k := xs)\<rparr>"

definition set_far :: "nat \<Rightarrow> nat \<Rightarrow> addr list \<Rightarrow> 'cb timer \<Rightarrow> 'cb timer" where
  "set_far i k xs t = t\<lparr>farFuture := (farFuture t)(i := (farFuture t i)(k := xs))\<rparr>"

lemma wheel_set_near:
  "k < 256 \<Longrightarrow> wheel (set_near k xs t) + mset (nearFuture t k) = wheel t + mset xs"
  using sum_upd_mset [of k 256 "\<lambda>k. mset (nearFuture t k)" "mset xs"]
  by (simp add: wheel_def set_near_def fun_upd_def if_distrib [of mset] ac_simps)

lemma wheel_set_far:
  assumes "i < 4" and "k < 64"
  shows "wheel (set_far i k xs t) + mset (farFuture t i k) = wheel t + mset xs"
proof -
  define G where "G j = (\<Sum>k<64. mset (farFuture t j k))" for j
  define H where "H j = (\<Sum>k'<64. mset (farFuture (set_far i k xs t) j k'))" for j
  have "(\<Sum>j<4. H j) = (\<Sum>j<4. (G(i := H i)) j)"
    by (intro sum.cong refl) (simp add: H_def G_def set_far_def)
  then have "(\<Sum>j<4. H j) + G i = (\<Sum>j<4. G j) + H i"
    using sum_upd_mset [OF assms(1), of G "H i"] by simp
  moreover have "H i + mset (farFuture t i k) = G i + mset xs"
    using sum_upd_mset [OF assms(2), of "\<lambda>k. mset (farFuture t i k)" "mset xs"]
    by (simp add: H_def G_def set_far_def fun_upd_def if_distrib [of mset])
  ultimately have "(\<Sum>j<4. H j) + mset (farFuture t i k) = (\<Sum>j<4. G j) + mset xs"
    by (rule exchange)
  then show ?thesis by (simp add: wheel_def H_def G_def set_far_def ac_simps)
qed

lemma push_near_set: "push_near k a t = set_near k (a # nearFuture t k) t"
  by (simp add: push_near_def set_near_def)

lemma push_far_set: "push_far i k a t = set_far i k (a # farFuture t i k) t"
  by (simp add: push_far_def set_far_def)

lemma wheel_push_near: "k < 256 \<Longrightarrow> wheel (push_near k a t) = add_mset a (wheel t)"
  using wheel_set_near [of k "a # nearFuture t k" t] by (simp add: push_near_set)

lemma wheel_push_far:
  "i < 4 \<Longrightarrow> k < 64 \<Longrightarrow> wheel (push_far i k a t) = add_mset a (wheel t)"
  using wheel_set_far [of i k "a # farFuture t i k" t] by (simp add: push_far_set)

lemma in_wheel_near: "k < 256 \<Longrightarrow> a \<in> set (nearFuture t k) \<Longrightarrow> a \<in># wheel t"
  by (auto simp: wheel_def set_mset_sum)

lemma in_wheel_far: "i < 4 \<Longrightarrow> k < 64 \<Longrightarrow> a \<in> set (farFuture t i k) \<Longrightarrow> a \<in># wheel t"
  by (auto simp: wheel_def set_mset_sum)

lemma in_wheel_cases:
  assumes "a \<in># wheel t"
  obtains (near) k where "k < 256" "a \<in> set (nearFuture t k)"
  | (far) i k where "i < 4" "k < 64" "a \<in> set (farFuture t i k)"
  using assms by (auto simp: wheel_def set_mset_sum)

lemma wheel_heap [simp]: "wheel (t\<lparr>heap := h\<rparr>) = wheel t"
  and wheel_tick [simp]: "wheel (t\<lparr>t_tick := n\<rparr>) = wheel t"
  and wheel_dispatchList [simp]: "wheel (t\<lparr>dispatchList := xs\<rparr>) = wheel t"
  and wheel_scheduleList [simp]: "wheel (t\<lparr>scheduleList := m\<rparr>) = wheel t"
  and wheel_next_addr [simp]: "wheel (t\<lparr>next_addr := n'\<rparr>) = wheel t"
  and wheel_lastID [simp]: "wheel (t\<lparr>lastID := l\<rparr>) = wheel t"
  and wheel_modify [simp]: "wheel (modify a f t) = wheel t"
  by (simp_all add: wheel_def modify_def)

lemma push_frame [simp]:
  "t_tick (push_near k a t) = t_tick t" "heap (push_near k a t) = heap t"
  "next_addr (push_near k a t) = next_addr t" "dispatchList (push_near k a t) = dispatchList t"
  "scheduleList (push_near k a t) = scheduleList t" "lastID (push_near k a t) = lastID t"
  "t_tick (push_far i k a t) = t_tick t" "heap (push_far i k a t) = heap t"
  "next_addr (push_far i k a t) = next_addr t" "dispatchList (push_far i k a t) = dispatchList t"
  "scheduleList (push_far i k a t) = scheduleList t" "lastID (push_far i k a t) = lastID t"
  by (simp_all add: push_near_def push_far_def)

lemma modify_frame [simp]:
  "t_tick (modify a f t) = t_tick t" "next_addr (modify a f t) = next_addr t"
  "dispatchList (modify a f t) = dispatchList t" "scheduleList (modify a f t) = scheduleList t"
  "lastID (modify a f t) = lastID t" "heap (modify a f t) = (heap t)(a := f (heap t a))"
  "nearFuture (modify a f t) = nearFuture t" "farFuture (modify a f t) = farFuture t"
  by (simp_all add: modify_def)

section \<open>The invariant\<close>

text \<open>
  Every item lies in the slot of its due time, at most once; \<open>late\<close> says that the slot of
  the current tick has been dispatched, \<open>pend\<close> which far wheels still wait for their carry.
\<close>

definition harmless :: "'cb schedule \<Rightarrow> bool" where
  "harmless s \<longleftrightarrow> MIN_INTERVAL \<le> s_interval s \<or> s_remainTimes s = 0 \<or> s_remainTimes s = 1"

definition timer_inv :: "bool \<Rightarrow> (nat \<Rightarrow> bool) \<Rightarrow> nat \<Rightarrow> 'cb timer \<Rightarrow> bool" where
  "timer_inv late pend N t \<longleftrightarrow> t_tick t = word_of_nat N
     \<and> (\<forall>k<256. \<forall>a\<in>set (nearFuture t k). due N t a mod 256 = k \<and> due N t a < N + 256
          \<and> (late \<longrightarrow> N < due N t a))
     \<and> (\<forall>i<4. \<forall>k<64. \<forall>a\<in>set (farFuture t i k). placed (pend i) i N (due N t a) k)
     \<and> (\<forall>a. count (wheel t) a \<le> 1)
     \<and> (\<forall>a\<in>#wheel t. a < next_addr t \<and> harmless (heap t a))"

lemma timer_inv_tick: "timer_inv late pend N t \<Longrightarrow> t_tick t = word_of_nat N"
  by (simp add: timer_inv_def)

lemma timer_inv_near:
  "timer_inv late pend N t \<Longrightarrow> k < 256 \<Longrightarrow> a \<in> set (nearFuture t k)
     \<Longrightarrow> due N t a mod 256 = k \<and> due N t a < N + 256 \<and> (late \<longrightarrow> N < due N t a)"
  by (auto simp: timer_inv_def)

lemma timer_inv_far:
  "timer_inv late pend N t \<Longrightarrow> i < 4 \<Longrightarrow> k < 64 \<Longrightarrow> a \<in> set (farFuture t i k)
     \<Longrightarrow> placed (pend i) i N (due N t a) k"
  by (auto simp: timer_inv_def)

lemma timer_inv_wheel:
  "timer_inv late pend N t \<Longrightarrow> a \<in># wheel t \<Longrightarrow> a < next_addr t \<and> harmless (heap t a)"
  by (auto simp: timer_inv_def)

lemma timer_inv_once: "timer_inv late pend N t \<Longrightarrow> count (wheel t) a \<le> 1"
  by (simp add: timer_inv_def)

lemma timer_new_inv: "timer_inv False pend 0 timer_new"
  by (simp add: timer_inv_def timer_new_def wheel_def)

lemma timer_invI:
  assumes "t_tick t = word_of_nat N"
    and "\<And>k a. k < 256 \<Longrightarrow> a \<in> set (nearFuture t k)
      \<Longrightarrow> due N t a mod 256 = k \<and> due N t a < N + 256 \<and> (late \<longrightarrow> N < due N t a)"
    and "\<And>i k a. i < 4 \<Longrightarrow> k < 64 \<Longrightarrow> a \<in> set (farFuture t i k) \<Longrightarrow> placed (pend i) i N (due N t a) k"
    and "\<And>a. count (wheel t) a \<le> 1"
    and "\<And>a. a \<in># wheel t \<Longrightarrow> a < next_addr t \<and> harmless (heap t a)"
  shows "timer_inv late pend N t"
  using assms by (simp add: timer_inv_def)

text \<open>Only the wheels and the schedules in them matter.\<close>

lemma due_cong:
  "s_index (heap t' a) = s_index (heap t a) \<Longrightarrow> t_tick t' = t_tick t \<Longrightarrow> due N t' a = due N t a"
  by (simp add: due_def)

lemma timer_inv_cong:
  assumes "timer_inv late pend N t" and "t_tick t' = t_tick t" and "nearFuture t' = nearFuture t"
    and "farFuture t' = farFuture t" and "next_addr t \<le> next_addr t'"
    and "\<And>a. a \<in># wheel t \<Longrightarrow> s_index (heap t' a) = s_index (heap t a) \<and> harmless (heap t' a)"
  shows "timer_inv late pend N t'"
proof -
  have w: "wheel t' = wheel t" using assms(3,4) by (simp add: wheel_def)
  have d: "due N t' a = due N t a" if "a \<in># wheel t" for a
    using assms(2,6) that by (intro due_cong) simp_all
  show ?thesis
  proof (rule timer_invI)
    show "t_tick t' = word_of_nat N" using assms(1,2) by (simp add: timer_inv_tick)
  next
    fix k a assume "k < 256" and "a \<in> set (nearFuture t' k)"
    then show "due N t' a mod 256 = k \<and> due N t' a < N + 256 \<and> (late \<longrightarrow> N < due N t' a)"
      using timer_inv_near [OF assms(1)] d [OF in_wheel_near] assms(3) by simp
  next
    fix i k a assume "i < 4" "k < 64" and "a \<in> set (farFuture t' i k)"
    then show "placed (pend i) i N (due N t' a) k"
      using timer_inv_far [OF assms(1)] d [OF in_wheel_far] assms(4) by simp
  next
    fix a show "count (wheel t') a \<le> 1" using timer_inv_once [OF assms(1)] w by simp
  next
    fix a assume "a \<in># wheel t'"
    then show "a < next_addr t' \<and> harmless (heap t' a)"
      using timer_inv_wheel [OF assms(1)] assms(5,6) w by fastforce
  qed
qed

lemma timer_inv_modify:
  assumes "timer_inv late pend N t" and "a \<notin># wheel t"
  shows "timer_inv late pend N (modify a f t)"
  using assms timer_inv_wheel [OF assms(1)]
  by (intro timer_inv_cong [OF assms(1)]) (auto simp: modify_def)

lemma timer_inv_pend:
  assumes "timer_inv late pend N t" and "\<And>i. i < 4 \<Longrightarrow> pend i \<noteq> pend' i \<Longrightarrow> \<not> span i dvd N"
  shows "timer_inv late pend' N t"
proof (rule timer_invI)
  show "placed (pend' i) i N (due N t a) k"
    if "i < 4" and "k < 64" and "a \<in> set (farFuture t i k)" for i k a
    using timer_inv_far [OF assms(1) that] assms(2) [OF that(1)]
    by (cases "pend i = pend' i") (simp_all add: placed_def)
qed (fact timer_inv_tick [OF assms(1)] timer_inv_near [OF assms(1)] timer_inv_once [OF assms(1)]
  timer_inv_wheel [OF assms(1)])+

lemma timer_inv_late: "timer_inv True pend N t \<Longrightarrow> timer_inv False pend N t"
  by (simp add: timer_inv_def)

subsection \<open>Putting an item in\<close>

lemma due_push_near [simp]: "due N (push_near k b t) a = due N t a"
  and due_push_far [simp]: "due N (push_far i k b t) a = due N t a"
  by (simp_all add: due_def push_near_def push_far_def)

lemma timer_inv_push_near:
  assumes "timer_inv late pend N t" and "a \<notin># wheel t" and "due N t a < N + 256"
    and "late \<longrightarrow> N < due N t a" and "a < next_addr t" and "harmless (heap t a)"
  shows "timer_inv late pend N (push_near (due N t a mod 256) a t)"
proof (rule timer_invI)
  let ?t = "push_near (due N t a mod 256) a t"
  have w: "wheel ?t = add_mset a (wheel t)" by (simp add: wheel_push_near)
  show "t_tick ?t = word_of_nat N" using assms(1) by (simp add: timer_inv_tick)
  show "due N ?t b mod 256 = k \<and> due N ?t b < N + 256 \<and> (late \<longrightarrow> N < due N ?t b)"
    if "k < 256" and "b \<in> set (nearFuture ?t k)" for k b
  proof (cases "b \<in> set (nearFuture t k)")
    case True
    with timer_inv_near [OF assms(1) that(1)] show ?thesis by simp
  next
    case False
    with that(2) have "b = a" and "k = due N t a mod 256"
      by (auto simp: push_near_def split: if_splits)
    with assms(3,4) show ?thesis by simp
  qed
  show "placed (pend i) i N (due N ?t b) k"
    if "i < 4" and "k < 64" and "b \<in> set (farFuture ?t i k)" for i k b
    using timer_inv_far [OF assms(1) that(1,2)] that(3) by (simp add: push_near_def due_def)
  show "count (wheel ?t) b \<le> 1" for b
    using timer_inv_once [OF assms(1), of b] assms(2) by (auto simp: w not_in_iff)
  show "b < next_addr ?t \<and> harmless (heap ?t b)" if "b \<in># wheel ?t" for b
    using that timer_inv_wheel [OF assms(1), of b] assms(5,6) by (auto simp: w)
qed

lemma timer_inv_push_far:
  assumes "timer_inv late pend N t" and "a \<notin># wheel t" and "i < 4"
    and "placed (pend i) i N (due N t a) k" and "a < next_addr t" and "harmless (heap t a)"
  shows "timer_inv late pend N (push_far i k a t)"
proof -
  let ?t = "push_far i k a t"
  have "k < 64" using assms(4) by (simp add: placed_def)
  with assms(3) have w: "wheel ?t = add_mset a (wheel t)" by (simp add: wheel_push_far)
  show ?thesis
  proof (rule timer_invI)
    show "t_tick ?t = word_of_nat N"
      using timer_inv_tick [OF assms(1)] by (simp add: push_far_def)
    show "due N ?t b mod 256 = m \<and> due N ?t b < N + 256 \<and> (late \<longrightarrow> N < due N ?t b)"
      if "m < 256" and "b \<in> set (nearFuture ?t m)" for m b
      using timer_inv_near [OF assms(1) that(1)] that(2) by (simp add: push_far_def due_def)
    show "placed (pend j) j N (due N ?t b) m"
      if "j < 4" and "m < 64" and "b \<in> set (farFuture ?t j m)" for j m b
    proof (cases "b \<in> set (farFuture t j m)")
      case True
      with timer_inv_far [OF assms(1) that(1,2)] show ?thesis by simp
    next
      case False
      with that(3) have "b = a" "j = i" "m = k"
        by (auto simp: push_far_def split: if_splits)
      with assms(4) show ?thesis by simp
    qed
    show "count (wheel ?t) b \<le> 1" for b
      using timer_inv_once [OF assms(1), of b] assms(2) by (auto simp: w not_in_iff)
    show "b < next_addr ?t \<and> harmless (heap ?t b)" if "b \<in># wheel ?t" for b
      using that timer_inv_wheel [OF assms(1), of b] assms(5,6) by (auto simp: w)
  qed
qed

subsection \<open>\<^verbatim>\<open>insert\<close>\<close>

lemma insert_far_frame [simp]:
  "t_tick (insert_far is iv ix a t) = t_tick t" "heap (insert_far is iv ix a t) = heap t"
  "next_addr (insert_far is iv ix a t) = next_addr t"
  "dispatchList (insert_far is iv ix a t) = dispatchList t"
  "scheduleList (insert_far is iv ix a t) = scheduleList t"
  "lastID (insert_far is iv ix a t) = lastID t"
  by (induction "is" iv ix a t rule: insert_far.induct) simp_all

lemma timer_insert_frame [simp]:
  "t_tick (timer_insert a t) = t_tick t" "next_addr (timer_insert a t) = next_addr t"
  "dispatchList (timer_insert a t) = dispatchList t"
  "scheduleList (timer_insert a t) = scheduleList t"
  "lastID (timer_insert a t) = lastID t"
  by (simp_all add: timer_insert_def Let_def)

lemma timer_insert_heap:
  "heap (timer_insert a t) = (heap t)(a := (heap t a)
     \<lparr>s_index := word_of_int (uint (t_tick t) + ticks_of (s_interval (heap t a)))\<rparr>)"
  by (simp add: timer_insert_def Let_def)

text \<open>An interval in ticks, for intervals that are not negative.\<close>

definition period :: "'cb schedule \<Rightarrow> nat" where
  "period s = nat (s_interval s) div 10"

lemma ticks_of_period: "0 \<le> s_interval s \<Longrightarrow> ticks_of (s_interval s) = int (period s)"
  by (simp add: ticks_of_def MIN_INTERVAL_def period_def zdiv_int)

lemma period_pos: "MIN_INTERVAL \<le> s_interval s \<Longrightarrow> 0 < period s"
  by (simp add: MIN_INTERVAL_def period_def div_greater_zero_iff le_nat_iff)

lemma insert_far_wheels:
  "insert_far far_wheels (int m) ix a t =
     (if m < 64 then push_far 0 (unat (ix AND FAR_MASK)) a t
      else if m < 64 * 64 then push_far 1 (unat (drop_bit 6 ix AND FAR_MASK)) a t
      else if m < 64 * 64 * 64 then push_far 2 (unat (drop_bit 12 ix AND FAR_MASK)) a t
      else if m < 64 * 64 * 64 * 64 then push_far 3 (unat (drop_bit 18 ix AND FAR_MASK)) a t
      else t)"
proof -
  have 1: "drop_bit k (int m) < 64 \<longleftrightarrow> m < 64 * 2 ^ k" for k
  proof -
    have "drop_bit k (int m) = int (m div 2 ^ k)"
      unfolding drop_bit_eq_div zdiv_int by simp
    then show ?thesis by (simp add: div_less_iff_less_mult del: of_nat_div)
  qed
  have 0: "int m < 64 \<longleftrightarrow> m < 64" by simp
  show ?thesis
    unfolding far_wheels_def insert_far.simps drop_bit_drop_bit FAR_FUTURE_def 1 0
    by simp
qed

lemma timer_insert_eq:
  assumes "t_tick t = word_of_nat N" and "0 \<le> s_interval (heap t a)"
    and "n = period (heap t a)" and "D = N + n"
  shows "timer_insert a t =
    (let t1 = modify a (\<lambda>s. s\<lparr>s_index := word_of_nat D\<rparr>) t in
     if n < 256 then push_near (D mod 256) a t1
     else if n < span 1 then push_far 0 (D div span 0 mod 64) a t1
     else if n < span 2 then push_far 1 (D div span 1 mod 64) a t1
     else if n < span 3 then push_far 2 (D div span 2 mod 64) a t1
     else if n < 2 ^ 32 then push_far 3 (D div span 3 mod 64) a t1
     else t1)"
proof -
  have ix: "(word_of_int (uint (t_tick t) + int n) :: u32) = word_of_nat D"
    by (simp add: assms(1,4))
  let ?w = "word_of_nat D :: u32"
  have slots: "unat (drop_bit 8 ?w AND FAR_MASK) = D div span 0 mod 64"
    "unat (drop_bit 6 (drop_bit 8 ?w) AND FAR_MASK) = D div span 1 mod 64"
    "unat (drop_bit 12 (drop_bit 8 ?w) AND FAR_MASK) = D div span 2 mod 64"
    "unat (drop_bit 18 (drop_bit 8 ?w) AND FAR_MASK) = D div span 3 mod 64"
    using far_slot [of 0 D] far_slot [of 1 D] far_slot [of 2 D] far_slot [of 3 D]
    by (simp_all only: drop_bit_drop_bit) simp_all
  have ranges: "n div 256 < 64 \<longleftrightarrow> n < span 1" "n div 256 < 64 * 64 \<longleftrightarrow> n < span 2"
    "n div 256 < 64 * 64 * 64 \<longleftrightarrow> n < span 3" "n div 256 < 64 * 64 * 64 * 64 \<longleftrightarrow> n < 2 ^ 32"
    by (simp_all add: span_def div_less_iff_less_mult)
  note eq = timer_insert_def [of a t] ticks_of_period [OF assms(2)] assms(3) [symmetric] ix Let_def
  show ?thesis
  proof (cases "n < 256")
    case True
    then show ?thesis unfolding eq by (simp add: near_slot NEAR_FUTURE_def)
  next
    case False
    have db: "drop_bit 8 (int n) = int (n div 256)"
      unfolding drop_bit_eq_div zdiv_int by simp
    have "timer_insert a t = insert_far far_wheels (int (n div 256))
        (drop_bit 8 (word_of_nat D)) a (modify a (\<lambda>s. s\<lparr>s_index := word_of_nat D\<rparr>) t)"
      using False unfolding eq db by (simp add: NEAR_FUTURE_def)
    also have "\<dots> = (let t1 = modify a (\<lambda>s. s\<lparr>s_index := word_of_nat D\<rparr>) t in
      if n < span 1 then push_far 0 (D div span 0 mod 64) a t1
      else if n < span 2 then push_far 1 (D div span 1 mod 64) a t1
      else if n < span 3 then push_far 2 (D div span 2 mod 64) a t1
      else if n < 2 ^ 32 then push_far 3 (D div span 3 mod 64) a t1
      else t1)"
      by (simp only: insert_far_wheels Let_def slots ranges)
    finally show ?thesis using False by simp
  qed
qed

text \<open>
  The core of the timer: an item put in with a period of n ticks lands in the slot of its due
  time N + n, as long as n fits 32 bits; a longer one lands nowhere.
\<close>

lemma timer_insert_ok:
  assumes inv: "timer_inv late pend N t" and "a \<notin># wheel t" and "a < next_addr t"
    and "harmless (heap t a)" and "0 \<le> s_interval (heap t a)"
    and "late \<longrightarrow> MIN_INTERVAL \<le> s_interval (heap t a)"
  defines "n \<equiv> period (heap t a)"
  shows "timer_inv late pend N (timer_insert a t)"
    and "n < 2 ^ 32 \<Longrightarrow> wheel (timer_insert a t) = add_mset a (wheel t)"
    and "n < 2 ^ 32 \<Longrightarrow> due N (timer_insert a t) a = N + n"
    and "\<not> n < 2 ^ 32 \<Longrightarrow> wheel (timer_insert a t) = wheel t"
proof -
  have tick: "t_tick t = word_of_nat N" using inv by (rule timer_inv_tick)
  define t1 where "t1 = modify a (\<lambda>s. s\<lparr>s_index := word_of_nat (N + n)\<rparr>) t"
  have i1: "timer_inv late pend N t1" unfolding t1_def using inv assms(2) by (rule timer_inv_modify)
  have w1: "wheel t1 = wheel t" by (simp add: t1_def)
  have a1: "a \<notin># wheel t1" "a < next_addr t1" "harmless (heap t1 a)"
    using assms(2-4) by (simp_all add: t1_def harmless_def)
  have d1: "due N t1 a = N + n" if "n < 2 ^ 32"
  proof -
    have "(word_of_nat (N + n) - word_of_nat N :: u32) = word_of_nat n" by simp
    moreover have "unat (word_of_nat n :: u32) = n" using that by (simp add: unat_of_nat)
    ultimately show ?thesis by (simp add: due_def t1_def tick)
  qed
  have late: "late \<longrightarrow> 0 < n" using assms(6) period_pos by (auto simp: n_def)
  note eq = timer_insert_eq [OF tick assms(5) n_def [THEN meta_eq_to_obj_eq] refl,
      folded t1_def, unfolded Let_def, folded t1_def]
  have far: "timer_inv late pend N (push_far i ((N + n) div span i mod 64) a t1)
      \<and> wheel (push_far i ((N + n) div span i mod 64) a t1) = add_mset a (wheel t)
      \<and> due N (push_far i ((N + n) div span i mod 64) a t1) a = N + n"
    if "i < 4" and "span i \<le> n" and "n < span (Suc i)" and "n < 2 ^ 32" for i
    using timer_inv_push_far [OF i1 a1(1) that(1) _ a1(2,3)] placed_new [OF that(2,3)]
      d1 [OF that(4)] that(1) by (simp add: wheel_push_far w1)
  have near: "timer_inv late pend N (push_near ((N + n) mod 256) a t1)
      \<and> wheel (push_near ((N + n) mod 256) a t1) = add_mset a (wheel t)
      \<and> due N (push_near ((N + n) mod 256) a t1) a = N + n"
    if "n < 256"
    using timer_inv_push_near [OF i1 a1(1) _ _ a1(2,3)] d1 that late by (simp add: wheel_push_near w1)
  have sp: "span 0 = 256" "span 1 = 16384" "span 2 = 1048576" "span 3 = 67108864"
    "span (Suc (Suc 0)) = 1048576" "span 4 = 2 ^ 32" "span (Suc 0) = 16384" "span (Suc 1) = 1048576" "span (Suc 2) = 67108864"
    "span (Suc 3) = 2 ^ 32"
    by (simp_all add: span_def)
  have all: "timer_inv late pend N (timer_insert a t)
    \<and> (if n < 2 ^ 32 then wheel (timer_insert a t) = add_mset a (wheel t)
         \<and> due N (timer_insert a t) a = N + n
       else wheel (timer_insert a t) = wheel t)"
  proof -
    consider "n < 256" | "256 \<le> n" "n < span 1" | "span 1 \<le> n" "n < span 2"
      | "span 2 \<le> n" "n < span 3" | "span 3 \<le> n" "n < 2 ^ 32" | "2 ^ 32 \<le> n"
      by linarith
    then show ?thesis
    proof cases
      case 1
      with near eq show ?thesis by simp
    next
      case 2
      with far [of 0] eq show ?thesis by (simp add: sp)
    next
      case 3
      with far [of 1] eq show ?thesis by (simp add: sp)
    next
      case 4
      with far [of 2] eq show ?thesis by (simp add: sp)
    next
      case 5
      with far [of 3] eq show ?thesis by (simp add: sp)
    next
      case 6
      with eq i1 w1 show ?thesis by (simp add: sp)
    qed
  qed
  from all show "timer_inv late pend N (timer_insert a t)" by simp
  from all show "n < 2 ^ 32 \<Longrightarrow> wheel (timer_insert a t) = add_mset a (wheel t)" by simp
  from all show "n < 2 ^ 32 \<Longrightarrow> due N (timer_insert a t) a = N + n" by simp
  from all show "\<not> n < 2 ^ 32 \<Longrightarrow> wheel (timer_insert a t) = wheel t" by simp
qed

lemma timer_insert_other:
  "b \<noteq> a \<Longrightarrow> heap (timer_insert a t) b = heap t b"
  "b \<noteq> a \<Longrightarrow> due N (timer_insert a t) b = due N t b"
  by (simp_all add: timer_insert_heap due_def)

lemma timer_insert_self:
  "s_remainTimes (heap (timer_insert a t) a) = s_remainTimes (heap t a)"
  "s_interval (heap (timer_insert a t) a) = s_interval (heap t a)"
  "s_callback (heap (timer_insert a t) a) = s_callback (heap t a)"
  "s_id (heap (timer_insert a t) a) = s_id (heap t a)"
  by (simp_all add: timer_insert_heap)

subsection \<open>\<^verbatim>\<open>dispatch\<close>\<close>

text \<open>
  Re-arming never pushes into the slot that is being dispatched, so clearing the slot at the
  end of the loop is the same as clearing it first.
\<close>

lemma timer_insert_set_near:
  assumes "t_tick t = word_of_nat N" and "MIN_INTERVAL \<le> s_interval (heap t a)"
  shows "timer_insert a (set_near (N mod 256) xs t) = set_near (N mod 256) xs (timer_insert a t)"
proof -
  let ?n = "period (heap t a)"
  have pos: "0 < ?n" using assms(2) by (rule period_pos)
  have iv: "0 \<le> s_interval (heap t a)" using assms(2) by (simp add: MIN_INTERVAL_def)
  have ne: "(N + ?n) mod 256 \<noteq> N mod 256" if "?n < 256"
    using pos that mod_eq_dvd_iff_nat [of N "N + ?n" 256] by (auto dest: dvd_imp_le)
  have tk: "t_tick (set_near (N mod 256) xs t) = word_of_nat N"
    and iv': "0 \<le> s_interval (heap (set_near (N mod 256) xs t) a)"
    and n: "?n = period (heap (set_near (N mod 256) xs t) a)"
    using assms(1) iv by (simp_all add: set_near_def)
  show ?thesis
    unfolding timer_insert_eq [OF assms(1) iv refl refl] timer_insert_eq [OF tk iv' n refl] Let_def
    using ne by (auto simp: push_near_def push_far_def set_near_def modify_def fun_upd_twist)
qed

lemma dispatch_item_harmless:
  "harmless (heap t a) \<Longrightarrow> harmless (heap (dispatch_item b t) a)"
  by (auto simp: dispatch_item_def Let_def harmless_def timer_insert_heap)

lemma dispatch_item_frame [simp]:
  "t_tick (dispatch_item a t) = t_tick t" "next_addr (dispatch_item a t) = next_addr t"
  "lastID (dispatch_item a t) = lastID t"
  by (simp_all add: dispatch_item_def Let_def)

lemma dispatch_item_set_near:
  assumes "t_tick t = word_of_nat N" and "harmless (heap t a)"
  shows "dispatch_item a (set_near (N mod 256) xs t) = set_near (N mod 256) xs (dispatch_item a t)"
proof -
  let ?k = "N mod 256" and ?r = "s_remainTimes (heap t a)"
  let ?dec = "modify a (\<lambda>s. s\<lparr>s_remainTimes := s_remainTimes s - 1\<rparr>)"
  let ?app = "\<lambda>t. t\<lparr>dispatchList := a # dispatchList t\<rparr>"
  have c1: "?app (set_near ?k xs t) = set_near ?k xs (?app t)"
    and c2: "?dec (set_near ?k xs (?app t)) = set_near ?k xs (?dec (?app t))"
    and h: "heap (set_near ?k xs u) = heap u" for u
    by (simp_all add: set_near_def modify_def)
  consider "?r = 0" | "?r = 1" | "MIN_INTERVAL \<le> s_interval (heap t a)" "?r \<noteq> 0"
    using assms(2) by (auto simp: harmless_def)
  then show ?thesis
  proof cases
    case 1
    then show ?thesis by (simp add: dispatch_item_def h)
  next
    case 2
    then show ?thesis unfolding dispatch_item_def h Let_def c1 c2
      by (simp add: set_near_def)
  next
    case 3
    have i1: "timer_insert a (set_near ?k xs (?app t)) = set_near ?k xs (timer_insert a (?app t))"
      using assms(1) 3 by (intro timer_insert_set_near) simp_all
    have i2: "timer_insert a (set_near ?k xs (?dec (?app t))) = set_near ?k xs (timer_insert a (?dec (?app t)))"
      using assms(1) 3 by (intro timer_insert_set_near) simp_all
    show ?thesis unfolding dispatch_item_def h Let_def c1 c2 i1 i2
      by (simp add: set_near_def)
  qed
qed

lemma fold_dispatch_set_near:
  "t_tick t = word_of_nat N \<Longrightarrow> \<forall>a\<in>set xs. harmless (heap t a)
     \<Longrightarrow> fold dispatch_item xs (set_near (N mod 256) ys t)
       = set_near (N mod 256) ys (fold dispatch_item xs t)"
  by (induction xs arbitrary: t) (simp_all add: dispatch_item_set_near dispatch_item_harmless)

lemma dispatch_clear_first:
  assumes "timer_inv late pend N t"
  shows "dispatch t = fold dispatch_item (nearFuture t (N mod 256)) (set_near (N mod 256) [] t)"
proof -
  have tick: "t_tick t = word_of_nat N" using assms by (rule timer_inv_tick)
  have "\<forall>a\<in>set (nearFuture t (N mod 256)). harmless (heap t a)"
    using timer_inv_wheel [OF assms] in_wheel_near [of "N mod 256" _ t] by (meson mod_less_divisor zero_less_numeral)
  from fold_dispatch_set_near [OF tick this, of "[]"] show ?thesis
    by (simp add: dispatch_def Let_def near_slot tick) (simp add: set_near_def)
qed

text \<open>What happens to one item: whether it is put in again, and its count afterwards.\<close>

definition rearms :: "'cb schedule \<Rightarrow> bool" where
  "rearms s \<longleftrightarrow> (s_remainTimes s = -1 \<or> 1 < s_remainTimes s) \<and> period s < 2 ^ 32"

definition count_after :: "int \<Rightarrow> int" where
  "count_after r = (if r = 0 \<or> r = -1 then r else r - 1)"

lemma dispatch_item_ok:
  assumes inv: "timer_inv True pend N t" and out: "a \<notin># wheel t" and addr: "a < next_addr t"
    and harm: "harmless (heap t a)"
  shows "timer_inv True pend N (dispatch_item a t)"
    and "wheel (dispatch_item a t) = (if rearms (heap t a) then add_mset a (wheel t) else wheel t)"
    and "rearms (heap t a) \<Longrightarrow> due N (dispatch_item a t) a = N + period (heap t a)"
proof -
  let ?s = "heap t a" and ?r = "s_remainTimes (heap t a)"
  let ?app = "t\<lparr>dispatchList := a # dispatchList t\<rparr>"
  let ?dec = "modify a (\<lambda>s. s\<lparr>s_remainTimes := s_remainTimes s - 1\<rparr>) ?app"
  have i1: "timer_inv True pend N ?app"
    using timer_inv_wheel [OF inv] by (intro timer_inv_cong [OF inv]) simp_all
  have i2: "timer_inv True pend N ?dec" using i1 out by (intro timer_inv_modify) simp_all
  have nn: "0 \<le> s_interval (heap u a)" if "MIN_INTERVAL \<le> s_interval (heap u a)"
    for u :: "'a timer"
    using that by (simp add: MIN_INTERVAL_def)
  consider (dead) "?r = 0" | (forever) "?r = -1" | (again) "1 < ?r"
    | (last) "?r \<noteq> 0" "?r \<noteq> -1" "?r \<le> 1" by linarith
  then have "timer_inv True pend N (dispatch_item a t)
    \<and> wheel (dispatch_item a t) = (if rearms ?s then add_mset a (wheel t) else wheel t)
    \<and> (rearms ?s \<longrightarrow> due N (dispatch_item a t) a = N + period ?s)"
  proof cases
    case dead
    with inv show ?thesis by (simp add: dispatch_item_def rearms_def)
  next
    case forever
    with harm have m: "MIN_INTERVAL \<le> s_interval (heap ?app a)" by (simp add: harmless_def)
    have o: "a \<notin># wheel ?app" "a < next_addr ?app" "harmless (heap ?app a)"
      using out addr harm by simp_all
    note ok = timer_insert_ok [OF i1 o nn [of ?app, OF m] impI [OF m]]
    have "dispatch_item a t = timer_insert a ?app"
      using forever by (simp add: dispatch_item_def)
    with ok forever show ?thesis by (simp add: rearms_def)
  next
    case again
    with harm have m: "MIN_INTERVAL \<le> s_interval (heap ?dec a)" by (simp add: harmless_def)
    have o: "a \<notin># wheel ?dec" "a < next_addr ?dec" "harmless (heap ?dec a)"
      using out addr m by (simp_all add: harmless_def)
    note ok = timer_insert_ok [OF i2 o nn [of ?dec, OF m] impI [OF m]]
    have "dispatch_item a t = timer_insert a ?dec"
      using again by (simp add: dispatch_item_def)
    moreover have "period (heap ?dec a) = period ?s" by (simp add: period_def)
    ultimately show ?thesis using ok again by (simp add: rearms_def)
  next
    case last
    have "timer_inv True pend N (?dec\<lparr>scheduleList := m\<rparr>)" for m
      using timer_inv_wheel [OF i2] by (intro timer_inv_cong [OF i2]) simp_all
    with last show ?thesis by (simp add: dispatch_item_def rearms_def Let_def)
  qed
  then show "timer_inv True pend N (dispatch_item a t)"
    and "wheel (dispatch_item a t) = (if rearms ?s then add_mset a (wheel t) else wheel t)"
    and "rearms ?s \<Longrightarrow> due N (dispatch_item a t) a = N + period ?s" by simp_all
qed

lemma dispatch_item_heap:
  "b \<noteq> a \<Longrightarrow> heap (dispatch_item a t) b = heap t b"
  "s_remainTimes (heap (dispatch_item a t) a) = count_after (s_remainTimes (heap t a))"
  "s_interval (heap (dispatch_item a t) a) = s_interval (heap t a)"
  "s_callback (heap (dispatch_item a t) a) = s_callback (heap t a)"
  by (auto simp: dispatch_item_def Let_def timer_insert_heap count_after_def)

lemma dispatch_item_list:
  "dispatchList (dispatch_item a t) =
     (if s_remainTimes (heap t a) \<noteq> 0 then a # dispatchList t else dispatchList t)"
  by (simp add: dispatch_item_def Let_def)

lemma fold_dispatch_frame:
  "t_tick (fold dispatch_item xs t) = t_tick t"
  "next_addr (fold dispatch_item xs t) = next_addr t"
  "b \<notin> set xs \<Longrightarrow> heap (fold dispatch_item xs t) b = heap t b"
  by (induction xs arbitrary: t) (simp_all add: dispatch_item_heap)

lemma fold_dispatch_list:
  "distinct xs \<Longrightarrow> dispatchList (fold dispatch_item xs t)
     = rev (filter (\<lambda>a. s_remainTimes (heap t a) \<noteq> 0) xs) @ dispatchList t"
proof (induction xs arbitrary: t)
  case Nil
  then show ?case by simp
next
  case (Cons x xs)
  have "filter (\<lambda>a. s_remainTimes (heap (dispatch_item x t) a) \<noteq> 0) xs
      = filter (\<lambda>a. s_remainTimes (heap t a) \<noteq> 0) xs"
    using Cons.prems by (intro filter_cong refl) (metis dispatch_item_heap(1) distinct.simps(2))
  with Cons show ?case by (simp add: dispatch_item_list)
qed

lemma fold_dispatch_ok:
  assumes "timer_inv True pend N t" and "distinct xs"
    and "\<forall>a\<in>set xs. a \<notin># wheel t \<and> a < next_addr t \<and> harmless (heap t a)"
  shows "timer_inv True pend N (fold dispatch_item xs t)
    \<and> (\<forall>b. b \<in># wheel (fold dispatch_item xs t)
        \<longleftrightarrow> b \<in># wheel t \<or> (b \<in> set xs \<and> rearms (heap t b)))
    \<and> (\<forall>b\<in>set xs. (rearms (heap t b) \<longrightarrow> due N (fold dispatch_item xs t) b = N + period (heap t b))
        \<and> s_remainTimes (heap (fold dispatch_item xs t) b) = count_after (s_remainTimes (heap t b))
        \<and> s_interval (heap (fold dispatch_item xs t) b) = s_interval (heap t b)
        \<and> s_callback (heap (fold dispatch_item xs t) b) = s_callback (heap t b))"
  using assms
proof (induction xs arbitrary: t)
  case Nil
  then show ?case by simp
next
  case (Cons x xs)
  let ?t = "dispatch_item x t"
  have x: "x \<notin># wheel t" "x < next_addr t" "harmless (heap t x)" "x \<notin> set xs"
    using Cons.prems by simp_all
  note one = dispatch_item_ok [OF Cons.prems(1) x(1-3)]
  have same: "heap ?t b = heap t b" if "b \<in> set xs" for b
    using that x(4) by (auto intro: dispatch_item_heap(1))
  have pre: "\<forall>a\<in>set xs. a \<notin># wheel ?t \<and> a < next_addr ?t \<and> harmless (heap ?t a)"
    using Cons.prems(3) x(4) same by (auto simp: one(2))
  note IH = Cons.IH [OF one(1) _ pre]
  have hx: "heap (fold dispatch_item xs ?t) x = heap ?t x"
    using x(4) by (rule fold_dispatch_frame(3))
  then have dx: "due N (fold dispatch_item xs ?t) x = due N ?t x"
    by (simp add: due_def fold_dispatch_frame)
  show ?case
    using IH Cons.prems(2) one x(4) same hx dx dispatch_item_heap(2-4) [of x t]
    by auto
qed

text \<open>The slot of the current tick holds exactly the items due now.\<close>

lemma due_now:
  assumes "timer_inv late (\<lambda>i. False) N t"
  shows "a \<in> set (nearFuture t (N mod 256)) \<longleftrightarrow> a \<in># wheel t \<and> due N t a = N"
proof
  let ?k = "N mod 256"
  have k: "?k < 256" by simp
  {
    assume a: "a \<in> set (nearFuture t ?k)"
    have "due N t a mod 256 = N mod 256" and lt: "due N t a < N + 256"
      using timer_inv_near [OF assms k a] by simp_all
    then have "256 dvd due N t a - N"
      using due_ge [of N t a] by (simp add: mod_eq_dvd_iff_nat)
    with lt have "due N t a - N = 0" by (auto dest: dvd_imp_le)
    with due_ge [of N t a] in_wheel_near [OF k a] show "a \<in># wheel t \<and> due N t a = N" by simp
  next
    assume a: "a \<in># wheel t \<and> due N t a = N"
    then have "a \<in># wheel t" ..
    then show "a \<in> set (nearFuture t ?k)"
    proof (cases rule: in_wheel_cases)
      case (near k')
      with timer_inv_near [OF assms near] a show ?thesis by simp
    next
      case (far i k')
      with timer_inv_far [OF assms far] a show ?thesis by (simp add: placed_def)
    qed
  }
qed

lemma set_near_frame [simp]:
  "t_tick (set_near k xs t) = t_tick t" "heap (set_near k xs t) = heap t"
  "next_addr (set_near k xs t) = next_addr t" "dispatchList (set_near k xs t) = dispatchList t"
  "scheduleList (set_near k xs t) = scheduleList t" "lastID (set_near k xs t) = lastID t"
  "farFuture (set_near k xs t) = farFuture t" "due N (set_near k xs t) a = due N t a"
  by (simp_all add: set_near_def due_def)

lemma clear_now_inv:
  assumes "timer_inv False (\<lambda>i. False) N t"
  defines "c \<equiv> set_near (N mod 256) [] t"
  shows "timer_inv True (\<lambda>i. False) N c"
    and "wheel c + mset (nearFuture t (N mod 256)) = wheel t"
proof -
  show w: "wheel c + mset (nearFuture t (N mod 256)) = wheel t"
    using wheel_set_near [of "N mod 256" "[]" t] by (simp add: c_def)
  then have sub: "wheel c \<subseteq># wheel t" by (metis mset_subset_eq_add_left)
  show "timer_inv True (\<lambda>i. False) N c"
  proof (rule timer_invI)
    show "t_tick c = word_of_nat N" using timer_inv_tick [OF assms(1)] by (simp add: c_def)
    show "due N c a mod 256 = k \<and> due N c a < N + 256 \<and> (True \<longrightarrow> N < due N c a)"
      if "k < 256" and "a \<in> set (nearFuture c k)" for k a
    proof -
      have k: "k \<noteq> N mod 256" and a: "a \<in> set (nearFuture t k)"
        using that(2) by (auto simp: c_def set_near_def split: if_splits)
      from timer_inv_near [OF assms(1) that(1) a] k due_ge [of N t a] show ?thesis
        by (auto simp: c_def le_less)
    qed
    show "placed False i N (due N c a) k"
      if "i < 4" and "k < 64" and "a \<in> set (farFuture c i k)" for i k a
      using timer_inv_far [OF assms(1) that(1,2)] that(3) by (simp add: c_def)
    show "count (wheel c) a \<le> 1" for a
      using timer_inv_once [OF assms(1), of a] mset_subset_eq_count [OF sub, of a] by linarith
    show "a < next_addr c \<and> harmless (heap c a)" if "a \<in># wheel c" for a
      using timer_inv_wheel [OF assms(1) mset_subset_eqD [OF sub that]] by (simp add: c_def)
  qed
qed

text \<open>
  One dispatch: exactly the items due now are taken; those with turns left are due again one
  period later, and every other item keeps its due time.
\<close>

lemma dispatch_ok:
  assumes inv: "timer_inv False (\<lambda>i. False) N t"
  shows "timer_inv True (\<lambda>i. False) N (dispatch t)"
    and "b \<in># wheel (dispatch t) \<longleftrightarrow>
      b \<in># wheel t \<and> (due N t b \<noteq> N \<or> rearms (heap t b))"
    and "b \<in># wheel t \<Longrightarrow> due N t b = N \<Longrightarrow> rearms (heap t b)
      \<Longrightarrow> due N (dispatch t) b = N + period (heap t b)"
    and "b \<in># wheel t \<Longrightarrow> due N t b = N
      \<Longrightarrow> s_remainTimes (heap (dispatch t) b) = count_after (s_remainTimes (heap t b))
        \<and> s_interval (heap (dispatch t) b) = s_interval (heap t b)
        \<and> s_callback (heap (dispatch t) b) = s_callback (heap t b)"
    and "\<not> (b \<in># wheel t \<and> due N t b = N)
      \<Longrightarrow> heap (dispatch t) b = heap t b \<and> due N (dispatch t) b = due N t b"
    and "b \<in> set (dispatched t) \<longleftrightarrow>
      b \<in># wheel t \<and> due N t b = N \<and> s_remainTimes (heap t b) \<noteq> 0"
    and "distinct (dispatched t)"
    and "dispatchList (dispatch t) = rev (dispatched t) @ dispatchList t"
    and "next_addr (dispatch t) = next_addr t"
proof -
  define k where "k = N mod 256"
  define c where "c = set_near k [] t"
  define L where "L = nearFuture t k"
  have k: "k < 256" by (simp add: k_def)
  have mem: "x \<in> set L \<longleftrightarrow> x \<in># wheel t \<and> due N t x = N" for x
    unfolding L_def k_def using inv by (rule due_now)
  have ci: "timer_inv True (\<lambda>i. False) N c" and w: "wheel c + mset L = wheel t"
    using clear_now_inv [OF inv] by (simp_all add: c_def L_def k_def)
  have cnt: "count (wheel c) x + count (mset L) x \<le> 1" for x
    using timer_inv_once [OF inv, of x] by (simp flip: w)
  have dist: "distinct L"
    unfolding distinct_count_atmost_1
  proof
    fix x
    show "count (mset L) x = (if x \<in> set L then 1 else 0)"
      using cnt [of x] count_mset_0_iff [of L x] by (cases "count (mset L) x") auto
  qed
  have out: "x \<notin># wheel c" if "x \<in> set L" for x
    using cnt [of x] that count_mset_0_iff [of L x]
    by (cases "count (mset L) x") (auto simp: not_in_iff)
  have eq: "dispatch t = fold dispatch_item L c"
    unfolding L_def c_def k_def using inv by (rule dispatch_clear_first)
  have pre: "\<forall>a\<in>set L. a \<notin># wheel c \<and> a < next_addr c \<and> harmless (heap c a)"
    using out mem timer_inv_wheel [OF inv] by (auto simp: c_def)
  have hc: "heap c = heap t" and dc: "due N c x = due N t x" for x by (simp_all add: c_def)
  note all = fold_dispatch_ok [OF ci dist pre, folded eq, unfolded hc dc]
  show "timer_inv True (\<lambda>i. False) N (dispatch t)" using all by blast
  have wc: "b \<in># wheel c \<longleftrightarrow> b \<in># wheel t \<and> b \<notin> set L"
    using out [of b] by (auto simp flip: w)
  show "b \<in># wheel (dispatch t) \<longleftrightarrow> b \<in># wheel t \<and> (due N t b \<noteq> N \<or> rearms (heap t b))"
    using all wc mem [of b] by blast
  show "b \<in># wheel t \<Longrightarrow> due N t b = N \<Longrightarrow> rearms (heap t b)
      \<Longrightarrow> due N (dispatch t) b = N + period (heap t b)"
    using all mem [of b] by blast
  show "b \<in># wheel t \<Longrightarrow> due N t b = N
      \<Longrightarrow> s_remainTimes (heap (dispatch t) b) = count_after (s_remainTimes (heap t b))
        \<and> s_interval (heap (dispatch t) b) = s_interval (heap t b)
        \<and> s_callback (heap (dispatch t) b) = s_callback (heap t b)"
    using all mem [of b] by blast
  show "\<not> (b \<in># wheel t \<and> due N t b = N)
      \<Longrightarrow> heap (dispatch t) b = heap t b \<and> due N (dispatch t) b = due N t b"
    using fold_dispatch_frame(1) [of L c] fold_dispatch_frame(3) [of b L c] mem [of b]
    unfolding eq due_def by (simp add: c_def)
  have dl: "dispatched t = filter (\<lambda>a. s_remainTimes (heap t a) \<noteq> 0) L"
    using timer_inv_tick [OF inv] by (simp add: dispatched_def near_slot L_def k_def)
  show "b \<in> set (dispatched t) \<longleftrightarrow>
      b \<in># wheel t \<and> due N t b = N \<and> s_remainTimes (heap t b) \<noteq> 0"
    using mem [of b] by (auto simp: dl)
  show "distinct (dispatched t)" using dist by (simp add: dl)
  show "dispatchList (dispatch t) = rev (dispatched t) @ dispatchList t"
    using fold_dispatch_list [OF dist, of c] by (simp add: eq dl hc) (simp add: c_def)
  show "next_addr (dispatch t) = next_addr t"
    using fold_dispatch_frame(2) [of L c] by (simp add: eq) (simp add: c_def)
qed

subsection \<open>\<^verbatim>\<open>++tick\<close>\<close>

lemma placed_tick:
  assumes "placed False i N D k"
  shows "placed True i (N + 1) D k \<and> N + 1 \<le> D"
proof -
  have lt: "N div span i < D div span i" and le: "D div span i \<le> N div span i + 64"
    and k: "k = D div span i mod 64"
    using assms by (simp_all add: placed_def)
  have "N < D" using lt by (meson div_le_mono linorder_not_le)
  moreover have "(N + 1) div span i = (if span i dvd N + 1 then N div span i + 1 else N div span i)"
    by (simp add: div_Suc dvd_eq_mod_eq_0)
  ultimately show ?thesis using lt le k by (auto simp: placed_def)
qed

lemma due_tick:
  assumes "N < due N t a"
  shows "due (N + 1) (t\<lparr>t_tick := t_tick t + 1\<rparr>) a = due N t a"
proof -
  let ?d = "s_index (heap t a) - t_tick t"
  have "?d \<noteq> 0" using assms by (auto simp: due_def)
  then have "unat (?d - 1) = unat ?d - 1" and "0 < unat ?d"
    by (simp_all add: unat_minus_one unat_gt_0)
  then show ?thesis by (simp add: due_def diff_diff_add)
qed

lemma tick_ok:
  assumes "timer_inv True (\<lambda>i. False) N t"
  defines "t' \<equiv> t\<lparr>t_tick := t_tick t + 1\<rparr>"
  shows "timer_inv False (\<lambda>i. True) (N + 1) t'"
    and "a \<in># wheel t \<Longrightarrow> due (N + 1) t' a = due N t a"
proof -
  have lt: "N < due N t a" if "a \<in># wheel t" for a
    using that
  proof (cases rule: in_wheel_cases)
    case (near k)
    with timer_inv_near [OF assms(1) near] show ?thesis by simp
  next
    case (far i k)
    with placed_tick [OF timer_inv_far [OF assms(1) far]] show ?thesis by simp
  qed
  then have d: "due (N + 1) t' a = due N t a" if "a \<in># wheel t" for a
    unfolding t'_def using that by (intro due_tick) simp
  then show "a \<in># wheel t \<Longrightarrow> due (N + 1) t' a = due N t a" .
  have f: "nearFuture t' = nearFuture t" "farFuture t' = farFuture t" "wheel t' = wheel t"
    "heap t' = heap t" "next_addr t' = next_addr t"
    by (simp_all add: t'_def)
  show "timer_inv False (\<lambda>i. True) (N + 1) t'"
  proof (rule timer_invI)
    show "t_tick t' = word_of_nat (N + 1)" using timer_inv_tick [OF assms(1)] by (simp add: t'_def)
    show "due (N + 1) t' a mod 256 = k \<and> due (N + 1) t' a < N + 1 + 256
        \<and> (False \<longrightarrow> N + 1 < due (N + 1) t' a)"
      if "k < 256" and "a \<in> set (nearFuture t' k)" for k a
      using timer_inv_near [OF assms(1) that(1)] that d [OF in_wheel_near] f by fastforce
    show "placed True i (N + 1) (due (N + 1) t' a) k"
      if "i < 4" and "k < 64" and "a \<in> set (farFuture t' i k)" for i k a
      using placed_tick [OF timer_inv_far [OF assms(1) that(1,2)]] that d [OF in_wheel_far] f by fastforce
    show "count (wheel t') a \<le> 1" for a using timer_inv_once [OF assms(1)] f by simp
    show "a < next_addr t' \<and> harmless (heap t' a)" if "a \<in># wheel t'" for a
      using timer_inv_wheel [OF assms(1)] that f by simp
  qed
qed

subsection \<open>\<^verbatim>\<open>expand\<close>\<close>

text \<open>Moving an item down never touches the slot it comes from.\<close>

lemma timer_move_set_far:
  "l \<le> i \<Longrightarrow> timer_move a l (set_far i k xs t) = set_far i k xs (timer_move a l t)"
proof (induction l)
  case 0
  then show ?case by (simp add: set_far_def push_near_def)
next
  case (Suc l)
  then show ?case
    by (auto simp: Let_def) (auto simp: set_far_def push_far_def fun_upd_twist)
qed

lemma fold_move_set_far:
  "fold (\<lambda>a. timer_move a i) ys (set_far i k xs t) = set_far i k xs (fold (\<lambda>a. timer_move a i) ys t)"
  by (induction ys arbitrary: t) (simp_all add: timer_move_set_far)

lemma expand_slot_clear_first:
  "expand_slot i k t = fold (\<lambda>a. timer_move a i) (farFuture t i k) (set_far i k [] t)"
  by (simp add: fold_move_set_far expand_slot_def Let_def) (simp add: set_far_def)

lemma timer_move_frame [simp]:
  "t_tick (timer_move a l t) = t_tick t" "heap (timer_move a l t) = heap t"
  "next_addr (timer_move a l t) = next_addr t" "dispatchList (timer_move a l t) = dispatchList t"
  "scheduleList (timer_move a l t) = scheduleList t" "lastID (timer_move a l t) = lastID t"
  "due N (timer_move a l t) b = due N t b"
  by (induction l) (simp_all add: Let_def)

lemma fold_move_frame [simp]:
  "t_tick (fold (\<lambda>a. timer_move a l) xs t) = t_tick t"
  "heap (fold (\<lambda>a. timer_move a l) xs t) = heap t"
  "next_addr (fold (\<lambda>a. timer_move a l) xs t) = next_addr t"
  "dispatchList (fold (\<lambda>a. timer_move a l) xs t) = dispatchList t"
  "scheduleList (fold (\<lambda>a. timer_move a l) xs t) = scheduleList t"
  "lastID (fold (\<lambda>a. timer_move a l) xs t) = lastID t"
  "due N (fold (\<lambda>a. timer_move a l) xs t) b = due N t b"
  by (induction xs arbitrary: t) simp_all

lemma set_far_frame [simp]:
  "t_tick (set_far i k xs t) = t_tick t" "heap (set_far i k xs t) = heap t"
  "next_addr (set_far i k xs t) = next_addr t" "dispatchList (set_far i k xs t) = dispatchList t"
  "scheduleList (set_far i k xs t) = scheduleList t" "lastID (set_far i k xs t) = lastID t"
  "nearFuture (set_far i k xs t) = nearFuture t" "due N (set_far i k xs t) a = due N t a"
  by (simp_all add: set_far_def due_def)

text \<open>
  An item due within the span that starts now falls into the right slot of a lower wheel, or
  into its near slot.
\<close>

lemma timer_move_ok:
  assumes "timer_inv False pend N t" and "a \<notin># wheel t" and "a < next_addr t"
    and "harmless (heap t a)" and "l < 4" and "span l dvd N" and "due N t a < N + span l"
  shows "timer_inv False pend N (timer_move a l t) \<and> wheel (timer_move a l t) = add_mset a (wheel t)"
  using assms(5-7)
proof (induction l)
  case 0
  have slot: "unat (s_index (heap t a) AND NEAR_MASK) = due N t a mod 256"
    using index_due [OF timer_inv_tick [OF assms(1)], of a] by (simp add: near_slot)
  have "due N t a < N + 256" using 0 by (simp add: span_def)
  with timer_inv_push_near [OF assms(1,2) _ _ assms(3,4)] show ?case
    by (simp add: slot wheel_push_near)
next
  case (Suc l)
  let ?D = "due N t a" and ?k = "due N t a div span l mod 64"
  have slot: "unat (drop_bit (l * 6 + 8) (s_index (heap t a)) AND FAR_MASK) = ?k"
    using index_due [OF timer_inv_tick [OF assms(1)], of a] far_slot [of l ?D] Suc.prems(1)
    by (simp add: mult.commute add.commute)
  obtain q where q: "N = span (Suc l) * q" using Suc.prems(2) by blast
  then have Nd: "N div span l = 64 * q" and dv: "span l dvd N" by (simp_all add: span_Suc)
  have ge: "64 * q \<le> ?D div span l"
    using due_ge [of N t a] div_le_mono [of N ?D "span l"] Nd by simp
  have lt: "?D div span l < 64 * q + 64"
    using Suc.prems(3) q by (simp add: span_Suc less_mult_imp_div_less algebra_simps)
  show ?case
  proof (cases "?k = 0")
    case True
    then have "?D div span l mod 64 = 64 * q mod 64" by simp
    then have "?D div span l = 64 * q" using ge lt by (rule same_turn)
    then have "?D < N + span l" using Nd dv by (intro within_span) simp_all
    with Suc.IH [OF _ dv] Suc.prems(1) True show ?thesis by (simp add: slot Let_def)
  next
    case False
    then have "64 * q < ?D div span l" using ge by (metis le_neq_implies_less mod_mult_self1_is_0)
    then have "placed (pend l) l N ?D ?k" using lt Nd by (simp add: placed_def)
    with timer_inv_push_far [OF assms(1,2) _ _ assms(3,4), of l ?k] Suc.prems(1) False
    show ?thesis by (simp add: slot Let_def wheel_push_far)
  qed
qed

lemma fold_move_ok:
  assumes "timer_inv False pend N t" and "distinct xs" and "l < 4" and "span l dvd N"
    and "\<forall>a\<in>set xs. a \<notin># wheel t \<and> a < next_addr t \<and> harmless (heap t a)
      \<and> due N t a < N + span l"
  shows "timer_inv False pend N (fold (\<lambda>a. timer_move a l) xs t)
    \<and> wheel (fold (\<lambda>a. timer_move a l) xs t) = wheel t + mset xs"
  using assms
proof (induction xs arbitrary: t)
  case Nil
  then show ?case by simp
next
  case (Cons x xs)
  have "timer_inv False pend N (timer_move x l t) \<and> wheel (timer_move x l t) = add_mset x (wheel t)"
    using Cons.prems by (intro timer_move_ok) simp_all
  moreover from this have "\<forall>a\<in>set xs. a \<notin># wheel (timer_move x l t) \<and> a < next_addr (timer_move x l t)
      \<and> harmless (heap (timer_move x l t) a) \<and> due N (timer_move x l t) a < N + span l"
    using Cons.prems(2,5) by auto
  ultimately show ?case using Cons.IH [of "timer_move x l t"] Cons.prems(2-4) by simp
qed

text \<open>One slot of the carry: afterwards far wheel i has none left that is due in its span.\<close>

lemma expand_slot_ok:
  assumes inv: "timer_inv False (\<lambda>j. i \<le> j) N t" and i: "i < 4" and dv: "span i dvd N"
  defines "k \<equiv> N div span i mod 64"
  shows "timer_inv False (\<lambda>j. Suc i \<le> j) N (expand_slot i k t)"
    and "wheel (expand_slot i k t) = wheel t"
proof -
  let ?L = "farFuture t i k" and ?c = "set_far i k [] t"
  have k: "k < 64" by (simp add: k_def)
  have w: "wheel ?c + mset ?L = wheel t" using wheel_set_far [OF i k, of "[]" t] by simp
  then have sub: "wheel ?c \<subseteq># wheel t" by (metis mset_subset_eq_add_left)
  have cnt: "count (wheel ?c) x + count (mset ?L) x \<le> 1" for x
    using timer_inv_once [OF inv, of x] by (simp flip: w)
  have dist: "distinct ?L"
    unfolding distinct_count_atmost_1
  proof
    fix x
    show "count (mset ?L) x = (if x \<in> set ?L then 1 else 0)"
      using cnt [of x] count_mset_0_iff [of ?L x] by (cases "count (mset ?L) x") auto
  qed
  have out: "x \<notin># wheel ?c" if "x \<in> set ?L" for x
    using cnt [of x] that count_mset_0_iff [of ?L x]
    by (cases "count (mset ?L) x") (auto simp: not_in_iff)
  have turn: "D div span i \<noteq> N div span i" if "placed True i N D k'" and "k' \<noteq> k" for D k'
    using that by (auto simp: placed_def k_def)
  have here: "D < N + span i" if "placed True i N D k" for D
  proof -
    have "D div span i mod 64 = N div span i mod 64" "N div span i \<le> D div span i"
      "D div span i < N div span i + 64"
      using that dv by (simp_all add: placed_def k_def)
    then have "D div span i = N div span i" by (rule same_turn)
    with dv show ?thesis by (rule within_span)
  qed
  have ci: "timer_inv False (\<lambda>j. Suc i \<le> j) N ?c"
  proof (rule timer_invI)
    show "t_tick ?c = word_of_nat N" using timer_inv_tick [OF inv] by simp
    show "due N ?c a mod 256 = m \<and> due N ?c a < N + 256 \<and> (False \<longrightarrow> N < due N ?c a)"
      if "m < 256" and "a \<in> set (nearFuture ?c m)" for m a
      using timer_inv_near [OF inv that(1)] that(2) by simp
    show "placed (Suc i \<le> j) j N (due N ?c a) m"
      if "j < 4" and "m < 64" and "a \<in> set (farFuture ?c j m)" for j m a
    proof -
      have a: "a \<in> set (farFuture t j m)" and ne: "j = i \<longrightarrow> m \<noteq> k"
        using that(3) by (auto simp: set_far_def split: if_splits)
      have p: "placed (i \<le> j) j N (due N t a) m" using timer_inv_far [OF inv that(1,2) a] .
      show ?thesis
      proof (cases "j = i")
        case True
        with p ne turn [of "due N t a" m] dv show ?thesis by (simp add: placed_def)
      next
        case False
        then have "(Suc i \<le> j) = (i \<le> j)" by auto
        with p show ?thesis by simp
      qed
    qed
    show "count (wheel ?c) a \<le> 1" for a using cnt [of a] by simp
    show "a < next_addr ?c \<and> harmless (heap ?c a)" if "a \<in># wheel ?c" for a
      using timer_inv_wheel [OF inv mset_subset_eqD [OF sub that]] by simp
  qed
  have pre: "\<forall>a\<in>set ?L. a \<notin># wheel ?c \<and> a < next_addr ?c \<and> harmless (heap ?c a)
      \<and> due N ?c a < N + span i"
    using out timer_inv_far [OF inv i k] here timer_inv_wheel [OF inv in_wheel_far [OF i k]] by simp
  from fold_move_ok [OF ci dist i dv pre]
  show "timer_inv False (\<lambda>j. Suc i \<le> j) N (expand_slot i k t)"
    and "wheel (expand_slot i k t) = wheel t"
    by (simp_all add: expand_slot_clear_first w)
qed

lemma expand_slot_frame [simp]:
  "t_tick (expand_slot i k t) = t_tick t" "heap (expand_slot i k t) = heap t"
  "next_addr (expand_slot i k t) = next_addr t"
  "dispatchList (expand_slot i k t) = dispatchList t"
  "due N (expand_slot i k t) b = due N t b"
  by (simp_all add: expand_slot_clear_first)

lemma expand_loop_frame [simp]:
  "t_tick (expand_loop is ft t) = t_tick t" "heap (expand_loop is ft t) = heap t"
  "next_addr (expand_loop is ft t) = next_addr t"
  "dispatchList (expand_loop is ft t) = dispatchList t"
  "due N (expand_loop is ft t) b = due N t b"
  by (induction "is" ft t rule: expand_loop.induct) (simp_all add: Let_def)

lemma span_dvd_mono: "i \<le> j \<Longrightarrow> span i dvd span j"
  by (simp add: span_def le_imp_power_dvd)

text \<open>The whole carry, from wheel i on: it stops early only when no later wheel is due.\<close>

lemma expand_loop_ok:
  assumes "timer_inv False (\<lambda>j. i \<le> j) N t" and "i < 4 \<Longrightarrow> span i dvd N" and "i \<le> 4"
  shows "timer_inv False (\<lambda>j. False) N
      (expand_loop [i..<4] (drop_bit (8 + 6 * i) (word_of_nat N)) t)
    \<and> wheel (expand_loop [i..<4] (drop_bit (8 + 6 * i) (word_of_nat N)) t) = wheel t"
  using assms
proof (induction "4 - i" arbitrary: i t)
  case 0
  then have "i = 4" by simp
  with 0 show ?case using timer_inv_pend [of False "\<lambda>j. i \<le> j" N t "\<lambda>j. False"] by auto
next
  case (Suc m)
  then have i: "i < 4" and dv: "span i dvd N" by simp_all
  let ?k = "N div span i mod 64" and ?t = "expand_slot i (N div span i mod 64) t"
  have up: "[i..<4] = i # [Suc i..<4]" using i by (simp add: upt_conv_Cons)
  have slot: "unat (drop_bit (8 + 6 * i) (word_of_nat N :: u32) AND FAR_MASK) = ?k"
    using i by (rule far_slot)
  have next_tick: "drop_bit 6 (drop_bit (8 + 6 * i) (word_of_nat N :: u32))
      = drop_bit (8 + 6 * Suc i) (word_of_nat N)"
    by (simp add: drop_bit_drop_bit add.commute)
  note one = expand_slot_ok [OF Suc.prems(1) i dv]
  show ?case
  proof (cases "?k = 0")
    case True
    have "span (Suc i) dvd N"
    proof -
      from dv obtain q where q: "N = span i * q" by blast
      then have "64 dvd q" using True by (simp add: dvd_eq_mod_eq_0)
      then show ?thesis using q by (auto simp: span_Suc)
    qed
    then have "timer_inv False (\<lambda>j. False) N
        (expand_loop [Suc i..<4] (drop_bit (8 + 6 * Suc i) (word_of_nat N)) ?t)
      \<and> wheel (expand_loop [Suc i..<4] (drop_bit (8 + 6 * Suc i) (word_of_nat N)) ?t) = wheel ?t"
      using Suc.hyps(2) i by (intro Suc.hyps(1) one(1)) simp_all
    with True one(2) show ?thesis
      unfolding up expand_loop.simps slot Let_def next_tick by simp
  next
    case False
    have "\<not> span j dvd N" if "Suc i \<le> j" for j
    proof
      assume "span j dvd N"
      with span_dvd_mono [OF that] have "span (Suc i) dvd N" by (rule dvd_trans)
      then obtain q where "N = span (Suc i) * q" by blast
      then have "N div span i = 64 * q" by (simp add: span_Suc)
      with False show False by simp
    qed
    then have "timer_inv False (\<lambda>j. False) N ?t"
      by (intro timer_inv_pend [OF one(1)]) auto
    with False one(2) show ?thesis
      unfolding up expand_loop.simps slot Let_def by simp
  qed
qed

lemma expand_ok:
  assumes inv: "timer_inv False (\<lambda>j. True) N t"
  shows "timer_inv False (\<lambda>j. False) N (timer_expand t)"
    and "wheel (timer_expand t) = wheel t"
    and "heap (timer_expand t) = heap t" and "due N (timer_expand t) a = due N t a"
    and "next_addr (timer_expand t) = next_addr t"
    and "dispatchList (timer_expand t) = dispatchList t"
proof -
  have tick: "t_tick t = word_of_nat N" using inv by (rule timer_inv_tick)
  have aligned: "t_tick t AND NEAR_MASK = 0 \<longleftrightarrow> span 0 dvd N"
    using near_slot [of N] by (simp add: tick span_def dvd_eq_mod_eq_0 flip: unat_eq_zero)
  have far: "far_wheels = [0..<4]" by (simp add: far_wheels_def upt_conv_Cons)
  have "timer_inv False (\<lambda>j. False) N (timer_expand t) \<and> wheel (timer_expand t) = wheel t"
  proof (cases "span 0 dvd N")
    case True
    have "timer_inv False (\<lambda>j. 0 \<le> j) N t" using inv by simp
    from expand_loop_ok [OF this] True show ?thesis
      unfolding timer_expand_def aligned far by (simp add: tick)
  next
    case False
    have "\<not> span j dvd N" for j
      using False dvd_trans [OF span_dvd_mono [of 0 j]] by blast
    then have "timer_inv False (\<lambda>j. False) N t" by (intro timer_inv_pend [OF inv]) simp
    with False show ?thesis unfolding timer_expand_def aligned by simp
  qed
  then show "timer_inv False (\<lambda>j. False) N (timer_expand t)" and "wheel (timer_expand t) = wheel t"
    by simp_all
qed (simp_all add: timer_expand_def)

end
