(* ===== verification/Timer_Schedule.thy ===== *)
theory Timer_Schedule
  imports Timer_Wheel
begin

text \<open>
  What the timer promises, over any interleaving of the worker with its clients: when a
  timer fires, that it never fires after it has been removed, and that \<^verbatim>\<open>update\<close> calls what
  was dispatched. The theory follows one schedule through the steps of Timer_Wheel.
\<close>

section \<open>The times at which a schedule will be dispatched\<close>

definition upcoming :: "nat \<Rightarrow> 'cb timer \<Rightarrow> addr \<Rightarrow> nat set" where
  "upcoming N t a =
     (let s = heap t a; D = due N t a; n = period s; r = s_remainTimes s in
      if a \<in># wheel t \<and> r \<noteq> 0
      then if rearms s then {D + i * n | i. r = -1 \<or> int i < r} else {D}
      else {})"

lemma upcoming_cong:
  "b \<in># wheel t' \<longleftrightarrow> b \<in># wheel t \<Longrightarrow> heap t' b = heap t b \<Longrightarrow> due N' t' b = due N t b
     \<Longrightarrow> upcoming N' t' b = upcoming N t b"
  by (simp add: upcoming_def)

lemma upcoming_ge: "T \<in> upcoming N t a \<Longrightarrow> N \<le> T"
  using due_ge [of N t a] by (auto simp: upcoming_def Let_def split: if_splits intro: trans_le_add1)

lemma upcoming_now:
  assumes "timer_inv False (\<lambda>i. False) N t"
  shows "N \<in> upcoming N t a \<longleftrightarrow> a \<in> set (dispatched t)"
proof -
  have "N = due N t a + i * n \<Longrightarrow> due N t a = N" for i n
    using due_ge [of N t a] by simp
  then show ?thesis
    using dispatch_ok(6) [OF assms, of a]
    by (auto simp: upcoming_def Let_def rearms_def split: if_splits intro: exI [of _ 0])
qed

lemma upcoming_dispatch:
  assumes "timer_inv False (\<lambda>i. False) N t"
  shows "upcoming N (dispatch t) a = upcoming N t a - {N}"
proof (cases "a \<in># wheel t \<and> due N t a = N")
  case False
  have "upcoming N (dispatch t) a = upcoming N t a"
    using dispatch_ok(2) [OF assms, of a] dispatch_ok(5) [OF assms False] False
    by (intro upcoming_cong) auto
  moreover have "N \<notin> upcoming N t a"
    using upcoming_now [OF assms] dispatch_ok(6) [OF assms, of a] False by blast
  ultimately show ?thesis by simp
next
  case True
  let ?s = "heap t a" and ?s' = "heap (dispatch t) a"
  let ?n = "period ?s" and ?r = "s_remainTimes ?s"
  have s': "s_remainTimes ?s' = count_after ?r" "s_interval ?s' = s_interval ?s"
    using dispatch_ok(4) [OF assms, of a] True by simp_all
  then have n': "period ?s' = ?n" by (simp add: period_def)
  have w: "a \<in># wheel (dispatch t) \<longleftrightarrow> rearms ?s"
    using dispatch_ok(2) [OF assms, of a] True by simp
  show ?thesis
  proof (cases "rearms ?s")
    case False
    with w True show ?thesis by (auto simp: upcoming_def Let_def)
  next
    case True': True
    have D': "due N (dispatch t) a = N + ?n"
      using dispatch_ok(3) [OF assms, of a] True True' by simp
    have "harmless ?s" using timer_inv_wheel [OF assms] True by simp
    with True' have "MIN_INTERVAL \<le> s_interval ?s" by (auto simp: harmless_def rearms_def)
    then have pos: "0 < ?n" by (rule period_pos)
    have now: "upcoming N t a = {N + i * ?n | i. ?r = -1 \<or> int i < ?r}"
      using True True' by (auto simp: upcoming_def Let_def rearms_def)
    show ?thesis
    proof (cases "?r = -1")
      case True
      have "upcoming N (dispatch t) a = {N + ?n + i * ?n | i. True}"
        using True' w D' s' n' True by (simp add: upcoming_def Let_def rearms_def count_after_def)
      also have "\<dots> = {N + i * ?n | i. 0 < i}"
      proof (rule set_eqI, rule iffI)
        fix x assume "x \<in> {N + ?n + i * ?n | i. True}"
        then obtain i where "x = N + ?n + i * ?n" by blast
        then have "x = N + Suc i * ?n" by simp
        then show "x \<in> {N + i * ?n | i. 0 < i}" by blast
      next
        fix x assume "x \<in> {N + i * ?n | i. 0 < i}"
        then obtain j where "x = N + j * ?n" "0 < j" by blast
        then have "x = N + ?n + (j - 1) * ?n" by (cases j) simp_all
        then show "x \<in> {N + ?n + i * ?n | i. True}" by blast
      qed
      finally show ?thesis using now True pos by auto
    next
      case False
      then have r: "1 < ?r" using True' by (simp add: rearms_def)
      have up: "upcoming N (dispatch t) a = {N + ?n + i * ?n | i. int i < ?r - 1}"
      proof (cases "?r = 2")
        case True
        then show ?thesis using True' w D' s' n' r
          by (auto simp: upcoming_def Let_def rearms_def count_after_def)
      next
        case False
        then show ?thesis using True' w D' s' n' r
          by (auto simp: upcoming_def Let_def rearms_def count_after_def)
      qed
      have "{N + ?n + i * ?n | i. int i < ?r - 1} = {N + i * ?n | i. int i < ?r \<and> 0 < i}"
      proof (rule set_eqI, rule iffI)
        fix x assume "x \<in> {N + ?n + i * ?n | i. int i < ?r - 1}"
        then obtain i where "x = N + ?n + i * ?n" "int i < ?r - 1" by blast
        then have "x = N + Suc i * ?n" "int (Suc i) < ?r" by simp_all
        then show "x \<in> {N + i * ?n | i. int i < ?r \<and> 0 < i}" by blast
      next
        fix x assume "x \<in> {N + i * ?n | i. int i < ?r \<and> 0 < i}"
        then obtain j where "x = N + j * ?n" "int j < ?r" "0 < j" by blast
        then have "x = N + ?n + (j - 1) * ?n" "int (j - 1) < ?r - 1" by (cases j; simp)+
        then show "x \<in> {N + ?n + i * ?n | i. int i < ?r - 1}" by blast
      qed
      with up now False pos show ?thesis by auto
    qed
  qed
qed

section \<open>The clients\<close>

text \<open>An id names the schedule that \<^verbatim>\<open>scheduleList\<close> holds for it.\<close>

definition ids_ok :: "'cb timer \<Rightarrow> bool" where
  "ids_ok t \<longleftrightarrow> (\<forall>n b. scheduleList t n = Some b \<longrightarrow> b < next_addr t \<and> s_id (heap t b) = n)"

text \<open>
  A call at a point where the worker has dispatched the current tick but not yet counted it
  must ask for at least one tick; an interval must not be negative.
\<close>

fun timely_client :: "bool \<Rightarrow> 'cb client_op \<Rightarrow> bool" where
  "timely_client late (Add iv cb tms) \<longleftrightarrow> 0 \<le> iv \<and> (late \<longrightarrow> MIN_INTERVAL \<le> iv)"
| "timely_client late (Remove n) \<longleftrightarrow> True"

definition accepted :: "int \<Rightarrow> 'cb option \<Rightarrow> int \<Rightarrow> bool" where
  "accepted iv cb tms \<longleftrightarrow> cb \<noteq> None \<and> tms \<noteq> 0 \<and> (tms = 1 \<or> MIN_INTERVAL \<le> iv)"

lemma addTimeCall_ok:
  assumes inv: "timer_inv late pend N t" and ids: "ids_ok t" and "0 \<le> iv"
    and "late \<longrightarrow> MIN_INTERVAL \<le> iv" and "accepted iv cb tms"
    and call: "addTimeCall iv cb tms t = (n, t1)"
  shows "timer_inv late pend N t1" and "ids_ok t1"
    and "b < next_addr t \<Longrightarrow> upcoming N t1 b = upcoming N t b"
    and "b < next_addr t \<Longrightarrow> heap t1 b = heap t b"
    and "next_addr t1 = Suc (next_addr t)" and "scheduleList t1 n = Some (next_addr t)"
    and "nat iv div 10 < 2 ^ 32 \<Longrightarrow>
      next_addr t \<in># wheel t1 \<and> due N t1 (next_addr t) = N + nat iv div 10"
    and "2 ^ 32 \<le> nat iv div 10 \<Longrightarrow> next_addr t \<notin># wheel t1"
    and "s_remainTimes (heap t1 (next_addr t)) = tms \<and> s_interval (heap t1 (next_addr t)) = iv
      \<and> s_callback (heap t1 (next_addr t)) = cb \<and> s_id (heap t1 (next_addr t)) = n"
    and "n = lastID t + 1"
    and "dispatchList t1 = dispatchList t"
proof -
  let ?a = "next_addr t"
  define s where "s = \<lparr>s_id = lastID t + 1, s_index = 0, s_remainTimes = tms, s_interval = iv,
    s_callback = cb\<rparr>"
  define t0 where "t0 = t\<lparr>heap := (heap t)(?a := s), next_addr := Suc ?a, lastID := lastID t + 1\<rparr>"
  have n: "n = lastID t + 1"
    and t1: "t1 = (timer_insert ?a t0)\<lparr>scheduleList := (scheduleList (timer_insert ?a t0))(n := Some ?a)\<rparr>"
    using call assms(5) by (auto simp: addTimeCall_def accepted_def Let_def s_def t0_def)
  have "?a \<notin># wheel t" using timer_inv_wheel [OF inv, of ?a] by auto
  then have i0: "timer_inv late pend N t0"
    using timer_inv_wheel [OF inv] by (intro timer_inv_cong [OF inv]) (auto simp: t0_def)
  have w0: "?a \<notin># wheel t0" using \<open>?a \<notin># wheel t\<close> by (simp add: t0_def)
  have h: "harmless (heap t0 ?a)" and iv: "0 \<le> s_interval (heap t0 ?a)"
    and lt: "late \<longrightarrow> MIN_INTERVAL \<le> s_interval (heap t0 ?a)"
    and p: "period (heap t0 ?a) = nat iv div 10"
    using assms(3-5) by (auto simp: t0_def s_def accepted_def harmless_def period_def)
  have ad: "?a < next_addr t0" by (simp add: t0_def)
  note ok = timer_insert_ok [OF i0 w0 ad h iv lt, unfolded p]
  show "timer_inv late pend N t1"
    using timer_inv_wheel [OF ok(1)] by (intro timer_inv_cong [OF ok(1)]) (simp_all add: t1)
  show "ids_ok t1"
    using ids unfolding ids_ok_def
    by (auto simp: t1 n t0_def s_def timer_insert_heap less_Suc_eq split: if_splits)
  have dcong: "due N t1 x = due N (timer_insert ?a t0) x" for x by (simp add: t1 due_def)
  show hb: "heap t1 b = heap t b" if "b < next_addr t" for b
    using that by (simp add: t1 timer_insert_other t0_def)
  show "upcoming N t1 b = upcoming N t b" if "b < next_addr t" for b
  proof (rule upcoming_cong)
    show "b \<in># wheel t1 \<longleftrightarrow> b \<in># wheel t"
      using ok(2,4) that by (cases "nat iv div 10 < 2 ^ 32") (auto simp: t1 t0_def)
    show "heap t1 b = heap t b" using that by (rule hb)
    have "due N (timer_insert ?a t0) b = due N t0 b" using that by (intro timer_insert_other) simp
    then show "due N t1 b = due N t b" using that by (simp add: dcong) (simp add: due_def t0_def)
  qed
  show "next_addr t1 = Suc (next_addr t)" by (simp add: t1) (simp add: t0_def)
  show "scheduleList t1 n = Some (next_addr t)" by (simp add: t1)
  show "nat iv div 10 < 2 ^ 32 \<Longrightarrow>
      next_addr t \<in># wheel t1 \<and> due N t1 (next_addr t) = N + nat iv div 10"
    using ok(2,3) by (simp add: dcong) (simp add: t1)
  show "2 ^ 32 \<le> nat iv div 10 \<Longrightarrow> next_addr t \<notin># wheel t1"
    using ok(4) w0 by (simp add: t1)
  show "s_remainTimes (heap t1 (next_addr t)) = tms \<and> s_interval (heap t1 (next_addr t)) = iv
      \<and> s_callback (heap t1 (next_addr t)) = cb \<and> s_id (heap t1 (next_addr t)) = n"
    by (simp add: t1 timer_insert_self n) (simp add: t0_def s_def)
  show "n = lastID t + 1" by (rule n)
  show "dispatchList t1 = dispatchList t" by (simp add: t1) (simp add: t0_def)
qed

lemma addTimeCall_refused: "\<not> accepted iv cb tms \<Longrightarrow> addTimeCall iv cb tms t = (0, t)"
  by (auto simp: addTimeCall_def accepted_def)

lemma timer_remove_ok:
  assumes inv: "timer_inv late pend N t" and "ids_ok t"
  shows "timer_inv late pend N (timer_remove n t)" and "ids_ok (timer_remove n t)"
    and "s_id (heap t b) \<noteq> n \<Longrightarrow> upcoming N (timer_remove n t) b = upcoming N t b"
    and "next_addr (timer_remove n t) = next_addr t"
    and "s_id (heap (timer_remove n t) b) = s_id (heap t b)"
proof -
  have hm: "harmless s \<Longrightarrow> harmless (s\<lparr>s_remainTimes := 0, s_callback := None\<rparr>)" for s :: "'a schedule"
    by (simp add: harmless_def)
  show "timer_inv late pend N (timer_remove n t)"
    using timer_inv_wheel [OF inv]
    by (intro timer_inv_cong [OF inv])
      (auto simp: timer_remove_def modify_def hm split: option.split)
  show "ids_ok (timer_remove n t)"
    using assms(2) by (auto simp: timer_remove_def ids_ok_def split: option.splits if_splits)
  show "upcoming N (timer_remove n t) b = upcoming N t b" if "s_id (heap t b) \<noteq> n"
    using that assms(2)
    by (intro upcoming_cong) (auto simp: timer_remove_def ids_ok_def due_def split: option.split)
  show "next_addr (timer_remove n t) = next_addr t"
    by (simp add: timer_remove_def split: option.split)
  show "s_id (heap (timer_remove n t) b) = s_id (heap t b)"
    by (simp add: timer_remove_def split: option.split)
qed

text \<open>
  \<open>keeps N a t t'\<close>: from t to t' the invariant holds on and schedule a keeps its id and
  its coming dispatches.
\<close>

definition sound :: "bool \<Rightarrow> (nat \<Rightarrow> bool) \<Rightarrow> nat \<Rightarrow> addr \<Rightarrow> u32 \<Rightarrow> 'cb timer \<Rightarrow> bool" where
  "sound late pend N a n t \<longleftrightarrow> timer_inv late pend N t \<and> ids_ok t \<and> a < next_addr t
     \<and> s_id (heap t a) = n"

lemma client_keeps:
  assumes "sound late pend N a n t" and "timely_client late c" and "c \<noteq> Remove n"
  shows "sound late pend N a n (client c t) \<and> upcoming N (client c t) a = upcoming N t a"
proof (cases c)
  case (Add iv cb tms)
  show ?thesis
  proof (cases "accepted iv cb tms")
    case True
    obtain m t1 where t1: "addTimeCall iv cb tms t = (m, t1)" by fastforce
    have "timer_inv late pend N t" "ids_ok t" "0 \<le> iv" "late \<longrightarrow> MIN_INTERVAL \<le> iv"
      using assms(1,2) Add by (simp_all add: sound_def)
    note ok = addTimeCall_ok [OF this True t1]
    from assms(1) ok(1,2) ok(3,4) [of a] ok(5) Add t1 show ?thesis by (simp add: sound_def)
  next
    case False
    with assms(1) Add show ?thesis by (simp add: addTimeCall_refused)
  qed
next
  case (Remove m)
  have "timer_inv late pend N t" "ids_ok t" using assms(1) by (simp_all add: sound_def)
  from timer_remove_ok [OF this, where n = m] assms(1,3) Remove show ?thesis by (simp add: sound_def)
qed

lemma clients_keep:
  "sound late pend N a n t \<Longrightarrow> list_all (timely_client late) cs \<Longrightarrow> Remove n \<notin> set cs
     \<Longrightarrow> sound late pend N a n (fold client cs t) \<and> upcoming N (fold client cs t) a = upcoming N t a"
proof (induction cs arbitrary: t)
  case Nil
  then show ?case by simp
next
  case (Cons c cs)
  have "sound late pend N a n (client c t) \<and> upcoming N (client c t) a = upcoming N t a"
    using Cons.prems by (intro client_keeps) auto
  with Cons show ?case by simp
qed

text \<open>The callbacks of \<^verbatim>\<open>update\<close> act on the timer like any other client.\<close>

lemma call_all_keeps:
  assumes "\<And>cb. list_all (timely_client late) (script cb) \<and> Remove n \<notin> set (script cb)"
  shows "sound late pend N a n t
     \<Longrightarrow> sound late pend N a n (snd (call_all script xs t))
       \<and> upcoming N (snd (call_all script xs t)) a = upcoming N t a"
proof (induction xs arbitrary: t)
  case Nil
  then show ?case by simp
next
  case (Cons x xs)
  show ?case
  proof (cases "s_callback (heap t x)")
    case None
    with Cons show ?thesis by simp
  next
    case (Some cb)
    have "sound late pend N a n (fold client (script cb) t)
        \<and> upcoming N (fold client (script cb) t) a = upcoming N t a"
      using assms [of cb] Cons.prems by (intro clients_keep) simp_all
    with Cons.IH Some show ?thesis by (auto simp: case_prod_unfold Let_def)
  qed
qed

lemma sound_update_list:
  "sound late pend N a n t \<Longrightarrow> sound late pend N a n (t\<lparr>dispatchList := xs\<rparr>)
     \<and> upcoming N (t\<lparr>dispatchList := xs\<rparr>) a = upcoming N t a"
proof
  assume s: "sound late pend N a n t"
  then have i: "timer_inv late pend N t" by (simp add: sound_def)
  have "timer_inv late pend N (t\<lparr>dispatchList := xs\<rparr>)"
    using timer_inv_wheel [OF i] by (intro timer_inv_cong [OF i]) simp_all
  with s show "sound late pend N a n (t\<lparr>dispatchList := xs\<rparr>)"
    by (simp add: sound_def ids_ok_def)
  show "upcoming N (t\<lparr>dispatchList := xs\<rparr>) a = upcoming N t a"
    by (intro upcoming_cong) (simp_all add: due_def)
qed

section \<open>Any interleaving\<close>

fun is_late :: "phase \<Rightarrow> bool" where
  "is_late ph = (ph = At_tick)"

definition phase_sound :: "phase \<Rightarrow> nat \<Rightarrow> addr \<Rightarrow> u32 \<Rightarrow> 'cb timer \<Rightarrow> bool" where
  "phase_sound ph N a n t \<longleftrightarrow> sound (is_late ph) (\<lambda>i. ph = At_expand) N a n t"

text \<open>The next tick that will be dispatched.\<close>

definition next_dispatch :: "phase \<Rightarrow> nat \<Rightarrow> nat" where
  "next_dispatch ph N = (if ph = At_tick then N + 1 else N)"

fun timely :: "('cb \<Rightarrow> 'cb client_op list) \<Rightarrow> phase \<Rightarrow> 'cb timer_op \<Rightarrow> bool" where
  "timely script ph (Client c) \<longleftrightarrow> timely_client (is_late ph) c"
| "timely script ph Update \<longleftrightarrow> (\<forall>cb. list_all (timely_client (is_late ph)) (script cb))"
| "timely script ph Worker \<longleftrightarrow> True"

fun next_phase :: "'cb timer_op \<Rightarrow> phase \<Rightarrow> phase" where
  "next_phase Worker At_dispatch = At_tick"
| "next_phase Worker At_tick = At_expand"
| "next_phase Worker At_expand = At_dispatch"
| "next_phase op ph = ph"

fun timely_run :: "('cb \<Rightarrow> 'cb client_op list) \<Rightarrow> phase \<Rightarrow> 'cb timer_op list \<Rightarrow> bool" where
  "timely_run script ph [] \<longleftrightarrow> True"
| "timely_run script ph (x # xs) \<longleftrightarrow> timely script ph x \<and> timely_run script (next_phase x ph) xs"

text \<open>Nobody removes the schedule with id n: no client and no callback.\<close>

definition spared :: "u32 \<Rightarrow> ('cb \<Rightarrow> 'cb client_op list) \<Rightarrow> 'cb timer_op list \<Rightarrow> bool" where
  "spared n script xs \<longleftrightarrow> Client (Remove n) \<notin> set xs \<and> (\<forall>cb. Remove n \<notin> set (script cb))"

lemma dispatch_ids:
  "scheduleList (dispatch t) m = Some b \<Longrightarrow> scheduleList t m = Some b"
  "s_id (heap (dispatch t) b) = s_id (heap t b)"
proof -
  have *: "(scheduleList (fold dispatch_item xs t) m = Some b \<longrightarrow> scheduleList t m = Some b)
      \<and> s_id (heap (fold dispatch_item xs t) b) = s_id (heap t b)" for xs and t :: "'a timer"
  proof (induction xs arbitrary: t)
    case Nil
    then show ?case by simp
  next
    case (Cons x xs)
    have "scheduleList (dispatch_item x t) m = Some b \<longrightarrow> scheduleList t m = Some b"
      and "s_id (heap (dispatch_item x t) b) = s_id (heap t b)"
      by (auto simp: dispatch_item_def Let_def timer_insert_heap split: if_splits)
    with Cons show ?case by auto
  qed
  show "scheduleList (dispatch t) m = Some b \<Longrightarrow> scheduleList t m = Some b"
    and "s_id (heap (dispatch t) b) = s_id (heap t b)"
    using * [of _ t] by (simp_all add: dispatch_def Let_def)
qed

lemma expand_scheduleList [simp]: "scheduleList (timer_expand t) = scheduleList t"
proof -
  have "scheduleList (expand_loop is ft t) = scheduleList t" for "is" ft and t :: "'a timer"
    by (induction "is" ft t rule: expand_loop.induct)
      (simp_all add: Let_def expand_slot_clear_first)
  then show ?thesis by (simp add: timer_expand_def)
qed

text \<open>One step of anybody: what it emits and what it leaves to come.\<close>

lemma exec_keeps:
  assumes s: "phase_sound ph N a n t" and "timely script ph x"
    and "x \<noteq> Client (Remove n)" and "\<And>cb. Remove n \<notin> set (script cb)"
    and e: "timer_exec script x ph t = (out, ph', t')"
  shows "ph' = next_phase x ph \<and> (\<exists>N'. phase_sound ph' N' a n t' \<and>
    next_dispatch ph' N' = next_dispatch ph N + length out \<and> length out \<le> 1 \<and>
    (\<forall>j<length out. a \<in> set (out ! j) \<longleftrightarrow> next_dispatch ph N + j \<in> upcoming N t a) \<and>
    (\<forall>T\<ge>next_dispatch ph' N'. T \<in> upcoming N' t' a \<longleftrightarrow> T \<in> upcoming N t a))"
proof (cases x)
  case (Client c)
  with client_keeps [OF s [unfolded phase_sound_def], of c] assms(2,3) e show ?thesis
    by (intro conjI exI [of _ N]) (auto simp: phase_sound_def next_dispatch_def)
next
  case Update
  have s1: "sound (is_late ph) (\<lambda>i. ph = At_expand) N a n (t\<lparr>dispatchList := []\<rparr>)
      \<and> upcoming N (t\<lparr>dispatchList := []\<rparr>) a = upcoming N t a"
    using s by (intro sound_update_list) (simp add: phase_sound_def)
  have "list_all (timely_client (is_late ph)) (script cb) \<and> Remove n \<notin> set (script cb)" for cb
    using assms(2,4) Update by simp
  from call_all_keeps [of "is_late ph" script n, OF this conjunct1 [OF s1], of "dispatchList t"] s1 e Update
  show ?thesis
    by (intro conjI exI [of _ N]) (auto simp: phase_sound_def next_dispatch_def timer_update_def)
next
  case Worker
  have ids: "ids_ok t" and a: "a < next_addr t" and id: "s_id (heap t a) = n"
    using s by (simp_all add: phase_sound_def sound_def)
  show ?thesis
  proof (cases ph)
    case At_dispatch
    then have inv: "timer_inv False (\<lambda>i. False) N t" using s by (simp add: phase_sound_def sound_def)
    have "ids_ok (dispatch t)"
      using ids dispatch_ids dispatch_ok(9) [OF inv] unfolding ids_ok_def by metis
    then have "phase_sound At_tick N a n (dispatch t)"
      using dispatch_ok(1,9) [OF inv] a id
      by (simp add: phase_sound_def sound_def dispatch_ids)
    moreover have "out = [dispatched t]" "ph' = At_tick" "t' = dispatch t"
      using e Worker At_dispatch by simp_all
    moreover have "T \<in> upcoming N (dispatch t) a \<longleftrightarrow> T \<in> upcoming N t a" if "N + 1 \<le> T" for T
      unfolding upcoming_dispatch [OF inv] using that by simp
    moreover have "a \<in> set ([dispatched t] ! j) \<longleftrightarrow> N + j \<in> upcoming N t a" if "j < 1" for j
      using that upcoming_now [OF inv] by simp
    ultimately show ?thesis unfolding At_dispatch Worker
      by (intro conjI exI [of _ N]) (simp_all add: next_dispatch_def)
  next
    case At_tick
    then have inv: "timer_inv True (\<lambda>i. False) N t" using s by (simp add: phase_sound_def sound_def)
    let ?t = "t\<lparr>t_tick := t_tick t + 1\<rparr>"
    have "phase_sound At_expand (N + 1) a n ?t"
      using tick_ok(1) [OF inv] ids a id by (simp add: phase_sound_def sound_def ids_ok_def)
    moreover have "upcoming (N + 1) ?t a = upcoming N t a"
    proof (cases "a \<in># wheel t")
      case True
      then show ?thesis by (intro upcoming_cong tick_ok(2) [OF inv]) simp_all
    next
      case False
      then show ?thesis by (simp add: upcoming_def)
    qed
    ultimately show ?thesis using At_tick Worker e
      by (intro conjI exI [of _ "N + 1"]) (auto simp: next_dispatch_def)
  next
    case At_expand
    then have inv: "timer_inv False (\<lambda>i. True) N t" using s by (simp add: phase_sound_def sound_def)
    have "phase_sound At_dispatch N a n (timer_expand t)"
      using expand_ok [OF inv] ids a id by (simp add: phase_sound_def sound_def ids_ok_def)
    moreover have "upcoming N (timer_expand t) a = upcoming N t a"
      using expand_ok [OF inv] by (intro upcoming_cong) simp_all
    ultimately show ?thesis using At_expand Worker e
      by (intro conjI exI [of _ N]) (auto simp: next_dispatch_def)
  qed
qed

text \<open>
  A run: the j-th dispatch of the run takes the schedule exactly if its tick is among the
  schedule's times.
\<close>

lemma run_fires:
  assumes "phase_sound ph N a n t" and "timely_run script ph xs" and "spared n script xs"
    and "timer_run script xs ph t = (outs, ph', t')"
  shows "\<forall>j<length outs. a \<in> set (outs ! j) \<longleftrightarrow> next_dispatch ph N + j \<in> upcoming N t a"
  using assms
proof (induction xs arbitrary: ph N t outs ph' t')
  case Nil
  then show ?case by simp
next
  case (Cons x xs)
  obtain o1 ph1 t1 where e: "timer_exec script x ph t = (o1, ph1, t1)" by (metis prod_cases3)
  obtain o2 ph2 t2 where r: "timer_run script xs ph1 t1 = (o2, ph2, t2)" by (metis prod_cases3)
  have outs: "outs = o1 @ o2" using Cons.prems(4) e r by simp
  have "timely script ph x" "x \<noteq> Client (Remove n)" "\<And>cb. Remove n \<notin> set (script cb)"
    using Cons.prems(2,3) by (auto simp: spared_def)
  from exec_keeps [OF Cons.prems(1) this e] obtain N' where ph1: "ph1 = next_phase x ph"
    and s': "phase_sound ph1 N' a n t1"
    and nd: "next_dispatch ph1 N' = next_dispatch ph N + length o1"
    and now: "\<forall>j<length o1. a \<in> set (o1 ! j) \<longleftrightarrow> next_dispatch ph N + j \<in> upcoming N t a"
    and later: "\<forall>T\<ge>next_dispatch ph1 N'. T \<in> upcoming N' t1 a \<longleftrightarrow> T \<in> upcoming N t a"
    by blast
  have "timely_run script ph1 xs" and "spared n script xs"
    using Cons.prems(2,3) ph1 by (auto simp: spared_def)
  from Cons.IH [OF s' this r]
  have rest: "\<forall>j<length o2. a \<in> set (o2 ! j) \<longleftrightarrow> next_dispatch ph1 N' + j \<in> upcoming N' t1 a" .
  show ?case
  proof (intro allI impI)
    fix j assume j: "j < length outs"
    show "a \<in> set (outs ! j) \<longleftrightarrow> next_dispatch ph N + j \<in> upcoming N t a"
    proof (cases "j < length o1")
      case True
      with now show ?thesis by (simp add: outs nth_append)
    next
      case False
      then have "a \<in> set (outs ! j) \<longleftrightarrow> next_dispatch ph1 N' + (j - length o1) \<in> upcoming N' t1 a"
        using rest j by (simp add: outs nth_append)
      also have "\<dots> \<longleftrightarrow> next_dispatch ph1 N' + (j - length o1) \<in> upcoming N t a"
        using later by simp
      finally show ?thesis using False nd by simp
    qed
  qed
qed

section \<open>Reachable states\<close>

inductive timer_reachable :: "('cb \<Rightarrow> 'cb client_op list) \<Rightarrow> phase \<Rightarrow> 'cb timer \<Rightarrow> bool"
  for script where
  start: "timer_reachable script At_dispatch timer_new"
| step: "timer_reachable script ph t \<Longrightarrow> timely script ph x
    \<Longrightarrow> timer_exec script x ph t = (out, ph', t') \<Longrightarrow> timer_reachable script ph' t'"

definition phase_inv :: "phase \<Rightarrow> nat \<Rightarrow> 'cb timer \<Rightarrow> bool" where
  "phase_inv ph N t \<longleftrightarrow> timer_inv (is_late ph) (\<lambda>i. ph = At_expand) N t \<and> ids_ok t"

lemma client_inv:
  assumes "timer_inv late pend N t \<and> ids_ok t" and "timely_client late c"
  shows "timer_inv late pend N (client c t) \<and> ids_ok (client c t)"
proof (cases c)
  case (Add iv cb tms)
  show ?thesis
  proof (cases "accepted iv cb tms")
    case True
    obtain m t1 where t1: "addTimeCall iv cb tms t = (m, t1)" by fastforce
    from addTimeCall_ok(1,2) [of late pend N t, OF _ _ _ _ True t1] assms Add t1 show ?thesis by simp
  next
    case False
    with assms Add show ?thesis by (simp add: addTimeCall_refused)
  qed
next
  case (Remove m)
  with timer_remove_ok(1,2) assms show ?thesis by auto
qed

lemma clients_inv:
  "timer_inv late pend N t \<and> ids_ok t \<Longrightarrow> list_all (timely_client late) cs
     \<Longrightarrow> timer_inv late pend N (fold client cs t) \<and> ids_ok (fold client cs t)"
proof (induction cs arbitrary: t)
  case Nil
  then show ?case by simp
next
  case (Cons c cs)
  then have "timer_inv late pend N (client c t) \<and> ids_ok (client c t)"
    by (intro client_inv) simp_all
  with Cons show ?case by simp
qed

lemma call_all_inv:
  assumes "\<And>cb. list_all (timely_client late) (script cb)"
  shows "timer_inv late pend N t \<and> ids_ok t
     \<Longrightarrow> timer_inv late pend N (snd (call_all script xs t)) \<and> ids_ok (snd (call_all script xs t))"
proof (induction xs arbitrary: t)
  case Nil
  then show ?case by simp
next
  case (Cons x xs)
  show ?case
  proof (cases "s_callback (heap t x)")
    case None
    with Cons show ?thesis by simp
  next
    case (Some cb)
    have "timer_inv late pend N (fold client (script cb) t) \<and> ids_ok (fold client (script cb) t)"
      using Cons.prems assms [of cb] by (rule clients_inv)
    with Cons.IH Some show ?thesis by (auto simp: case_prod_unfold Let_def)
  qed
qed

lemma exec_inv:
  assumes i: "phase_inv ph N t" and v: "timely script ph x"
    and e: "timer_exec script x ph t = (out, ph', t')"
  shows "\<exists>N'. phase_inv ph' N' t' \<and> next_dispatch ph' N' = next_dispatch ph N + length out"
proof (cases x)
  case (Client c)
  with client_inv [OF i [unfolded phase_inv_def], of c] v e show ?thesis
    by (intro exI [of _ N]) (auto simp: phase_inv_def)
next
  case Update
  have ti: "timer_inv (is_late ph) (\<lambda>i. ph = At_expand) N t" and ids: "ids_ok t"
    using i by (simp_all add: phase_inv_def)
  have "timer_inv (is_late ph) (\<lambda>i. ph = At_expand) N (t\<lparr>dispatchList := []\<rparr>)
      \<and> ids_ok (t\<lparr>dispatchList := []\<rparr>)"
    using timer_inv_wheel [OF ti] ids
    by (intro conjI timer_inv_cong [OF ti]) (simp_all add: ids_ok_def)
  from call_all_inv [of "is_late ph" script, OF _ this] v e Update
  show ?thesis by (intro exI [of _ N]) (auto simp: phase_inv_def timer_update_def)
next
  case Worker
  show ?thesis
  proof (cases ph)
    case At_dispatch
    then have inv: "timer_inv False (\<lambda>i. False) N t" and "ids_ok t"
      using i by (simp_all add: phase_inv_def)
    moreover from this have "ids_ok (dispatch t)"
      using dispatch_ids dispatch_ok(9) [OF inv] unfolding ids_ok_def by metis
    ultimately show ?thesis using dispatch_ok(1) [OF inv] e Worker At_dispatch
      by (intro exI [of _ N]) (auto simp: phase_inv_def next_dispatch_def)
  next
    case At_tick
    with tick_ok(1) [of N t] i e Worker show ?thesis
      by (intro exI [of _ "N + 1"]) (auto simp: phase_inv_def next_dispatch_def ids_ok_def)
  next
    case At_expand
    with expand_ok [of N t] i e Worker show ?thesis
      by (intro exI [of _ N]) (auto simp: phase_inv_def next_dispatch_def ids_ok_def)
  qed
qed

lemma reachable_inv: "timer_reachable script ph t \<Longrightarrow> \<exists>N. phase_inv ph N t"
proof (induction rule: timer_reachable.induct)
  case start
  have "phase_inv At_dispatch 0 timer_new"
    using timer_new_inv by (simp add: phase_inv_def ids_ok_def timer_new_def)
  then show ?case ..
next
  case (step ph t x out ph' t')
  then show ?case using exec_inv by blast
qed

section \<open>Removed schedules\<close>

definition dead :: "addr \<Rightarrow> 'cb timer \<Rightarrow> bool" where
  "dead a t \<longleftrightarrow> a < next_addr t \<and> s_remainTimes (heap t a) = 0 \<and> s_callback (heap t a) = None"

lemma dead_client: "dead a t \<Longrightarrow> dead a (client c t)"
  by (cases c) (auto simp: dead_def addTimeCall_def timer_remove_def Let_def timer_insert_heap
      split: option.split)

lemma dead_clients: "dead a t \<Longrightarrow> dead a (fold client cs t)"
  by (induction cs arbitrary: t) (simp_all add: dead_client)

lemma dead_call_all:
  "dead a t \<Longrightarrow> a \<notin> set (fst (call_all script xs t)) \<and> dead a (snd (call_all script xs t))"
proof (induction xs arbitrary: t)
  case Nil
  then show ?case by simp
next
  case (Cons x xs)
  show ?case
  proof (cases "s_callback (heap t x)")
    case None
    with Cons show ?thesis by simp
  next
    case (Some cb)
    then have "x \<noteq> a" using Cons.prems by (auto simp: dead_def)
    with Cons.IH [OF dead_clients [OF Cons.prems]] Some show ?thesis
      by (simp add: case_prod_unfold Let_def)
  qed
qed

lemma dead_update:
  "dead a t \<Longrightarrow> a \<notin> set (fst (timer_update script t)) \<and> dead a (snd (timer_update script t))"
  unfolding timer_update_def by (rule dead_call_all) (simp add: dead_def)

lemma dead_dispatch_item: "dead a t \<Longrightarrow> dead a (dispatch_item b t)"
proof (cases "b = a")
  case True
  assume "dead a t"
  with True show ?thesis by (simp add: dead_def dispatch_item_def)
next
  case False
  assume "dead a t"
  with False dispatch_item_heap(1) [of a b t] show ?thesis by (simp add: dead_def)
qed

lemma dead_dispatch: "dead a t \<Longrightarrow> dead a (dispatch t) \<and> a \<notin> set (dispatched t)"
proof -
  have "dead a t \<Longrightarrow> dead a (fold dispatch_item xs t)" for xs
    by (induction xs arbitrary: t) (simp_all add: dead_dispatch_item)
  then show "dead a t \<Longrightarrow> dead a (dispatch t) \<and> a \<notin> set (dispatched t)"
    by (auto simp: dispatch_def Let_def dispatched_def dead_def)
qed

lemma dead_run:
  "dead a t \<Longrightarrow> timer_run script xs ph t = (outs, ph', t')
     \<Longrightarrow> (\<forall>out\<in>set outs. a \<notin> set out) \<and> dead a t'"
proof (induction xs arbitrary: ph t outs)
  case Nil
  then show ?case by simp
next
  case (Cons x xs)
  obtain o1 ph1 t1 where e: "timer_exec script x ph t = (o1, ph1, t1)" by (metis prod_cases3)
  obtain o2 ph2 t2 where r: "timer_run script xs ph1 t1 = (o2, ph2, t2)" by (metis prod_cases3)
  have "dead a t1 \<and> (\<forall>out\<in>set o1. a \<notin> set out)"
  proof (cases x)
    case (Client c)
    with e dead_client [OF Cons.prems(1)] show ?thesis by auto
  next
    case Update
    with e dead_update [OF Cons.prems(1)] show ?thesis by auto
  next
    case Worker
    have "dead a (timer_expand t)" "dead a (t\<lparr>t_tick := t_tick t + 1\<rparr>)"
      using Cons.prems(1) by (simp_all add: dead_def timer_expand_def)
    with e dead_dispatch [OF Cons.prems(1)] Worker show ?thesis by (cases ph) auto
  qed
  with Cons.IH [of t1 ph1 o2] Cons.prems(2) e r show ?case by auto
qed

section \<open>The clock\<close>

lemma worker_turns_tick: "t_tick (worker_turns k t) = t_tick t + word_of_nat k"
proof -
  have "t_tick (dispatch t) = t_tick t" for t :: "'a timer"
    by (simp add: dispatch_def Let_def fold_dispatch_frame(1))
  moreover have "t_tick (timer_expand t) = t_tick t" for t :: "'a timer"
    by (simp add: timer_expand_def)
  ultimately show ?thesis
    by (induction k arbitrary: t) (simp_all add: Let_def algebra_simps)
qed

lemma timerProc_pass_ok:
  assumes "timerProc_pass now (old, t) = (new, t')" and "old \<le> now"
  shows "new \<le> now \<and> now < new + TICK_NS \<and> old \<le> new
    \<and> t_tick t' = t_tick t + word_of_int ((new - old) div TICK_NS)
    \<and> TICK_NS dvd new - old"
proof -
  let ?d = "(now - old) div TICK_NS"
  have p: "0 < TICK_NS" by (simp add: TICK_NS_def MIN_INTERVAL_def)
  have l: "new = old + ?d * TICK_NS" and t': "t' = worker_turns (nat ?d) t"
    using assms(1) by (simp_all add: timerProc_pass_def Let_def)
  have d: "0 \<le> ?d" using assms(2) p by (simp add: pos_imp_zdiv_nonneg_iff)
  have "now - old = ?d * TICK_NS + (now - old) mod TICK_NS" by simp
  moreover have "0 \<le> (now - old) mod TICK_NS" "(now - old) mod TICK_NS < TICK_NS" using p by simp_all
  moreover have "0 \<le> ?d * TICK_NS" using d p by simp
  ultimately have "new \<le> now \<and> now < new + TICK_NS \<and> old \<le> new" unfolding l by linarith
  moreover have "(new - old) div TICK_NS = ?d" using p by (simp add: l)
  moreover have "t_tick t' = t_tick t + word_of_int ?d"
    using d by (simp add: t' worker_turns_tick)
  ultimately show ?thesis by (simp add: l)
qed

section \<open>Properties\<close>

lemma upcoming_added:
  assumes "timer_inv late pend N t" and "ids_ok t" and "0 \<le> iv" and "late \<longrightarrow> MIN_INTERVAL \<le> iv"
    and acc: "accepted iv cb tms" and call: "addTimeCall iv cb tms t = (n, t1)"
    and short: "nat iv div 10 < 2 ^ 32"
  shows "T \<in> upcoming N t1 (next_addr t) \<longleftrightarrow>
    (\<exists>m\<ge>1. (tms = -1 \<or> int m \<le> max 1 tms) \<and> T = N + m * (nat iv div 10))"
proof -
  let ?a = "next_addr t" and ?n = "nat iv div 10"
  note ok = addTimeCall_ok [OF assms(1-4) acc call]
  have w: "?a \<in># wheel t1" and d: "due N t1 ?a = N + ?n" using ok(7) short by simp_all
  have r: "s_remainTimes (heap t1 ?a) = tms" and p: "period (heap t1 ?a) = ?n"
    using ok(9) by (simp_all add: period_def)
  have nz: "tms \<noteq> 0" using acc by (simp add: accepted_def)
  show ?thesis
  proof (cases "tms = -1 \<or> 1 < tms")
    case True
    then have up: "upcoming N t1 ?a = {N + ?n + i * ?n | i. tms = -1 \<or> int i < tms}"
      using w d r p nz short by (simp add: upcoming_def Let_def rearms_def)
    show ?thesis
    proof
      assume "T \<in> upcoming N t1 ?a"
      then obtain i where "T = N + ?n + i * ?n" "tms = -1 \<or> int i < tms" unfolding up by blast
      then have "T = N + Suc i * ?n" "tms = -1 \<or> int i < tms" by simp_all
      then show "\<exists>m\<ge>1. (tms = -1 \<or> int m \<le> max 1 tms) \<and> T = N + m * ?n"
        by (intro exI [of _ "Suc i"]) auto
    next
      assume "\<exists>m\<ge>1. (tms = -1 \<or> int m \<le> max 1 tms) \<and> T = N + m * ?n"
      then obtain m where "1 \<le> m" "tms = -1 \<or> int m \<le> max 1 tms" "T = N + m * ?n" by blast
      then have "T = N + ?n + (m - 1) * ?n" "tms = -1 \<or> int (m - 1) < tms"
        using True by (cases m; auto)+
      then show "T \<in> upcoming N t1 ?a" unfolding up by blast
    qed
  next
    case False
    then have "upcoming N t1 ?a = {N + ?n}"
      using w d r p nz by (simp add: upcoming_def Let_def rearms_def)
    moreover have "(tms = -1 \<or> int m \<le> max 1 tms) \<longleftrightarrow> m \<le> 1" for m
      using False by auto
    moreover have "(\<exists>m\<ge>1. m \<le> 1 \<and> T = N + m * ?n) \<longleftrightarrow> T = N + ?n"
      by (metis le_antisym mult_1 order_refl)
    ultimately show ?thesis by simp
  qed
qed







text \<open>C39. The worker does not drift: whatever the delays between its clock readings, after
  a pass \<^verbatim>\<open>lastTime\<close> is behind the reading by less than one tick, it has moved by whole ticks
  only, and the tick counter by exactly that many.\<close>

theorem timerProc_no_drift:
  assumes "sorted (start_ns # nows)"
    and "fold timerProc_pass nows (start_ns, t) = (end_ns, t')"
  shows "start_ns \<le> end_ns \<and> TICK_NS dvd end_ns - start_ns
    \<and> t_tick t' = t_tick t + word_of_int ((end_ns - start_ns) div TICK_NS)
    \<and> (nows \<noteq> [] \<longrightarrow> end_ns \<le> last nows \<and> last nows < end_ns + TICK_NS)"
  using assms
proof (induction nows arbitrary: start_ns t)
  case Nil
  then show ?case by simp
next
  case (Cons now nows)
  obtain mid t1 where p: "timerProc_pass now (start_ns, t) = (mid, t1)" by fastforce
  have "start_ns \<le> now" using Cons.prems(1) by simp
  note one = timerProc_pass_ok [OF p this]
  have s: "sorted (mid # nows)" using Cons.prems(1) one by auto
  have "fold timerProc_pass nows (mid, t1) = (end_ns, t')" using Cons.prems(2) p by simp
  note rest = Cons.IH [OF s this]
  have "(end_ns - start_ns) div TICK_NS
      = (end_ns - mid) div TICK_NS + (mid - start_ns) div TICK_NS"
    using rest one by (metis add_diff_eq diff_add_cancel div_plus_div_distrib_dvd_left)
  moreover have "TICK_NS dvd end_ns - start_ns"
    using rest one by (metis add_diff_eq diff_add_cancel dvd_add)
  moreover have "nows = [] \<Longrightarrow> end_ns = mid" using Cons.prems(2) p by simp
  ultimately show ?case using rest one by (cases "nows = []") (auto simp: algebra_simps)
qed

theorem timerProc_no_drift_witness:
  "\<exists>t'. fold timerProc_pass [9000000, 25000000, 30000001] (0, timer_new :: unit timer) = (30000000, t')
     \<and> t_tick t' = 3"
proof -
  let ?nows = "[9000000, 25000000, 30000001] :: int list"
  obtain e t' where r: "fold timerProc_pass ?nows (0, timer_new :: unit timer) = (e, t')" by fastforce
  have s: "sorted (0 # ?nows)" by simp
  have e: "e \<le> 30000001" "30000001 < e + TICK_NS" "TICK_NS dvd e" "0 \<le> e"
    and t: "t_tick t' = word_of_int (e div TICK_NS)"
    using timerProc_no_drift [OF s r] by (simp_all add: timer_new_def)
  have "e = 30000000"
  proof -
    from e(3) obtain q where "e = 10000000 * q" by (auto simp: TICK_NS_def MIN_INTERVAL_def)
    with e(1,2) show ?thesis by (simp add: TICK_NS_def MIN_INTERVAL_def)
  qed
  with r t show ?thesis by (simp add: TICK_NS_def MIN_INTERVAL_def)
qed

subsection \<open>Corners\<close>

text \<open>An interval of 2^32 ticks or more (about 497 days) is accepted but never fires.\<close>

lemma timer_too_long:
  assumes "timer_reachable script ph t" and "accepted iv cb tms" and "0 \<le> iv"
    and "ph = At_tick \<longrightarrow> MIN_INTERVAL \<le> iv" and "2 ^ 32 \<le> nat iv div 10"
    and "addTimeCall iv cb tms t = (n, t1)"
    and "timely_run script ph xs" and "spared n script xs"
    and "timer_run script xs ph t1 = (outs, ph', t')"
  shows "\<forall>j<length outs. next_addr t \<notin> set (outs ! j)"
proof -
  let ?a = "next_addr t"
  from reachable_inv [OF assms(1)] obtain N where inv: "phase_inv ph N t" ..
  then have i: "timer_inv (is_late ph) (\<lambda>i. ph = At_expand) N t" and ids: "ids_ok t"
    by (simp_all add: phase_inv_def)
  have lt: "is_late ph \<longrightarrow> MIN_INTERVAL \<le> iv" using assms(4) by simp
  note ok = addTimeCall_ok [OF i ids assms(3) lt assms(2,6)]
  have "phase_sound ph N ?a n t1"
    using ok(1,2,5,9) by (simp add: phase_sound_def sound_def)
  moreover have "upcoming N t1 ?a = {}" using ok(8) assms(5) by (simp add: upcoming_def)
  ultimately show ?thesis using run_fires [OF _ assms(7-9)] by blast
qed

text \<open>\<^verbatim>\<open>dispatchList\<close> is a stack: what a later tick dispatches is called before what is
  still waiting from an earlier one.\<close>

lemma later_ticks_first:
  "phase_inv At_dispatch N t
     \<Longrightarrow> dispatchList (dispatch t) = rev (dispatched t) @ dispatchList t"
  using dispatch_ok(8) by (auto simp: phase_inv_def)

text \<open>A schedule with no ticks to wait, added after the dispatch of the current tick and before
  the worker counts it, lands in the slot just dispatched and waits for a whole turn of 256.\<close>

lemma add_between_dispatch_and_tick:
  "0 \<notin> set (concat (fst (timer_run (\<lambda>cb. [])
      [Worker, Client (Add 0 (Some ()) 1), Worker, Worker, Worker] At_dispatch timer_new)))"
  by code_simp

end
