(* ===== verification/Event_Dispatch.thy ===== *)
theory Event_Dispatch
  imports Prelude
begin

text \<open>
  Model of \<^verbatim>\<open>EventDispatcher\<close> (include/ws/core/Event.h, wsCore/src/Event.cpp),
  \<^verbatim>\<open>Signal\<close> (include/ws/core/Signal.h) and \<^verbatim>\<open>ObjectPool\<close> (include/ws/core/ObjectPool.h).

  Callbacks are known by their address, a number. The set of the listeners of one type is a
  \<^verbatim>\<open>std::set\<close> ordered by priority, then address; here it is the list of its elements in
  iteration order. \<^verbatim>\<open>once\<close> and \<^verbatim>\<open>addEventListener\<close> write to the priority of an element in
  place: afterwards the list need not be in order, and an insertion or a search by key in it
  is undefined behaviour.
\<close>

section \<open>Listeners and their order\<close>

record listener =
  l_callback :: nat
  l_priority :: int
  l_once :: bool

datatype key = Key (k_priority: int) (k_callback: nat)

text \<open>\<^verbatim>\<open>operator<\<close>: higher priority first, then the lower address.\<close>

definition callback_less :: "key \<Rightarrow> key \<Rightarrow> bool" where
  "callback_less a b \<longleftrightarrow>
     (if k_priority a = k_priority b then k_callback a < k_callback b
      else k_priority b < k_priority a)"

instantiation key :: linorder
begin

definition less_eq_key :: "key \<Rightarrow> key \<Rightarrow> bool" where
  "less_eq_key a b \<longleftrightarrow>
     (if k_priority a = k_priority b then k_callback a \<le> k_callback b
      else k_priority b < k_priority a)"

definition less_key :: "key \<Rightarrow> key \<Rightarrow> bool" where
  "less_key a b \<longleftrightarrow> callback_less a b"

instance
proof
  fix x y z :: key
  show "(x < y) = (x \<le> y \<and> \<not> y \<le> x)" by (auto simp: less_eq_key_def less_key_def callback_less_def)
  show "x \<le> x" by (simp add: less_eq_key_def)
  show "x \<le> y \<Longrightarrow> y \<le> z \<Longrightarrow> x \<le> z" by (auto simp: less_eq_key_def split: if_splits)
  show "x \<le> y \<Longrightarrow> y \<le> x \<Longrightarrow> x = y"
    by (cases x; cases y) (auto simp: less_eq_key_def split: if_splits)
  show "x \<le> y \<or> y \<le> x" by (auto simp: less_eq_key_def)
qed

end

definition key_of :: "listener \<Rightarrow> key" where
  "key_of l = Key (l_priority l) (l_callback l)"

definition in_order :: "listener list \<Rightarrow> bool" where
  "in_order xs \<longleftrightarrow> sorted_wrt (<) (map key_of xs)"

text \<open>\<^verbatim>\<open>std::set::insert\<close> and \<^verbatim>\<open>std::set::erase(key)\<close>.\<close>

fun insert_sorted :: "listener \<Rightarrow> listener list \<Rightarrow> listener list" where
  "insert_sorted x [] = [x]"
| "insert_sorted x (y # ys) =
     (if key_of x < key_of y then x # y # ys
      else if key_of x = key_of y then y # ys
      else y # insert_sorted x ys)"

definition set_insert :: "listener \<Rightarrow> listener list \<Rightarrow> error + listener list" where
  "set_insert x xs = (if in_order xs then Inr (insert_sorted x xs) else Inl Undefined_behaviour)"

definition set_erase :: "listener \<Rightarrow> listener list \<Rightarrow> error + listener list" where
  "set_erase x xs =
     (if in_order xs then Inr (filter (\<lambda>y. key_of y \<noteq> key_of x) xs) else Inl Undefined_behaviour)"

section \<open>\<^verbatim>\<open>EventDispatcher\<close>\<close>

type_synonym dispatcher = "int \<Rightarrow> listener list option"

definition ev_list :: "dispatcher \<Rightarrow> int \<Rightarrow> listener list" where
  "ev_list d ty = (case d ty of None \<Rightarrow> [] | Some xs \<Rightarrow> xs)"

text \<open>The loop over the set: overwrite the entry of a callback that is already there.\<close>

fun overwrite :: "nat \<Rightarrow> int \<Rightarrow> bool \<Rightarrow> listener list \<Rightarrow> listener list option" where
  "overwrite cb prio o1 [] = None"
| "overwrite cb prio o1 (x # xs) =
     (if l_callback x = cb then Some (x\<lparr>l_once := o1, l_priority := prio\<rparr> # xs)
      else map_option ((#) x) (overwrite cb prio o1 xs))"

definition ev_register :: "bool \<Rightarrow> int \<Rightarrow> nat \<Rightarrow> int \<Rightarrow> dispatcher \<Rightarrow> error + dispatcher" where
  "ev_register o1 ty cb prio d =
     (let xs = ev_list d ty in
      case overwrite cb prio o1 xs of
        Some ys \<Rightarrow> Inr (d(ty \<mapsto> ys))
      | None \<Rightarrow>
          bindE (set_insert \<lparr>l_callback = cb, l_priority = prio, l_once = o1\<rparr> xs)
            (\<lambda>ys. Inr (d(ty \<mapsto> ys))))"

definition ev_once :: "int \<Rightarrow> nat \<Rightarrow> int \<Rightarrow> dispatcher \<Rightarrow> error + dispatcher" where
  "ev_once ty cb prio d = ev_register True ty cb prio d"

definition addEventListener :: "int \<Rightarrow> nat \<Rightarrow> int \<Rightarrow> dispatcher \<Rightarrow> error + dispatcher" where
  "addEventListener ty cb prio d = ev_register False ty cb prio d"

fun erase_callback :: "nat \<Rightarrow> listener list \<Rightarrow> listener list" where
  "erase_callback cb [] = []"
| "erase_callback cb (x # xs) = (if l_callback x = cb then xs else x # erase_callback cb xs)"

definition removeEventListener :: "int \<Rightarrow> nat \<Rightarrow> dispatcher \<Rightarrow> dispatcher" where
  "removeEventListener ty cb d =
     (case d ty of None \<Rightarrow> d | Some xs \<Rightarrow> d(ty \<mapsto> erase_callback cb xs))"

text \<open>What a callback may do to the dispatcher while it is called.\<close>

datatype ev_op = Once int nat int | Listen int nat int | Unlisten int nat

fun ev_exec :: "ev_op \<Rightarrow> dispatcher \<Rightarrow> error + dispatcher" where
  "ev_exec (Once ty cb prio) d = ev_once ty cb prio d"
| "ev_exec (Listen ty cb prio) d = addEventListener ty cb prio d"
| "ev_exec (Unlisten ty cb) d = Inr (removeEventListener ty cb d)"

text \<open>
  The loop of \<^verbatim>\<open>dispatchEvent\<close> over its copy of the set: call, then erase a one-time
  listener from the live set.
\<close>

fun dispatch_loop ::
    "(nat \<Rightarrow> ev_op list) \<Rightarrow> int \<Rightarrow> listener list \<Rightarrow> dispatcher \<Rightarrow> error + nat list \<times> dispatcher" where
  "dispatch_loop script ty [] d = Inr ([], d)"
| "dispatch_loop script ty (x # xs) d =
     bindE (runE ev_exec (script (l_callback x)) d) (\<lambda>d1.
     bindE (if l_once x then bindE (set_erase x (ev_list d1 ty)) (\<lambda>ys. Inr (d1(ty \<mapsto> ys)))
            else Inr d1) (\<lambda>d2.
     bindE (dispatch_loop script ty xs d2) (\<lambda>(calls, d3). Inr (l_callback x # calls, d3))))"

definition dispatchEvent ::
    "(nat \<Rightarrow> ev_op list) \<Rightarrow> int \<Rightarrow> dispatcher \<Rightarrow> error + nat list \<times> dispatcher" where
  "dispatchEvent script ty d =
     (case d ty of None \<Rightarrow> Inr ([], d) | Some xs \<Rightarrow> dispatch_loop script ty xs d)"

section \<open>\<^verbatim>\<open>Signal\<close>\<close>

text \<open>The iteration order of an \<^verbatim>\<open>unordered_set\<close> is a parameter.\<close>

definition sig_add :: "nat \<Rightarrow> nat set \<Rightarrow> nat set" where
  "sig_add cb s = insert cb s"

definition sig_remove :: "nat \<Rightarrow> nat set \<Rightarrow> nat set" where
  "sig_remove cb s = s - {cb}"

datatype sig_op = Sig_add nat | Sig_remove nat

fun sig_exec :: "sig_op \<Rightarrow> nat set \<Rightarrow> nat set" where
  "sig_exec (Sig_add cb) s = sig_add cb s"
| "sig_exec (Sig_remove cb) s = sig_remove cb s"

fun notify_loop :: "(nat \<Rightarrow> sig_op list) \<Rightarrow> nat list \<Rightarrow> nat set \<Rightarrow> nat list \<times> nat set" where
  "notify_loop script [] s = ([], s)"
| "notify_loop script (cb # cbs) s =
     (let (calls, s1) = notify_loop script cbs (fold sig_exec (script cb) s) in (cb # calls, s1))"

definition notify ::
    "(nat set \<Rightarrow> nat list) \<Rightarrow> (nat \<Rightarrow> sig_op list) \<Rightarrow> nat set \<Rightarrow> nat list \<times> nat set" where
  "notify iteration script s = notify_loop script (iteration s) s"

section \<open>\<^verbatim>\<open>ObjectPool\<close>\<close>

text \<open>
  A \<^verbatim>\<open>unique_ptr\<close> is \<open>None\<close> when it is null. \<open>fresh\<close> is the object that \<^verbatim>\<open>make_unique\<close>
  makes; \<^verbatim>\<open>free\<close> returns what the caller's pointer holds afterwards: nothing if the pool
  took the object, the object if the pool is full.
\<close>

definition pool_new :: "(nat \<Rightarrow> 'o) \<Rightarrow> nat \<Rightarrow> 'o option list" where
  "pool_new fresh_obj init = map (\<lambda>i. Some (fresh_obj i)) [0..<init]"

definition pool_alloc :: "'o \<Rightarrow> 'o option list \<Rightarrow> 'o option \<times> 'o option list" where
  "pool_alloc fresh_obj p = (if p \<noteq> [] then (last p, butlast p) else (Some fresh_obj, p))"

definition pool_free :: "nat \<Rightarrow> 'o option \<Rightarrow> 'o option list \<Rightarrow> 'o option \<times> 'o option list" where
  "pool_free capacity obj p = (if length p < capacity then (None, p @ [obj]) else (obj, p))"

section \<open>Lemmas on the ordered set\<close>

lemma in_order_Cons:
  "in_order (x # xs) \<longleftrightarrow> in_order xs \<and> (\<forall>y\<in>set xs. key_of x < key_of y)"
  by (auto simp: in_order_def)

lemma in_order_filter: "in_order xs \<Longrightarrow> in_order (filter P xs)"
  by (simp add: in_order_def sorted_wrt_map sorted_wrt_filter)

lemma set_insert_sorted:
  "key_of x \<notin> key_of ` set xs \<Longrightarrow> set (insert_sorted x xs) = insert x (set xs)"
  by (induction xs) auto

lemma in_order_insert: "in_order xs \<Longrightarrow> in_order (insert_sorted x xs)"
proof (induction xs)
  case Nil
  then show ?case by (simp add: in_order_def)
next
  case (Cons y ys)
  have sub: "set (insert_sorted x ys) \<subseteq> insert x (set ys)" by (induction ys) auto
  from Cons show ?case using sub by (auto simp: in_order_Cons dest: less_trans)
qed

lemma in_order_distinct: "in_order xs \<Longrightarrow> distinct xs"
  by (induction xs) (auto simp: in_order_Cons)

lemma in_order_inj: "in_order xs \<Longrightarrow> inj_on key_of (set xs)"
  by (induction xs) (auto simp: in_order_Cons)

lemma overwrite_None: "overwrite cb prio o1 xs = None \<longleftrightarrow> cb \<notin> l_callback ` set xs"
  by (induction xs) auto

lemma overwrite_Some:
  "overwrite cb prio o1 xs = Some ys \<Longrightarrow>
     \<exists>us x vs. xs = us @ x # vs \<and> l_callback x = cb \<and> cb \<notin> l_callback ` set us
       \<and> ys = us @ x\<lparr>l_once := o1, l_priority := prio\<rparr> # vs"
proof (induction xs arbitrary: ys)
  case Nil
  then show ?case by simp
next
  case (Cons z zs)
  show ?case
  proof (cases "l_callback z = cb")
    case True
    with Cons.prems show ?thesis by (intro exI [of _ "[]"] exI [of _ z] exI [of _ zs]) simp
  next
    case False
    then obtain ws where ws: "overwrite cb prio o1 zs = Some ws" and ys: "ys = z # ws"
      using Cons.prems by auto
    from Cons.IH [OF ws] obtain us x vs where "zs = us @ x # vs" "l_callback x = cb"
      "cb \<notin> l_callback ` set us" "ws = us @ x\<lparr>l_once := o1, l_priority := prio\<rparr> # vs" by blast
    with False ys show ?thesis by (intro exI [of _ "z # us"] exI [of _ x] exI [of _ vs]) simp
  qed
qed

section \<open>The discipline that keeps the set in order\<close>

text \<open>
  A program is disciplined if it registers each callback with one priority only, \<open>prio cb\<close>.
\<close>

definition ev_inv :: "(nat \<Rightarrow> int) \<Rightarrow> dispatcher \<Rightarrow> bool" where
  "ev_inv prio d \<longleftrightarrow> (\<forall>ty. in_order (ev_list d ty) \<and> (\<forall>x\<in>set (ev_list d ty). l_priority x = prio (l_callback x)))"

fun disciplined :: "(nat \<Rightarrow> int) \<Rightarrow> ev_op \<Rightarrow> bool" where
  "disciplined prio (Once ty cb p) \<longleftrightarrow> p = prio cb"
| "disciplined prio (Listen ty cb p) \<longleftrightarrow> p = prio cb"
| "disciplined prio (Unlisten ty cb) \<longleftrightarrow> True"

lemma key_of_cong:
  "l_callback x = l_callback y \<Longrightarrow> l_priority x = l_priority y \<Longrightarrow> key_of x = key_of y"
  by (simp add: key_of_def)

lemma ev_list_upd [simp]: "ev_list (d(ty \<mapsto> xs)) ty' = (if ty' = ty then xs else ev_list d ty')"
  by (simp add: ev_list_def)

text \<open>What a dispatcher promises: which callbacks of a type are registered, and how.\<close>

definition registered :: "dispatcher \<Rightarrow> int \<Rightarrow> (nat \<times> bool) set" where
  "registered d ty = (\<lambda>x. (l_callback x, l_once x)) ` set (ev_list d ty)"

lemma ev_inv_list: "ev_inv prio d \<Longrightarrow> in_order (ev_list d ty)"
  and ev_inv_prio: "ev_inv prio d \<Longrightarrow> x \<in> set (ev_list d ty) \<Longrightarrow> l_priority x = prio (l_callback x)"
  by (auto simp: ev_inv_def)

lemma ev_inv_upd:
  "ev_inv prio d \<Longrightarrow> in_order xs \<Longrightarrow> \<forall>x\<in>set xs. l_priority x = prio (l_callback x)
     \<Longrightarrow> ev_inv prio (d(ty \<mapsto> xs))"
  by (simp add: ev_inv_def)

lemma callbacks_distinct:
  assumes "ev_inv prio d"
  shows "distinct (map l_callback (ev_list d ty))"
proof -
  have "inj_on l_callback (set (ev_list d ty))"
  proof (rule inj_onI)
    fix x y assume xy: "x \<in> set (ev_list d ty)" "y \<in> set (ev_list d ty)" "l_callback x = l_callback y"
    then have "key_of x = key_of y"
      using ev_inv_prio [OF assms] by (intro key_of_cong) auto
    then show "x = y" using in_order_inj [OF ev_inv_list [OF assms]] xy by (auto dest: inj_onD)
  qed
  then show ?thesis using in_order_distinct [OF ev_inv_list [OF assms, of ty]]
    by (simp add: distinct_map)
qed

lemma registered_callbacks: "fst ` registered d ty = l_callback ` set (ev_list d ty)"
  by (simp add: registered_def image_image)

text \<open>Registering: no error, the order is kept, the callback has the new flag.\<close>

lemma ev_register_ok:
  assumes inv: "ev_inv prio d" and p: "p = prio cb"
  shows "\<exists>d'. ev_register o1 ty cb p d = Inr d' \<and> ev_inv prio d'
    \<and> registered d' ty = insert (cb, o1) (registered d ty - {cb} \<times> UNIV)
    \<and> (\<forall>ty'. ty' \<noteq> ty \<longrightarrow> registered d' ty' = registered d ty')"
proof (cases "overwrite cb p o1 (ev_list d ty)")
  case None
  then have new: "cb \<notin> l_callback ` set (ev_list d ty)" by (simp add: overwrite_None)
  let ?x = "\<lparr>l_callback = cb, l_priority = p, l_once = o1\<rparr>"
  let ?ys = "insert_sorted ?x (ev_list d ty)"
  have "key_of ?x \<notin> key_of ` set (ev_list d ty)"
    using new by (auto simp: key_of_def)
  then have s: "set ?ys = insert ?x (set (ev_list d ty))" by (rule set_insert_sorted)
  have "ev_register o1 ty cb p d = Inr (d(ty \<mapsto> ?ys))"
    using None ev_inv_list [OF inv] by (simp add: ev_register_def Let_def set_insert_def)
  moreover have "ev_inv prio (d(ty \<mapsto> ?ys))"
    using in_order_insert [OF ev_inv_list [OF inv]] ev_inv_prio [OF inv] p s
    by (intro ev_inv_upd [OF inv]) auto
  moreover have "registered (d(ty \<mapsto> ?ys)) ty = insert (cb, o1) (registered d ty - {cb} \<times> UNIV)"
    using new by (auto simp: registered_def s)
  ultimately show ?thesis by (auto simp: registered_def)
next
  case (Some ys)
  from overwrite_Some [OF Some] obtain us x vs
    where xs: "ev_list d ty = us @ x # vs" and cb: "l_callback x = cb"
    and ys: "ys = us @ x\<lparr>l_once := o1, l_priority := p\<rparr> # vs" by blast
  let ?x = "x\<lparr>l_once := o1, l_priority := p\<rparr>"
  have "l_priority x = p" using ev_inv_prio [OF inv, of x ty] xs cb p by simp
  then have key: "key_of ?x = key_of x" by (simp add: key_of_def)
  have out: "cb \<notin> l_callback ` set us" "cb \<notin> l_callback ` set vs"
    using callbacks_distinct [OF inv, of ty] xs cb by auto
  have "in_order ys" using ev_inv_list [OF inv, of ty] by (simp add: in_order_def xs ys key)
  moreover have "\<forall>y\<in>set ys. l_priority y = prio (l_callback y)"
    using ev_inv_prio [OF inv, of _ ty] cb p by (auto simp: xs ys)
  ultimately have "ev_inv prio (d(ty \<mapsto> ys))" by (intro ev_inv_upd [OF inv])
  moreover have "registered (d(ty \<mapsto> ys)) ty = insert (cb, o1) (registered d ty - {cb} \<times> UNIV)"
    using out cb by (auto simp: registered_def xs ys image_iff)
  ultimately show ?thesis using Some by (auto simp: ev_register_def Let_def registered_def)
qed

lemma erase_callback_set:
  "distinct (map l_callback xs) \<Longrightarrow> set (erase_callback cb xs) = {x \<in> set xs. l_callback x \<noteq> cb}"
  by (induction xs) (auto simp: image_iff)

lemma in_order_erase: "in_order xs \<Longrightarrow> in_order (erase_callback cb xs)"
proof (induction xs)
  case Nil
  then show ?case by simp
next
  case (Cons x xs)
  have "set (erase_callback cb xs) \<subseteq> set xs" by (induction xs) auto
  with Cons show ?case by (auto simp: in_order_Cons)
qed

lemma removeEventListener_ok:
  assumes inv: "ev_inv prio d"
  shows "ev_inv prio (removeEventListener ty cb d)"
    and "registered (removeEventListener ty cb d) ty = registered d ty - {cb} \<times> UNIV"
    and "ty' \<noteq> ty \<Longrightarrow> registered (removeEventListener ty cb d) ty' = registered d ty'"
proof -
  let ?ys = "erase_callback cb (ev_list d ty)"
  have s: "set ?ys = {x \<in> set (ev_list d ty). l_callback x \<noteq> cb}"
    by (rule erase_callback_set [OF callbacks_distinct [OF inv]])
  have eq: "ev_list (removeEventListener ty cb d) ty' = (if ty' = ty then ?ys else ev_list d ty')" for ty'
    by (simp add: removeEventListener_def ev_list_def split: option.split)
  show "ev_inv prio (removeEventListener ty cb d)"
    using in_order_erase [OF ev_inv_list [OF inv, of ty]] inv s unfolding ev_inv_def eq by auto
  show "registered (removeEventListener ty cb d) ty = registered d ty - {cb} \<times> UNIV"
    unfolding registered_def eq by (auto simp: s)
  show "ty' \<noteq> ty \<Longrightarrow> registered (removeEventListener ty cb d) ty' = registered d ty'"
    by (simp add: registered_def eq)
qed

section \<open>The registry as a map\<close>

text \<open>The contract: for each type, which callbacks are registered and whether only once.\<close>

type_synonym registry = "int \<Rightarrow> nat \<Rightarrow> bool option"

fun spec_exec :: "ev_op \<Rightarrow> registry \<Rightarrow> registry" where
  "spec_exec (Once ty cb p) m = m(ty := (m ty)(cb \<mapsto> True))"
| "spec_exec (Listen ty cb p) m = m(ty := (m ty)(cb \<mapsto> False))"
| "spec_exec (Unlisten ty cb) m = m(ty := (m ty)(cb := None))"

definition implements :: "dispatcher \<Rightarrow> registry \<Rightarrow> bool" where
  "implements d m \<longleftrightarrow> (\<forall>ty cb o1. (cb, o1) \<in> registered d ty \<longleftrightarrow> m ty cb = Some o1)"

lemma ev_exec_refines:
  assumes "ev_inv prio d" and "implements d m" and "disciplined prio op"
  shows "\<exists>d'. ev_exec op d = Inr d' \<and> ev_inv prio d' \<and> implements d' (spec_exec op m)"
proof (cases op)
  case (Once ty cb p)
  from ev_register_ok [OF assms(1), of p cb True ty] assms(3) Once obtain d'
    where d': "ev_register True ty cb p d = Inr d'" "ev_inv prio d'"
      "registered d' ty = insert (cb, True) (registered d ty - {cb} \<times> UNIV)"
      "\<forall>ty'. ty' \<noteq> ty \<longrightarrow> registered d' ty' = registered d ty'" by auto
  have "implements d' (spec_exec op m)"
    using assms(2) d'(3,4) unfolding implements_def Once by (auto simp: implements_def)
  with d' Once show ?thesis by (simp add: ev_once_def)
next
  case (Listen ty cb p)
  from ev_register_ok [OF assms(1), of p cb False ty] assms(3) Listen obtain d'
    where d': "ev_register False ty cb p d = Inr d'" "ev_inv prio d'"
      "registered d' ty = insert (cb, False) (registered d ty - {cb} \<times> UNIV)"
      "\<forall>ty'. ty' \<noteq> ty \<longrightarrow> registered d' ty' = registered d ty'" by auto
  have "implements d' (spec_exec op m)"
    using assms(2) d'(3,4) unfolding implements_def Listen by (auto simp: implements_def)
  with d' Listen show ?thesis by (simp add: addEventListener_def)
next
  case (Unlisten ty cb)
  have "implements (removeEventListener ty cb d) (spec_exec op m)"
    using assms(2) removeEventListener_ok(2,3) [OF assms(1)]
    unfolding implements_def Unlisten by auto
  with removeEventListener_ok(1) [OF assms(1)] Unlisten show ?thesis by simp
qed

lemma ev_run_refines:
  "ev_inv prio d \<Longrightarrow> implements d m \<Longrightarrow> list_all (disciplined prio) ops
     \<Longrightarrow> \<exists>d'. runE ev_exec ops d = Inr d' \<and> ev_inv prio d' \<and> implements d' (fold spec_exec ops m)"
proof (induction ops arbitrary: d m)
  case Nil
  then show ?case by simp
next
  case (Cons op ops)
  from ev_exec_refines [OF Cons.prems(1,2)] Cons.prems(3) obtain d1
    where "ev_exec op d = Inr d1" "ev_inv prio d1" "implements d1 (spec_exec op m)" by auto
  with Cons.IH [of d1 "spec_exec op m"] Cons.prems(3) show ?case by simp
qed

definition ev_empty :: dispatcher where
  "ev_empty = (\<lambda>ty. None)"

lemma ev_empty_inv: "ev_inv prio ev_empty" and ev_empty_implements: "implements ev_empty (\<lambda>ty cb. None)"
  by (simp_all add: ev_inv_def ev_empty_def ev_list_def in_order_def implements_def registered_def)

lemma implements_registered: "implements d (\<lambda>ty cb. if (cb, True) \<in> registered d ty then Some True
    else if (cb, False) \<in> registered d ty then Some False else None) \<or> \<not> ev_inv prio d"
proof (cases "ev_inv prio d")
  case True
  have "\<not> ((cb, True) \<in> registered d ty \<and> (cb, False) \<in> registered d ty)" for cb ty
    using callbacks_distinct [OF True, of ty]
    by (auto simp: registered_def distinct_map dest: inj_onD)
  then show ?thesis by (auto simp: implements_def split: if_splits) (metis (full_types))+
qed simp

section \<open>Dispatching\<close>

lemma set_erase_ok:
  assumes "ev_inv prio d" 
  shows "\<exists>ys. set_erase x (ev_list d ty) = Inr ys \<and> ev_inv prio (d(ty \<mapsto> ys))"
  using assms ev_inv_list [OF assms, of ty] ev_inv_prio [OF assms, of _ ty]
  by (auto simp: set_erase_def intro!: ev_inv_upd in_order_filter)

lemma dispatch_loop_calls:
  "ev_inv prio d \<Longrightarrow> (\<And>cb. list_all (disciplined prio) (script cb))
     \<Longrightarrow> \<exists>d'. dispatch_loop script ty xs d = Inr (map l_callback xs, d') \<and> ev_inv prio d'"
proof (induction xs arbitrary: d)
  case Nil
  then show ?case by simp
next
  case (Cons x xs)
  obtain m where m: "implements d m" using implements_registered [of d prio] Cons.prems(1) by blast
  obtain d1 where d1: "runE ev_exec (script (l_callback x)) d = Inr d1" "ev_inv prio d1"
    using ev_run_refines [OF Cons.prems(1) m Cons.prems(2)] by blast
  show ?case
  proof (cases "l_once x")
    case True
    obtain ys where ys: "set_erase x (ev_list d1 ty) = Inr ys" and i: "ev_inv prio (d1(ty \<mapsto> ys))"
      using set_erase_ok [OF d1(2)] by blast
    from Cons.IH [OF i Cons.prems(2)] obtain d'
      where "dispatch_loop script ty xs (d1(ty \<mapsto> ys)) = Inr (map l_callback xs, d')"
        and "ev_inv prio d'" by blast
    with d1 True ys show ?thesis by simp
  next
    case False
    from Cons.IH [OF d1(2) Cons.prems(2)] d1 False show ?thesis by auto
  qed
qed

lemma dispatch_loop_quiet:
  assumes "in_order (ev_list d ty)" and "ev_list d ty = us @ xs"
    and "\<forall>x\<in>set us. \<not> l_once x"
  shows "dispatch_loop (\<lambda>cb. []) ty xs d =
    Inr (map l_callback xs, if \<exists>x\<in>set xs. l_once x
      then d(ty \<mapsto> us @ filter (\<lambda>x. \<not> l_once x) xs) else d)"
  using assms
proof (induction xs arbitrary: d us)
  case Nil
  then show ?case by simp
next
  case (Cons x xs)
  show ?case
  proof (cases "l_once x")
    case True
    have key: "key_of y \<noteq> key_of x" if "y \<in> set us \<union> set xs" for y
      using Cons.prems(1,2) that by (auto simp: in_order_def sorted_wrt_append)
    have "set_erase x (ev_list d ty) = Inr (us @ xs)"
      using Cons.prems(1) key by (auto simp: set_erase_def Cons.prems(2) filter_empty_conv filter_id_conv)
    moreover have o2: "in_order (us @ xs)"
      using in_order_filter [OF Cons.prems(1), of "\<lambda>y. key_of y \<noteq> key_of x"] key
      by (auto simp: Cons.prems(2) filter_id_conv)
    moreover have "dispatch_loop (\<lambda>cb. []) ty xs (d(ty \<mapsto> us @ xs)) = Inr (map l_callback xs,
        if \<exists>x\<in>set xs. l_once x
        then (d(ty \<mapsto> us @ xs))(ty \<mapsto> us @ filter (\<lambda>x. \<not> l_once x) xs) else d(ty \<mapsto> us @ xs))"
      using Cons.prems(3) o2 by (intro Cons.IH) (simp_all del: fun_upd_apply)
    moreover have "filter (\<lambda>x. \<not> l_once x) xs = xs" if "\<not> (\<exists>x\<in>set xs. l_once x)"
      using that by (simp add: filter_id_conv)
    ultimately show ?thesis
      using True by (cases "\<exists>x\<in>set xs. l_once x") (simp_all del: fun_upd_apply)
  next
    case False
    have "dispatch_loop (\<lambda>cb. []) ty xs d = Inr (map l_callback xs, if \<exists>x\<in>set xs. l_once x
        then d(ty \<mapsto> (us @ [x]) @ filter (\<lambda>x. \<not> l_once x) xs) else d)"
      using Cons.prems False by (intro Cons.IH) auto
    with False show ?thesis by auto
  qed
qed

section \<open>Signals and pools\<close>

lemma notify_loop_calls: "fst (notify_loop script cbs s) = cbs"
  by (induction cbs arbitrary: s) (simp_all add: case_prod_unfold Let_def)

datatype 'o pool_op = Alloc 'o | Free "'o option"

text \<open>
  A program with a pool: the objects it holds, and the pool. \<open>Alloc\<close> carries the object
  that would be made; \<open>Free\<close> gives one of the held pointers back.
\<close>

fun pool_exec :: "nat \<Rightarrow> 'o pool_op \<Rightarrow> 'o option multiset \<times> 'o option list
    \<Rightarrow> 'o option multiset \<times> 'o option list" where
  "pool_exec cap (Alloc x) (held, p) = (let (obj, q) = pool_alloc x p in (add_mset obj held, q))"
| "pool_exec cap (Free obj) (held, p) =
     (if obj \<in># held then let (left, q) = pool_free cap obj p in (add_mset left (held - {#obj#}), q)
      else (held, p))"

abbreviation without_null :: "'o option multiset \<Rightarrow> 'o option multiset" where
  "without_null \<equiv> filter_mset (\<lambda>y. y \<noteq> None)"

lemma pool_alloc_conserves:
  "pool_alloc x p = (obj, q) \<Longrightarrow> add_mset obj (mset q) = (if p = [] then {#Some x#} else mset p)"
  by (cases p rule: rev_cases) (auto simp: pool_alloc_def)

lemma pool_free_conserves:
  "pool_free cap obj p = (left, q) \<Longrightarrow>
     without_null (add_mset left (mset q)) = without_null (add_mset obj (mset p))"
  by (auto simp: pool_free_def split: if_splits)

lemma pool_exec_conserves:
  assumes "pool_exec cap op (held, p) = (h1, p1)"
  shows "\<exists>new. without_null (h1 + mset p1) = without_null (held + mset p) + new
      \<and> set_mset new \<subseteq> {Some x | x. op = Alloc x} \<and> length p1 \<le> max (length p) cap"
proof (cases op)
  case (Alloc x)
  obtain obj q where a: "pool_alloc x p = (obj, q)" by fastforce
  have "add_mset obj (mset q) = (if p = [] then {#Some x#} else mset p)"
    using a by (rule pool_alloc_conserves)
  moreover have "h1 = add_mset obj held" "p1 = q" using assms Alloc a by simp_all
  moreover have "length q \<le> length p" using a by (auto simp: pool_alloc_def split: if_splits)
  ultimately have "h1 + mset p1 = held + (if p = [] then {#Some x#} else mset p)"
    by (simp flip: union_mset_add_mset_right)
  with \<open>p1 = q\<close> \<open>length q \<le> length p\<close> Alloc show ?thesis
    by (intro exI [of _ "if p = [] then {#Some x#} else {#}"]) auto
next
  case (Free obj)
  show ?thesis
  proof (cases "obj \<in># held")
    case True
    obtain left q where f: "pool_free cap obj p = (left, q)" by fastforce
    have eq: "h1 = add_mset left (held - {#obj#})" "p1 = q" using assms Free True f by simp_all
    have "h1 + mset p1 = (held - {#obj#}) + add_mset left (mset q)" by (simp add: eq)
    then have "without_null (h1 + mset p1)
        = without_null (held - {#obj#}) + without_null (add_mset left (mset q))"
      by (simp only: filter_union_mset)
    also have "\<dots> = without_null (held - {#obj#}) + without_null (add_mset obj (mset p))"
      using pool_free_conserves [OF f] by simp
    also have "\<dots> = without_null (add_mset obj (held - {#obj#}) + mset p)"
      by (simp only: filter_union_mset [symmetric] union_mset_add_mset_left union_mset_add_mset_right)
    also have "\<dots> = without_null (held + mset p)" using True by simp
    finally have "without_null (h1 + mset p1) = without_null (held + mset p) + {#}" by simp
    moreover have "length p1 \<le> max (length p) cap"
      using f eq by (auto simp: pool_free_def split: if_splits)
    ultimately show ?thesis by (intro exI [of _ "{#}"]) simp
  next
    case False
    with assms Free show ?thesis by (intro exI [of _ "{#}"]) simp
  qed
qed

section \<open>Properties\<close>



text \<open>A one-time listener fires once: a dispatch whose callbacks leave the dispatcher
  alone erases exactly the listeners registered with \<^verbatim>\<open>once\<close> and keeps the others.\<close>

theorem ev_once_fires_once:
  assumes "ev_inv prio d"
  shows "\<exists>d'. dispatchEvent (\<lambda>cb. []) ty d = Inr (map l_callback (ev_list d ty), d')
    \<and> ev_list d' ty = filter (\<lambda>x. \<not> l_once x) (ev_list d ty)
    \<and> (\<forall>ty'. ty' \<noteq> ty \<longrightarrow> d' ty' = d ty')"
proof (cases "d ty")
  case None
  then show ?thesis by (simp add: dispatchEvent_def ev_list_def)
next
  case (Some xs)
  then have l: "ev_list d ty = [] @ xs" by (simp add: ev_list_def)
  from dispatch_loop_quiet [OF ev_inv_list [OF assms] l] Some show ?thesis
    by (auto simp: dispatchEvent_def ev_list_def filter_id_conv)
qed

theorem ev_once_fires_once_witness:
  "\<exists>d d'. dispatchEvent (\<lambda>cb. []) 0 d = Inr ([2, 1], d')
     \<and> ev_list d' 0 = [\<lparr>l_callback = 1, l_priority = 1, l_once = False\<rparr>]"
proof -
  let ?d = "(\<lambda>ty. None)(0 \<mapsto> [\<lparr>l_callback = 2, l_priority = 2, l_once = True\<rparr>,
    \<lparr>l_callback = 1, l_priority = 1, l_once = False\<rparr>])"
  have i: "ev_inv (\<lambda>cb :: nat. int cb) ?d"
    by (auto simp: ev_inv_def ev_list_def in_order_def key_of_def less_key_def callback_less_def)
  show ?thesis using ev_once_fires_once [OF i, of 0] by (auto simp: ev_list_def)
qed



text \<open>\<^verbatim>\<open>notify\<close> calls every callback that is connected when it starts, each exactly
  once, whatever the callbacks add or remove meanwhile. Of the hash set's iteration order only
  that it visits each element once is used.\<close>

theorem sig_notify_snapshot:
  assumes "\<And>S. finite S \<Longrightarrow> set (iteration S) = S \<and> distinct (iteration S)" and "finite S"
  shows "set (fst (notify iteration script S)) = S \<and> distinct (fst (notify iteration script S))"
  using assms(1) [OF assms(2)] by (simp add: notify_def notify_loop_calls)

theorem sig_notify_snapshot_witness:
  "set (fst (notify sorted_list_of_set (\<lambda>cb. [Sig_remove 2, Sig_add 5]) {1, 2})) = {1, 2 :: nat}"
  using sig_notify_snapshot [of sorted_list_of_set "{1, 2 :: nat}" "\<lambda>cb. [Sig_remove 2, Sig_add 5]"]
  by simp

text \<open>The pool neither loses nor duplicates an object and never grows beyond its
  capacity: under any sequence of \<^verbatim>\<open>alloc\<close> and \<^verbatim>\<open>free\<close>, the objects held and pooled together
  are those at the start plus those newly made.\<close>

theorem pool_conserves:
  assumes "fold (pool_exec cap) ops (held, p) = (held', p')"
  shows "(\<exists>made. without_null (held' + mset p') = without_null (held + mset p) + made
      \<and> set_mset made \<subseteq> {Some x | x. Alloc x \<in> set ops})
    \<and> length p' \<le> max (length p) cap"
  using assms
proof (induction ops arbitrary: held p)
  case Nil
  then show ?case by (auto intro: exI [of _ "{#}"])
next
  case (Cons op ops)
  obtain h1 p1 where 1: "pool_exec cap op (held, p) = (h1, p1)" by fastforce
  from pool_exec_conserves [OF 1] obtain new where new:
    "without_null (h1 + mset p1) = without_null (held + mset p) + new"
    "set_mset new \<subseteq> {Some x | x. op = Alloc x}" "length p1 \<le> max (length p) cap" by blast
  have "fold (pool_exec cap) ops (h1, p1) = (held', p')" using Cons.prems 1 by simp
  from Cons.IH [OF this] obtain made where made:
    "without_null (held' + mset p') = without_null (h1 + mset p1) + made"
    "set_mset made \<subseteq> {Some x | x. Alloc x \<in> set ops}" "length p' \<le> max (length p1) cap" by blast
  have "without_null (held' + mset p') = without_null (held + mset p) + (new + made)"
    using made(1) new(1) by (simp add: ac_simps)
  moreover have "set_mset (new + made) \<subseteq> {Some x | x. Alloc x \<in> set (op # ops)}"
    using made(2) new(2) by auto
  moreover have "length p' \<le> max (length p) cap" using made(3) new(3) by simp
  ultimately show ?case by blast
qed

theorem pool_conserves_witness:
  "length (snd (fold (pool_exec 1) [Alloc (5 :: nat), Free (Some 5), Free (Some 9)] ({#Some 9#}, []))) \<le> 1"
proof -
  obtain h p where "fold (pool_exec 1) [Alloc (5 :: nat), Free (Some 5), Free (Some 9)] ({#Some 9#}, []) = (h, p)"
    by fastforce
  from pool_conserves [OF this] this show ?thesis by simp
qed

subsection \<open>Corners\<close>

text \<open>
  Registering a callback again with another priority moves nothing: the set is out of order
  afterwards, and the next insertion searches in it.
\<close>

lemma priority_change_breaks_order:
  "map_sum id (\<lambda>d. ()) (runE ev_exec [Listen 0 1 5, Listen 0 2 3, Listen 0 1 1, Listen 0 3 2] ev_empty)
     = Inl Undefined_behaviour"
  by code_simp

text \<open>A listener that an earlier callback of the same dispatch removes is called all the same.\<close>

lemma removed_listener_still_called:
  "map_sum id fst (bindE (runE ev_exec [Listen 0 1 5, Listen 0 2 3] ev_empty)
     (dispatchEvent (\<lambda>cb. if cb = 1 then [Unlisten 0 2] else []) 0)) = Inr [1, 2]"
  by code_simp

text \<open>Giving back a pointer that has been given back already puts a null pointer in the pool.\<close>

lemma pool_null: "fst (pool_alloc x (snd (pool_free 2000 (fst (pool_free 2000 (Some y) p)) (snd (pool_free 2000 (Some y) p))))) = None
    \<or> 1999 \<le> length p"
  by (auto simp: pool_free_def pool_alloc_def)

end
