(* ===== verification/Sony_Flake.thy ===== *)
theory Sony_Flake
  imports Prelude
begin

text \<open>
  Model of \<^verbatim>\<open>ws::core::Sonyflake\<close> (include/ws/core/Sonyflake.h), the generator of unique
  64-bit ids. The steady clock is a parameter: \<open>clk i\<close> is the number of milliseconds since
  the generator was made at its i-th reading. Every operation takes the number of the next
  reading and returns the number of the one after its last. The debug counters are left out.
\<close>

section \<open>State and operations\<close>

record sonyflake =
  sf_lastTick :: u64
  sf_startSystime :: u64
  sf_machineId :: u16
  sf_sequence :: "8 word"

definition sf_startEpoch :: u64 where
  "sf_startEpoch = 1704067200000"

text \<open>\<open>now\<close> is \<^verbatim>\<open>TimeTool::getUnixtime()\<close>.\<close>

definition sf_new :: "u64 \<Rightarrow> u16 \<Rightarrow> sonyflake" where
  "sf_new now machineId =
     \<lparr>sf_lastTick = 0, sf_startSystime = now - sf_startEpoch, sf_machineId = machineId,
      sf_sequence = 0\<rparr>"

definition set_machineId :: "u16 \<Rightarrow> sonyflake \<Rightarrow> sonyflake" where
  "set_machineId m s = s\<lparr>sf_machineId := m\<rparr>"

definition getCurrentTime :: "(nat \<Rightarrow> nat) \<Rightarrow> nat \<Rightarrow> sonyflake \<Rightarrow> u64" where
  "getCurrentTime clk i s = sf_startSystime s + word_of_nat (clk i)"

text \<open>The loop of \<^verbatim>\<open>waitNextTick\<close>; sleeping and yielding only let time pass.\<close>

partial_function (option) wait_loop ::
    "(nat \<Rightarrow> nat) \<Rightarrow> sonyflake \<Rightarrow> u64 \<Rightarrow> u64 \<Rightarrow> nat \<Rightarrow> (u64 \<times> nat) option" where
  "wait_loop clk s nxt now i =
     (if 0 < sint (nxt - now) then wait_loop clk s nxt (getCurrentTime clk i s) (Suc i)
      else Some (now, i))"

declare wait_loop.simps [code]

definition waitNextTick :: "(nat \<Rightarrow> nat) \<Rightarrow> sonyflake \<Rightarrow> u64 \<Rightarrow> nat \<Rightarrow> (u64 \<times> nat) option" where
  "waitNextTick clk s nxt i = wait_loop clk s nxt (getCurrentTime clk i s) (Suc i)"

definition sf_compose :: "u64 \<Rightarrow> u16 \<Rightarrow> 8 word \<Rightarrow> u64" where
  "sf_compose tick machineId sequence =
     push_bit 24 tick OR push_bit 8 (ucast machineId) OR ucast sequence"

definition nextId :: "(nat \<Rightarrow> nat) \<Rightarrow> nat \<Rightarrow> sonyflake \<Rightarrow> (u64 \<times> nat \<times> sonyflake) option" where
  "nextId clk i s =
     (let currentTick = getCurrentTime clk i s div 10 in
      case
        (if currentTick = sf_lastTick s then
           let s1 = s\<lparr>sf_sequence := sf_sequence s + 1\<rparr> in
           if sf_sequence s1 = 0 then
             (case waitNextTick clk s1 ((sf_lastTick s1 + 1) * 10) (Suc i) of
                None \<Rightarrow> None
              | Some (now, j) \<Rightarrow> Some (now div 10, j, s1))
           else Some (currentTick, Suc i, s1)
         else Some (currentTick, Suc i, s\<lparr>sf_sequence := 0\<rparr>))
      of None \<Rightarrow> None
       | Some (cur, j, s1) \<Rightarrow>
           let s2 = s1\<lparr>sf_lastTick := cur\<rparr> in
           Some (sf_compose (sf_lastTick s2) (sf_machineId s2) (sf_sequence s2), j, s2))"

text \<open>A number of ids in a row.\<close>

fun sf_run :: "nat \<Rightarrow> (nat \<Rightarrow> nat) \<Rightarrow> nat \<Rightarrow> sonyflake \<Rightarrow> (u64 list \<times> nat \<times> sonyflake) option" where
  "sf_run 0 clk i s = Some ([], i, s)"
| "sf_run (Suc n) clk i s =
     (case nextId clk i s of
        None \<Rightarrow> None
      | Some (x, j, s1) \<Rightarrow>
          (case sf_run n clk j s1 of None \<Rightarrow> None | Some (xs, k, s2) \<Rightarrow> Some (x # xs, k, s2)))"

section \<open>The layout of an id\<close>

lemma or_as_add: "x < 2 ^ n \<Longrightarrow> push_bit n y OR x = y * 2 ^ n + (x :: nat)"
proof -
  assume "x < 2 ^ n"
  then have "take_bit n x = x" by (simp add: take_bit_nat_eq_self)
  then have low: "bit x k \<Longrightarrow> k < n" for k by (metis bit_take_bit_iff)
  have "push_bit n y + x = push_bit n y OR x"
    by (intro disjunctive_add) (auto simp: bit_push_bit_iff dest: low)
  then show ?thesis by (simp add: push_bit_eq_mult)
qed

lemma unat_sf_compose:
  assumes "unat tick < 2 ^ 40"
  shows "unat (sf_compose tick m q) = unat tick * 2 ^ 24 + unat m * 2 ^ 8 + unat q"
proof -
  have q: "unat q < 2 ^ 8" and m: "unat m < 2 ^ 16"
    using unsigned_less [of q, where 'a = nat] unsigned_less [of m, where 'a = nat] by simp_all
  have um: "unat (push_bit 8 (ucast m :: u64)) = push_bit 8 (unat m)"
    using m by (simp add: push_bit_eq_mult unat_word_ariths unsigned_ucast_eq take_bit_nat_eq_self)
  have uq: "unat (ucast q :: u64) = unat q"
    using q by (simp add: unsigned_ucast_eq take_bit_nat_eq_self)
  have ut: "unat (push_bit 24 tick) = push_bit 24 (unat tick)"
    using assms by (simp add: push_bit_eq_mult unat_word_ariths)
  have "unat (sf_compose tick m q) = push_bit 24 (unat tick) OR (push_bit 8 (unat m) OR unat q)"
    by (simp add: sf_compose_def unsigned_or_eq um uq ut ac_simps)
  also have "push_bit 8 (unat m) OR unat q = unat m * 2 ^ 8 + unat q" using q by (rule or_as_add)
  also have "push_bit 24 (unat tick) OR (unat m * 2 ^ 8 + unat q)
      = unat tick * 2 ^ 24 + (unat m * 2 ^ 8 + unat q)"
    using q m by (intro or_as_add) simp
  finally show ?thesis by simp
qed

section \<open>Time\<close>

definition time_at :: "(nat \<Rightarrow> nat) \<Rightarrow> sonyflake \<Rightarrow> nat \<Rightarrow> nat" where
  "time_at clk s i = unat (sf_startSystime s) + clk i"

definition sf_limit :: nat where
  "sf_limit = 10 * 2 ^ 39"

lemma getCurrentTime_nat:
  "time_at clk s i < 2 ^ 64 \<Longrightarrow> unat (getCurrentTime clk i s) = time_at clk s i"
  by (simp add: getCurrentTime_def time_at_def unat_word_ariths unat_of_nat)

lemma wait_condition:
  fixes a b :: u64
  assumes "unat a < 2 ^ 63" and "unat b < 2 ^ 63"
  shows "0 < sint (a - b) \<longleftrightarrow> unat b < unat a"
proof -
  obtain x y where xy: "unat a = x" "unat b = y" by blast
  let ?d = "int x - int y"
  have lt: "x < 2 ^ 63" "y < 2 ^ 63" using assms xy by simp_all
  have "a = word_of_nat x" "b = word_of_nat y" using xy by auto
  then have "a - b = word_of_int ?d" by simp
  then have "sint (a - b) = sint (word_of_int ?d :: u64)" by (rule arg_cong)
  also have "\<dots> = signed_take_bit 63 ?d"
    by (simp only: sint_sbintrunc') simp
  also have "\<dots> = ?d"
    using lt by (intro signed_take_bit_int_eq_self) simp_all
  finally show ?thesis using xy by simp
qed

text \<open>What the loop returns: its last reading, which is not before the tick it waits for.\<close>

lemma wait_loop_some:
  assumes "wait_loop clk s nxt now i = Some y"
  shows "\<not> 0 < sint (nxt - fst y) \<and>
    (if 0 < sint (nxt - now) then i < snd y \<and> fst y = getCurrentTime clk (snd y - 1) s
     else y = (now, i))"
proof (rule wait_loop.raw_induct [OF _ assms, where P = "\<lambda>clk s nxt now i y.
    \<not> 0 < sint (nxt - fst y) \<and>
    (if 0 < sint (nxt - now) then i < snd y \<and> fst y = getCurrentTime clk (snd y - 1) s
     else y = (now, i))"])
  fix f :: "(nat \<Rightarrow> nat) \<Rightarrow> sonyflake \<Rightarrow> u64 \<Rightarrow> u64 \<Rightarrow> nat \<Rightarrow> (u64 \<times> nat) option"
    and clk s nxt now i y
  assume IH: "\<And>clk s nxt now i y. f clk s nxt now i = Some y \<Longrightarrow>
      \<not> 0 < sint (nxt - fst y) \<and>
      (if 0 < sint (nxt - now) then i < snd y \<and> fst y = getCurrentTime clk (snd y - 1) s
       else y = (now, i))"
    and eq: "(if 0 < sint (nxt - now) then f clk s nxt (getCurrentTime clk i s) (Suc i)
      else Some (now, i)) = Some y"
  show "\<not> 0 < sint (nxt - fst y) \<and>
    (if 0 < sint (nxt - now) then i < snd y \<and> fst y = getCurrentTime clk (snd y - 1) s
     else y = (now, i))"
  proof (cases "0 < sint (nxt - now)")
    case True
    with eq have "f clk s nxt (getCurrentTime clk i s) (Suc i) = Some y" by simp
    from IH [OF this] True show ?thesis by (auto split: if_splits)
  next
    case False
    with eq show ?thesis by auto
  qed
qed

lemma waitNextTick_some:
  assumes "waitNextTick clk s nxt i = Some (now, j)"
  shows "i < j" and "now = getCurrentTime clk (j - 1) s" and "\<not> 0 < sint (nxt - now)"
  using wait_loop_some [OF assms [unfolded waitNextTick_def]] by (auto split: if_splits)

text \<open>It returns as soon as one of the coming readings has reached the tick.\<close>

lemma wait_loop_returns:
  assumes "unat nxt < 2 ^ 63" and "unat nxt \<le> time_at clk s k" and "mono clk"
    and "i \<le> k" and "time_at clk s k < 2 ^ 63"
  shows "\<exists>y. wait_loop clk s nxt now i = Some y"
  using assms(4)
proof (induction "k - i" arbitrary: i now)
  case 0
  then have "i = k" by simp
  have "unat (getCurrentTime clk k s) = time_at clk s k"
    using assms(5) by (intro getCurrentTime_nat) simp
  then have "\<not> 0 < sint (nxt - getCurrentTime clk k s)"
    using assms(1,2,5) wait_condition [of nxt "getCurrentTime clk k s"] by simp
  then show ?case using \<open>i = k\<close> by (simp add: wait_loop.simps [of clk s nxt])
next
  case (Suc n)
  show ?case
  proof (cases "0 < sint (nxt - now)")
    case True
    moreover have "\<exists>y. wait_loop clk s nxt (getCurrentTime clk i s) (Suc i) = Some y"
      using Suc.hyps(2) by (intro Suc.hyps(1)) simp_all
    ultimately show ?thesis by (simp add: wait_loop.simps [of clk s nxt now])
  next
    case False
    then show ?thesis by (simp add: wait_loop.simps [of clk s nxt now])
  qed
qed

section \<open>Ids\<close>

text \<open>
  The invariant between two calls: no coming reading is before the last tick. The tick and the
  sequence number, as one number, grow with every id.
\<close>

definition sf_inv :: "(nat \<Rightarrow> nat) \<Rightarrow> nat \<Rightarrow> sonyflake \<Rightarrow> bool" where
  "sf_inv clk i s \<longleftrightarrow> unat (sf_lastTick s) \<le> time_at clk s i div 10"

definition sf_stamp :: "sonyflake \<Rightarrow> nat" where
  "sf_stamp s = unat (sf_lastTick s) * 256 + unat (sf_sequence s)"

lemma u8_succ: "q + 1 \<noteq> 0 \<Longrightarrow> unat (q + 1 :: 8 word) = unat q + 1"
  by (metis Suc_eq_plus1 add.commute unatSuc)

lemma unat_u8: "unat (q :: 8 word) < 256"
  using unsigned_less [of q, where 'a = nat] by simp

lemma nextId_ok:
  assumes clk: "mono clk" and inv: "sf_inv clk i s" and nx: "nextId clk i s = Some (x, j, s')"
    and bound: "time_at clk s (j - 1) < sf_limit"
  shows "i < j" and "sf_inv clk j s'" and "sf_stamp s < sf_stamp s'"
    and "sf_machineId s' = sf_machineId s" and "sf_startSystime s' = sf_startSystime s"
    and "unat x = unat (sf_lastTick s') * 2 ^ 24 + unat (sf_machineId s') * 2 ^ 8 + unat (sf_sequence s')"
    and "unat (sf_lastTick s') < 2 ^ 39"
proof -
  have t_mono: "time_at clk s k \<le> time_at clk s m" if "k \<le> m" for k m
    using monoD [OF clk that] by (simp add: time_at_def)
  let ?cur = "getCurrentTime clk i s div 10" and ?T = "sf_lastTick s"
  have reading: "unat (getCurrentTime clk k s div 10) = time_at clk s k div 10" if "k \<le> j - 1" for k
  proof -
    have "time_at clk s k < 2 ^ 64"
      using t_mono [OF that] bound by (simp add: sf_limit_def)
    then show ?thesis by (simp add: unat_div getCurrentTime_nat)
  qed
  have lim: "time_at clk s k div 10 < 2 ^ 39" if "k \<le> j - 1" for k
    using t_mono [OF that] bound by (simp add: sf_limit_def less_mult_imp_div_less)
  have *: "i < j \<and> sf_inv clk j s' \<and> sf_stamp s < sf_stamp s' \<and> sf_machineId s' = sf_machineId s
      \<and> sf_startSystime s' = sf_startSystime s \<and> unat (sf_lastTick s') < 2 ^ 39
      \<and> x = sf_compose (sf_lastTick s') (sf_machineId s') (sf_sequence s')"
  proof (cases "?cur = ?T")
    case same: True
    show ?thesis
    proof (cases "sf_sequence s + 1 = 0")
      case False
      with nx same have j: "j = Suc i"
        and s': "s' = s\<lparr>sf_sequence := sf_sequence s + 1, sf_lastTick := ?T\<rparr>"
        and x: "x = sf_compose ?T (sf_machineId s) (sf_sequence s + 1)"
        by (auto simp: nextId_def Let_def)
      have "unat ?T = time_at clk s i div 10" using reading [of i] same j by simp
      then have "sf_inv clk j s'"
        using t_mono [of i j] j by (simp add: sf_inv_def s' time_at_def div_le_mono)
      moreover have "unat ?T < 2 ^ 39" using lim [of i] reading [of i] same j by simp
      ultimately show ?thesis using False by (simp add: s' x j sf_stamp_def u8_succ)
    next
      case True
      let ?s1 = "s\<lparr>sf_sequence := 0\<rparr>" and ?nxt = "(?T + 1) * 10"
      from nx same True obtain now where w: "waitNextTick clk ?s1 ?nxt (Suc i) = Some (now, j)"
        and s': "s' = s\<lparr>sf_sequence := 0, sf_lastTick := now div 10\<rparr>"
        and x: "x = sf_compose (now div 10) (sf_machineId s) 0"
        by (auto simp: nextId_def Let_def split: option.splits)
      have ij: "Suc i < j" and now: "now = getCurrentTime clk (j - 1) s"
        using waitNextTick_some [OF w] by (simp_all add: getCurrentTime_def)
      have T: "unat ?T = time_at clk s i div 10" using reading [of i] same ij by simp
      have T39: "unat ?T < 2 ^ 39" using T lim [of i] ij by simp
      have un: "unat now = time_at clk s (j - 1)"
        unfolding now using bound by (intro getCurrentTime_nat) (simp add: sf_limit_def)
      have unxt: "unat ?nxt = (unat ?T + 1) * 10"
        using T39 by (simp add: unat_word_ariths)
      have "unat ?nxt \<le> unat now"
        using waitNextTick_some(3) [OF w] wait_condition [of ?nxt now] un unxt T39 bound
        by (simp add: sf_limit_def)
      then have gt: "unat ?T + 1 \<le> unat now div 10" using unxt by (simp add: less_eq_div_iff_mult_less_eq)
      have nd: "unat (now div 10) = time_at clk s (j - 1) div 10"
        using reading [of "j - 1"] by (simp add: now)
      have "sf_inv clk j s'"
        using t_mono [of "j - 1" j] nd by (simp add: sf_inv_def s' time_at_def div_le_mono)
      moreover have "sf_stamp s < sf_stamp s'"
        using gt unat_u8 [of "sf_sequence s"] by (simp add: sf_stamp_def s' unat_div)
      moreover have "unat (now div 10) < 2 ^ 39" using nd lim [of "j - 1"] by simp
      ultimately show ?thesis using ij by (simp add: s' x)
    qed
  next
    case False
    with nx have j: "j = Suc i" and s': "s' = s\<lparr>sf_sequence := 0, sf_lastTick := ?cur\<rparr>"
      and x: "x = sf_compose ?cur (sf_machineId s) 0"
      by (auto simp: nextId_def Let_def)
    have c: "unat ?cur = time_at clk s i div 10" using reading [of i] j by simp
    then have "unat ?T < unat ?cur"
      using inv False by (simp add: sf_inv_def le_neq_implies_less unat_arith_simps(3) word_unat_eq_iff)
    then have "sf_stamp s < sf_stamp s'"
      using unat_u8 [of "sf_sequence s"] by (simp add: sf_stamp_def s')
    moreover have "sf_inv clk j s'"
      using t_mono [of i j] c j by (simp add: sf_inv_def s' time_at_def div_le_mono)
    ultimately show ?thesis using c lim [of i] j by (simp add: s' x)
  qed
  then show "i < j" and "sf_inv clk j s'" and "sf_stamp s < sf_stamp s'"
    and "sf_machineId s' = sf_machineId s" and "sf_startSystime s' = sf_startSystime s"
    and l: "unat (sf_lastTick s') < 2 ^ 39" by simp_all
  have "unat (sf_lastTick s') < 2 ^ 40" using l by simp
  from unat_sf_compose [OF this] *
  show "unat x = unat (sf_lastTick s') * 2 ^ 24 + unat (sf_machineId s') * 2 ^ 8 + unat (sf_sequence s')"
    by simp
qed

definition id_value :: "sonyflake \<Rightarrow> nat" where
  "id_value s = unat (sf_lastTick s) * 2 ^ 24 + unat (sf_machineId s) * 2 ^ 8 + unat (sf_sequence s)"

lemma id_value_mono:
  assumes "sf_stamp s < sf_stamp s'" and "sf_machineId s' = sf_machineId s"
  shows "id_value s < id_value s'"
proof -
  have "unat (sf_lastTick s) < unat (sf_lastTick s')
      \<or> unat (sf_lastTick s) = unat (sf_lastTick s') \<and> unat (sf_sequence s) < unat (sf_sequence s')"
    using assms(1) unat_u8 [of "sf_sequence s"] unat_u8 [of "sf_sequence s'"]
    by (auto simp: sf_stamp_def)
  then show ?thesis
    using assms(2) unat_u8 [of "sf_sequence s"]
      unsigned_less [of "sf_machineId s", where 'a = nat] by (auto simp: id_value_def)
qed

lemma id_value_machine: "id_value s div 256 mod 65536 = unat (sf_machineId s)"
proof -
  let ?T = "unat (sf_lastTick s)" and ?m = "unat (sf_machineId s)" and ?q = "unat (sf_sequence s)"
  have "id_value s = ?q + 256 * (?m + 65536 * ?T)" by (simp add: id_value_def)
  moreover have "?q < 256" by (rule unat_u8)
  ultimately have "id_value s div 256 = ?m + 65536 * ?T" by simp
  moreover have "?m < 65536" using unsigned_less [of "sf_machineId s", where 'a = nat] by simp
  ultimately show ?thesis by simp
qed

lemma nextId_reading: "nextId clk i s = Some (x, j, s') \<Longrightarrow> i < j"
  by (auto simp: nextId_def Let_def split: option.splits if_splits dest!: waitNextTick_some(1))

lemma sf_run_reading: "sf_run n clk j s = Some (ys, k, s') \<Longrightarrow> j \<le> k"
proof (induction n arbitrary: j s ys)
  case 0
  then show ?case by simp
next
  case (Suc n)
  then obtain x j1 s1 zs where "nextId clk j s = Some (x, j1, s1)"
    and "sf_run n clk j1 s1 = Some (zs, k, s')" by (auto split: option.splits)
  with Suc.IH nextId_reading show ?case by fastforce
qed

lemma sf_run_ok:
  assumes "mono clk"
  shows "sf_inv clk i s \<Longrightarrow> sf_run n clk i s = Some (xs, k, s')
    \<Longrightarrow> (\<And>m. m < k \<Longrightarrow> time_at clk s m < sf_limit)
    \<Longrightarrow> i \<le> k \<and> sorted_wrt (<) (map unat xs) \<and> length xs = n
      \<and> (\<forall>x\<in>set xs. id_value s < unat x \<and> unat x < 2 ^ 63
          \<and> unat x div 256 mod 65536 = unat (sf_machineId s))"
proof (induction n arbitrary: i s xs)
  case 0
  then show ?case by simp
next
  case (Suc n)
  from Suc.prems(2) obtain x j s1 ys
    where 1: "nextId clk i s = Some (x, j, s1)" and 2: "sf_run n clk j s1 = Some (ys, k, s')"
      and xs: "xs = x # ys"
    by (auto split: option.splits)
  have le: "j \<le> k" using 2 by (rule sf_run_reading)
  have j0: "j \<noteq> 0" using nextId_reading [OF 1] by simp
  then have b: "time_at clk s (j - 1) < sf_limit" using Suc.prems(3) le by simp
  note ok = nextId_ok [OF assms Suc.prems(1) 1 b]
  have x: "unat x = id_value s1" using ok(6) by (simp add: id_value_def)
  have "time_at clk s1 m < sf_limit" if "m < k" for m
    using Suc.prems(3) [OF that] ok(5) by (simp add: time_at_def)
  from Suc.IH [OF ok(2) 2 this]
  have IH: "j \<le> k \<and> sorted_wrt (<) (map unat ys) \<and> length ys = n
      \<and> (\<forall>y\<in>set ys. id_value s1 < unat y \<and> unat y < 2 ^ 63
          \<and> unat y div 256 mod 65536 = unat (sf_machineId s1))" .
  have lt: "id_value s < id_value s1" using ok(3,4) by (rule id_value_mono)
  have "id_value s1 < 2 ^ 63"
    using ok(7) unat_u8 [of "sf_sequence s1"] unsigned_less [of "sf_machineId s1", where 'a = nat]
    by (simp add: id_value_def)
  with IH lt x ok(1,4) id_value_machine [of s1] show ?case by (auto simp: xs)
qed

section \<open>Properties\<close>

text \<open>C20. Ids are unique and ordered: as long as the clock never goes back and time is
  within 39 bits of 10 ms ticks, every id is greater than the one before, the top bit is 0,
  and the machine id can be read back from it, so that generators with different machine ids
  never collide.\<close>

theorem sf_ids_increase:
  assumes "mono clk" and "sf_run n clk i (sf_new now m) = Some (xs, k, s')"
    and "\<forall>j<k. time_at clk (sf_new now m) j < sf_limit"
  shows "sorted_wrt (<) (map unat xs) \<and> length xs = n
    \<and> (\<forall>x\<in>set xs. unat x < 2 ^ 63 \<and> unat x div 256 mod 65536 = unat m)"
proof -
  have "sf_inv clk i (sf_new now m)" by (simp add: sf_inv_def sf_new_def)
  from sf_run_ok [OF assms(1) this assms(2)] assms(3) show ?thesis
    by (auto simp: sf_new_def)
qed

theorem sf_ids_increase_witness:
  "\<exists>xs k s'. sf_run 2 (\<lambda>i. 4 * i) 0 (sf_new 1704067200100 7) = Some (xs, k, s')
     \<and> sorted_wrt (<) (map unat xs) \<and> length xs = 2"
proof -
  let ?clk = "\<lambda>i :: nat. 4 * i" and ?s = "sf_new 1704067200100 7"
  have "map_option (\<lambda>(xs, k, s'). k) (sf_run 2 ?clk 0 ?s) = Some 2" by code_simp
  then obtain xs s' where r: "sf_run 2 ?clk 0 ?s = Some (xs, 2, s')" by auto
  have m: "mono ?clk" by (simp add: mono_def)
  have "\<forall>j<2. time_at ?clk ?s j < sf_limit"
    by (auto simp: time_at_def sf_new_def sf_startEpoch_def sf_limit_def)
  from sf_ids_increase [OF m r this] r show ?thesis by blast
qed

lemma waitNextTick_returns:
  assumes "mono clk" and nx: "unat nxt < 2 ^ 63" "unat nxt \<le> time_at clk s k" "time_at clk s k < 2 ^ 63"
    and "i < k"
  shows "\<exists>y. waitNextTick clk s nxt (Suc i) = Some y"
proof (cases "Suc i = k")
  case True
  have "unat (getCurrentTime clk k s) = time_at clk s k"
    using nx(3) by (intro getCurrentTime_nat) simp
  then have "\<not> 0 < sint (nxt - getCurrentTime clk k s)"
    using nx wait_condition [of nxt "getCurrentTime clk k s"] by simp
  then have "wait_loop clk s nxt (getCurrentTime clk k s) (Suc k) = Some (getCurrentTime clk k s, Suc k)"
    by (subst wait_loop.simps) (simp only: if_False)
  then show ?thesis unfolding waitNextTick_def True by blast
next
  case False
  then have "Suc (Suc i) \<le> k" using assms(5) by simp
  with wait_loop_returns [OF nx(1,2) assms(1) _ nx(3)] show ?thesis by (simp add: waitNextTick_def)
qed

text \<open>C40. \<^verbatim>\<open>nextId\<close> returns, also when the 256 ids of a tick are used up and it has to
  wait, as soon as some later reading of the clock lies in a later tick.\<close>

theorem sf_nextId_returns:
  assumes "mono clk" and "i < k" and "time_at clk s k < sf_limit"
    and "(time_at clk s i div 10 + 1) * 10 \<le> time_at clk s k"
  shows "\<exists>x j s'. nextId clk i s = Some (x, j, s')"
proof (cases "getCurrentTime clk i s div 10 = sf_lastTick s \<and> sf_sequence s + 1 = 0")
  case False
  then show ?thesis by (auto simp: nextId_def Let_def)
next
  case True
  let ?s1 = "s\<lparr>sf_sequence := 0\<rparr>" and ?nxt = "(sf_lastTick s + 1) * 10 :: u64"
  have "time_at clk s i \<le> time_at clk s k"
    using monoD [OF assms(1), of i k] assms(2) by (simp add: time_at_def)
  moreover from this have "unat (getCurrentTime clk i s) = time_at clk s i"
    using assms(3) by (intro getCurrentTime_nat) (simp add: sf_limit_def)
  moreover have "sf_lastTick s = getCurrentTime clk i s div 10" using True by simp
  ultimately have un: "unat ?nxt = (time_at clk s i div 10 + 1) * 10"
    using assms(3) by (simp add: unat_div unat_word_ariths sf_limit_def)
  have t1: "time_at clk ?s1 k = time_at clk s k" by (simp add: time_at_def)
  have "unat ?nxt < 2 ^ 63" "unat ?nxt \<le> time_at clk ?s1 k" "time_at clk ?s1 k < 2 ^ 63"
    unfolding un t1 using assms(3,4) by (simp_all add: sf_limit_def)
  then obtain now j where "waitNextTick clk ?s1 ?nxt (Suc i) = Some (now, j)"
    using waitNextTick_returns [OF assms(1) _ _ _ assms(2)] by fastforce
  with True show ?thesis by (auto simp: nextId_def Let_def)
qed

theorem sf_nextId_returns_witness:
  "\<exists>x j s'. nextId (\<lambda>i. 3 * i) 0 ((sf_new 1704067200100 7)\<lparr>sf_lastTick := 10, sf_sequence := 255\<rparr>)
     = Some (x, j, s')"
  by (rule sf_nextId_returns [of _ _ 4])
    (simp_all add: mono_def time_at_def sf_new_def sf_startEpoch_def sf_limit_def)

end
