(* ===== verification/Binary_Heap.thy ===== *)
theory Binary_Heap
  imports Prelude
begin

text \<open>
  \<^verbatim>\<open>std::push_heap\<close> and \<^verbatim>\<open>std::pop_heap\<close> as wsCore/src/AStar.cpp uses them, on a vector of
  items with the comparison \<^verbatim>\<open>a.f > b.f\<close>: a binary heap with the least f in front. The
  locale \<open>priority_queue\<close> states what the C++ standard promises of the two; the theory
  interprets it on the sift-up and sift-down model.
\<close>

section \<open>The contract\<close>

locale priority_queue =
  fixes push :: "('k::linorder \<times> 'v) \<Rightarrow> 'q \<Rightarrow> 'q"
    and pop :: "'q \<Rightarrow> (('k \<times> 'v) \<times> 'q) option"
    and items :: "'q \<Rightarrow> ('k \<times> 'v) multiset"
    and ordered :: "'q \<Rightarrow> bool"
  assumes push_items: "items (push x q) = add_mset x (items q)"
    and push_ordered: "ordered q \<Longrightarrow> ordered (push x q)"
    and pop_None: "pop q = None \<longleftrightarrow> items q = {#}"
    and pop_items: "pop q = Some (x, r) \<Longrightarrow> items q = add_mset x (items r)"
    and pop_ordered: "ordered q \<Longrightarrow> pop q = Some (x, r) \<Longrightarrow> ordered r"
    and pop_least: "ordered q \<Longrightarrow> pop q = Some (x, r) \<Longrightarrow> y \<in># items q \<Longrightarrow> fst x \<le> fst y"
begin

text \<open>Taking everything out yields the keys in ascending order.\<close>

fun drain :: "nat \<Rightarrow> 'q \<Rightarrow> ('k \<times> 'v) list" where
  "drain 0 q = []"
| "drain (Suc n) q = (case pop q of None \<Rightarrow> [] | Some (x, r) \<Rightarrow> x # drain n r)"

lemma drain_sorted:
  "ordered q \<Longrightarrow> sorted (map fst (drain n q)) \<and> set (drain n q) \<subseteq> set_mset (items q)"
proof (induction n arbitrary: q)
  case 0
  then show ?case by simp
next
  case (Suc n)
  show ?case
  proof (cases "pop q")
    case None
    then show ?thesis by simp
  next
    case (Some p)
    obtain x r where p: "p = (x, r)" by fastforce
    have IH: "sorted (map fst (drain n r)) \<and> set (drain n r) \<subseteq> set_mset (items r)"
      using Suc pop_ordered Some p by blast
    have i: "items q = add_mset x (items r)" using Some p pop_items by simp
    have "fst x \<le> fst y" if "y \<in> set (drain n r)" for y
      using pop_least [OF Suc.prems, of x r y] Some p IH i that by auto
    with IH i show ?thesis by (auto simp: Some p)
  qed
qed

end

section \<open>The two algorithms on vectors\<close>

type_synonym ('k, 'v) heap_items = "('k \<times> 'v) list"

definition swap_at :: "nat \<Rightarrow> nat \<Rightarrow> 'x list \<Rightarrow> 'x list" where
  "swap_at i j xs = xs[i := xs ! j, j := xs ! i]"

definition par :: "nat \<Rightarrow> nat" where
  "par i = (i - 1) div 2"

fun sift_up :: "nat \<Rightarrow> ('k::linorder, 'v) heap_items \<Rightarrow> ('k, 'v) heap_items" where
  "sift_up 0 xs = xs"
| "sift_up (Suc i) xs =
     (let p = i div 2 in
      if fst (xs ! Suc i) < fst (xs ! p) then sift_up p (swap_at (Suc i) p xs) else xs)"

definition least_child :: "nat \<Rightarrow> ('k::linorder, 'v) heap_items \<Rightarrow> nat" where
  "least_child i xs =
     (let l = 2 * i + 1; r = 2 * i + 2 in
      if r < length xs \<and> fst (xs ! r) < fst (xs ! l) then r else l)"

function sift_down :: "nat \<Rightarrow> ('k::linorder, 'v) heap_items \<Rightarrow> ('k, 'v) heap_items" where
  "sift_down i xs =
     (if 2 * i + 1 < length xs
      then let c = least_child i xs in
           if fst (xs ! c) < fst (xs ! i) then sift_down c (swap_at i c xs) else xs
      else xs)"
  by pat_completeness auto

lemma least_child_cases:
  "2 * i + 1 < length xs \<Longrightarrow> i < least_child i xs \<and> least_child i xs < length xs
     \<and> par (least_child i xs) = i"
  by (simp add: least_child_def Let_def par_def)

lemma length_swap_at [simp]: "length (swap_at i j xs) = length xs"
  by (simp add: swap_at_def)

termination sift_down
proof (relation "measure (\<lambda>(i, xs). length xs - i)", goal_cases)
  case (2 i xs c)
  with least_child_cases [of i xs] show ?case by (simp add: diff_less_mono2)
qed simp

declare sift_down.simps [simp del]

definition heap_push :: "('k::linorder \<times> 'v) \<Rightarrow> ('k, 'v) heap_items \<Rightarrow> ('k, 'v) heap_items" where
  "heap_push x xs = sift_up (length xs) (xs @ [x])"

text \<open>\<^verbatim>\<open>pop_heap\<close>, then \<^verbatim>\<open>back\<close> and \<^verbatim>\<open>pop_back\<close>.\<close>

definition heap_pop :: "('k::linorder, 'v) heap_items \<Rightarrow> (('k \<times> 'v) \<times> ('k, 'v) heap_items) option" where
  "heap_pop xs =
     (if xs = [] then None
      else Some (hd xs, sift_down 0 (butlast (swap_at 0 (length xs - 1) xs))))"

section \<open>Correctness\<close>

lemma mset_swap_at: "i < length xs \<Longrightarrow> j < length xs \<Longrightarrow> mset (swap_at i j xs) = mset xs"
  by (simp add: swap_at_def mset_swap)

lemma length_sift_up [simp]: "length (sift_up i xs) = length xs"
  by (induction i xs rule: sift_up.induct) (simp_all add: Let_def)

lemma length_sift_down [simp]: "length (sift_down i xs) = length xs"
  by (induction i xs rule: sift_down.induct) (subst sift_down.simps, simp add: Let_def)

lemma mset_sift_up: "i < length xs \<Longrightarrow> mset (sift_up i xs) = mset xs"
  by (induction i xs rule: sift_up.induct) (auto simp: Let_def mset_swap_at)

lemma mset_sift_down: "mset (sift_down i xs) = mset xs"
proof (induction i xs rule: sift_down.induct)
  case (1 i xs)
  show ?case
    using 1 least_child_cases [of i xs]
    by (subst sift_down.simps) (auto simp: Let_def mset_swap_at)
qed

text \<open>A heap: no item is below its parent. While sifting, one position may violate that.\<close>

definition is_heap :: "('k::linorder, 'v) heap_items \<Rightarrow> bool" where
  "is_heap xs \<longleftrightarrow> (\<forall>j. 0 < j \<and> j < length xs \<longrightarrow> fst (xs ! par j) \<le> fst (xs ! j))"

definition heap_but_up :: "nat \<Rightarrow> ('k::linorder, 'v) heap_items \<Rightarrow> bool" where
  "heap_but_up i xs \<longleftrightarrow>
     (\<forall>j. 0 < j \<and> j < length xs \<and> j \<noteq> i \<longrightarrow> fst (xs ! par j) \<le> fst (xs ! j))
     \<and> (\<forall>j. 0 < j \<and> j < length xs \<and> par j = i \<and> 0 < i \<longrightarrow> fst (xs ! par i) \<le> fst (xs ! j))"

definition heap_but_down :: "nat \<Rightarrow> ('k::linorder, 'v) heap_items \<Rightarrow> bool" where
  "heap_but_down i xs \<longleftrightarrow>
     (\<forall>j. 0 < j \<and> j < length xs \<and> par j \<noteq> i \<longrightarrow> fst (xs ! par j) \<le> fst (xs ! j))
     \<and> (\<forall>j. 0 < j \<and> j < length xs \<and> par j = i \<and> 0 < i \<longrightarrow> fst (xs ! par i) \<le> fst (xs ! j))"

lemma par_less: "0 < j \<Longrightarrow> par j < j"
  by (simp add: par_def)

lemma nth_swap_at:
  "i < length xs \<Longrightarrow> j < length xs \<Longrightarrow>
     swap_at i j xs ! k = (if k = j then xs ! i else if k = i then xs ! j else xs ! k)"
  by (auto simp: swap_at_def nth_list_update)

lemma heap_but_up_swap:
  assumes "heap_but_up i xs" and "0 < i" and "i < length xs" and "fst (xs ! i) < fst (xs ! par i)"
  shows "heap_but_up (par i) (swap_at i (par i) xs)"
proof -
  let ?ys = "swap_at i (par i) xs"
  have p: "par i < i" "par i < length xs" using par_less [OF assms(2)] assms(3) by simp_all
  have nth: "?ys ! k = (if k = par i then xs ! i else if k = i then xs ! par i else xs ! k)" for k
    using assms(3) p by (simp add: nth_swap_at)
  have a: "fst (xs ! par j) \<le> fst (xs ! j)" if "0 < j" "j < length xs" "j \<noteq> i" for j
    using assms(1) that by (simp add: heap_but_up_def)
  have b: "fst (xs ! par i) \<le> fst (xs ! j)" if "0 < j" "j < length xs" "par j = i" for j
    using assms(1,2) that by (simp add: heap_but_up_def)
  show ?thesis
    unfolding heap_but_up_def
  proof (intro conjI allI impI; elim conjE)
    fix j assume j: "0 < j" "j < length ?ys" "j \<noteq> par i"
    then have lt: "j < length xs" by simp
    consider "j = i" | "j \<noteq> i" "par j = i" | "j \<noteq> i" "par j = par i"
      | "j \<noteq> i" "par j \<noteq> i" "par j \<noteq> par i" by blast
    then show "fst (?ys ! par j) \<le> fst (?ys ! j)"
    proof cases
      case 1
      then show ?thesis using assms(4) p by (simp add: nth)
    next
      case 2
      then show ?thesis using b [OF j(1) lt] j p by (simp add: nth)
    next
      case 3
      then show ?thesis using a [OF j(1) lt] assms(4) j by (simp add: nth)
    next
      case 4
      then show ?thesis using a [OF j(1) lt] j by (simp add: nth)
    qed
  next
    fix j assume j: "0 < j" "j < length ?ys" "par j = par i" "0 < par i"
    have pp: "par (par i) < par i" using j(4) by (rule par_less)
    have g: "fst (xs ! par (par i)) \<le> fst (xs ! par i)" using a [OF j(4)] p by simp
    show "fst (?ys ! par (par i)) \<le> fst (?ys ! j)"
    proof (cases "j = i")
      case True
      with g pp p show ?thesis by (simp add: nth)
    next
      case False
      have "j \<noteq> par i" using par_less [OF j(1)] j(3) by auto
      moreover have "fst (xs ! par i) \<le> fst (xs ! j)" using a [OF j(1) _ False] j by simp
      ultimately show ?thesis using g pp p False by (auto simp: nth)
    qed
  qed
qed

lemma sift_up_heap:
  "i < length xs \<Longrightarrow> heap_but_up i xs \<Longrightarrow> is_heap (sift_up i xs)"
proof (induction i xs rule: sift_up.induct)
  case (1 xs)
  then show ?case by (simp add: heap_but_up_def is_heap_def)
next
  case (2 i xs)
  have p: "par (Suc i) = i div 2" by (simp add: par_def)
  show ?case
  proof (cases "fst (xs ! Suc i) < fst (xs ! (i div 2))")
    case True
    with heap_but_up_swap [OF "2.prems"(2) _ "2.prems"(1)] p
    have "heap_but_up (i div 2) (swap_at (Suc i) (i div 2) xs)" by simp
    with "2.IH" [OF refl True] "2.prems"(1) True show ?thesis by (simp add: Let_def)
  next
    case False
    then have "fst (xs ! par j) \<le> fst (xs ! j)" if "0 < j" "j < length xs" for j
      using "2.prems"(2) that p by (cases "j = Suc i") (auto simp: heap_but_up_def)
    with False show ?thesis by (simp add: Let_def is_heap_def)
  qed
qed

lemma heap_but_down_swap:
  assumes "heap_but_down i xs" and "2 * i + 1 < length xs" and "c = least_child i xs"
    and "fst (xs ! c) < fst (xs ! i)"
  shows "heap_but_down c (swap_at i c xs)"
proof -
  let ?ys = "swap_at i c xs"
  have c: "i < c" "c < length xs" "par c = i" using least_child_cases [OF assms(2)] assms(3) by simp_all
  then have i: "i < length xs" by simp
  have nth: "?ys ! k = (if k = c then xs ! i else if k = i then xs ! c else xs ! k)" for k
    using c i by (simp add: nth_swap_at)
  have a: "fst (xs ! par j) \<le> fst (xs ! j)" if "0 < j" "j < length xs" "par j \<noteq> i" for j
    using assms(1) that by (simp add: heap_but_down_def)
  have b: "fst (xs ! par i) \<le> fst (xs ! j)" if "0 < j" "j < length xs" "par j = i" "0 < i" for j
    using assms(1) that by (simp add: heap_but_down_def)
  have least: "fst (xs ! c) \<le> fst (xs ! j)" if "0 < j" "j < length xs" "par j = i" for j
  proof -
    have "j = 2 * i + 1 \<or> j = 2 * i + 2" using that by (auto simp: par_def)
    with that assms(3) show ?thesis by (auto simp: least_child_def Let_def)
  qed
  show ?thesis
    unfolding heap_but_down_def
  proof (intro conjI allI impI; elim conjE)
    fix j assume j: "0 < j" "j < length ?ys" "par j \<noteq> c"
    then have lt: "j < length xs" by simp
    consider "j = c" | "j \<noteq> c" "par j = i" | "j = i" "par j \<noteq> i" | "j \<noteq> c" "j \<noteq> i" "par j \<noteq> i" by blast
    then show "fst (?ys ! par j) \<le> fst (?ys ! j)"
    proof cases
      case 1
      then show ?thesis using assms(4) c by (simp add: nth)
    next
      case 2
      then show ?thesis using least [OF j(1) lt] par_less [OF j(1)] c by (auto simp: nth)
    next
      case 3
      then have "0 < i" using j(1) by simp
      with b [of c] c 3 j have "fst (xs ! par i) \<le> fst (xs ! c)" by simp
      with 3 c j par_less [of i] \<open>0 < i\<close> show ?thesis by (simp add: nth)
    next
      case 4
      then show ?thesis using a [OF j(1) lt] j by (simp add: nth)
    qed
  next
    fix j assume j: "0 < j" "j < length ?ys" "par j = c" "0 < c"
    then have "c < j" using par_less [of j] by simp
    have "fst (xs ! c) \<le> fst (xs ! j)" using a [of j] j c by simp
    with j c \<open>c < j\<close> show "fst (?ys ! par c) \<le> fst (?ys ! j)" by (simp add: nth)
  qed
qed

lemma sift_down_heap: "heap_but_down i xs \<Longrightarrow> is_heap (sift_down i xs)"
proof (induction i xs rule: sift_down.induct)
  case (1 i xs)
  show ?case
  proof (cases "2 * i + 1 < length xs")
    case True
    let ?c = "least_child i xs"
    show ?thesis
    proof (cases "fst (xs ! ?c) < fst (xs ! i)")
      case less: True
      from heap_but_down_swap [OF "1.prems" True refl less] "1.IH" [OF True refl less] True less
      show ?thesis by (subst sift_down.simps) (simp add: Let_def)
    next
      case False
      have "fst (xs ! par j) \<le> fst (xs ! j)" if j: "0 < j" "j < length xs" for j
      proof (cases "par j = i")
        case True
        then have "j = 2 * i + 1 \<or> j = 2 * i + 2" using j by (auto simp: par_def)
        with False True j show ?thesis by (auto simp: least_child_def Let_def not_less split: if_splits)
      next
        case False
        with "1.prems" j show ?thesis by (simp add: heap_but_down_def)
      qed
      with True False show ?thesis by (subst sift_down.simps) (simp add: Let_def is_heap_def)
    qed
  next
    case False
    have "par j \<noteq> i" if "0 < j" "j < length xs" for j
      using False that by (auto simp: par_def)
    with "1.prems" False show ?thesis
      by (subst sift_down.simps) (simp add: heap_but_down_def is_heap_def)
  qed
qed

lemma is_heap_hd:
  assumes "is_heap xs" and "j < length xs"
  shows "fst (xs ! 0) \<le> fst (xs ! j)"
  using assms(2)
proof (induction j rule: less_induct)
  case (less j)
  show ?case
  proof (cases "j = 0")
    case False
    then have "par j < j" by (simp add: par_less)
    with less have "fst (xs ! 0) \<le> fst (xs ! par j)" by simp
    moreover have "fst (xs ! par j) \<le> fst (xs ! j)"
      using assms(1) False less.prems by (simp add: is_heap_def)
    ultimately show ?thesis by simp
  qed simp
qed

lemma heap_push_heap: "is_heap xs \<Longrightarrow> is_heap (heap_push x xs)"
  unfolding heap_push_def
proof (rule sift_up_heap)
  assume h: "is_heap xs"
  have p: "par j < length xs" if "0 < j" "j \<le> length xs" for j
    using par_less [OF that(1)] that by simp
  show "heap_but_up (length xs) (xs @ [x])"
    unfolding heap_but_up_def
  proof (intro conjI allI impI; elim conjE)
    fix j assume j: "0 < j" "j < length (xs @ [x])" "j \<noteq> length xs"
    then have "j < length xs" by simp
    moreover from this have "fst (xs ! par j) \<le> fst (xs ! j)"
      using h j(1) by (auto simp: is_heap_def)
    ultimately show "fst ((xs @ [x]) ! par j) \<le> fst ((xs @ [x]) ! j)"
      using p [OF j(1)] by (simp add: nth_append)
  next
    fix j assume "0 < j" "j < length (xs @ [x])" "par j = length xs"
    with p [of j] show "fst ((xs @ [x]) ! par (length xs)) \<le> fst ((xs @ [x]) ! j)" by simp
  qed
qed simp

lemma heap_pop_parts:
  assumes "xs \<noteq> []"
  defines "ys \<equiv> butlast (swap_at 0 (length xs - 1) xs)"
  shows "mset xs = add_mset (hd xs) (mset ys)"
    and "length ys = length xs - 1" and "j < length ys \<Longrightarrow> 0 < j \<Longrightarrow> ys ! j = xs ! j"
proof -
  let ?s = "swap_at 0 (length xs - 1) xs"
  have ne: "?s \<noteq> []" and n: "length xs - 1 < length xs" "0 < length xs"
    using assms(1) by (simp_all add: swap_at_def)
  have "last ?s = ?s ! (length ?s - 1)" using ne by (rule last_conv_nth)
  then have l: "last ?s = hd xs" using n by (simp add: nth_swap_at hd_conv_nth assms(1))
  have "mset xs = mset ?s" using n by (simp add: mset_swap_at)
  also have "\<dots> = mset (ys @ [last ?s])" using ne by (simp add: ys_def)
  finally have "mset xs = mset (ys @ [hd xs])" unfolding l .
  then show "mset xs = add_mset (hd xs) (mset ys)" by simp
  show "length ys = length xs - 1" by (simp add: ys_def)
  show "ys ! j = xs ! j" if "j < length ys" and "0 < j"
    using that n by (simp add: ys_def nth_butlast nth_swap_at)
qed

lemma heap_pop_heap: "is_heap xs \<Longrightarrow> heap_pop xs = Some (x, r) \<Longrightarrow> is_heap r"
proof -
  assume h: "is_heap xs" and "heap_pop xs = Some (x, r)"
  then have ne: "xs \<noteq> []" and r: "r = sift_down 0 (butlast (swap_at 0 (length xs - 1) xs))"
    by (auto simp: heap_pop_def split: if_splits)
  have "heap_but_down 0 (butlast (swap_at 0 (length xs - 1) xs))"
    unfolding heap_but_down_def
  proof (intro conjI allI impI; elim conjE)
    fix j assume j: "0 < j" "j < length (butlast (swap_at 0 (length xs - 1) xs))" "par j \<noteq> 0"
    have pj: "par j < j" using j(1) by (rule par_less)
    have "fst (xs ! par j) \<le> fst (xs ! j)" using h j heap_pop_parts(2) [OF ne] by (simp add: is_heap_def)
    then show "fst (butlast (swap_at 0 (length xs - 1) xs) ! par j)
        \<le> fst (butlast (swap_at 0 (length xs - 1) xs) ! j)"
      using heap_pop_parts(3) [OF ne j(2,1)] heap_pop_parts(3) [OF ne, of "par j"] j pj by simp
  qed simp
  then show "is_heap r" unfolding r by (rule sift_down_heap)
qed

interpretation heap: priority_queue heap_push heap_pop mset is_heap
proof unfold_locales
  fix q :: "('k::linorder, 'v) heap_items" and r :: "('k, 'v) heap_items" and x y :: "'k \<times> 'v"
  show "mset (heap_push x q) = add_mset x (mset q)"
    by (simp add: heap_push_def mset_sift_up)
  show "is_heap q \<Longrightarrow> is_heap (heap_push x q)" by (rule heap_push_heap)
  show "heap_pop q = None \<longleftrightarrow> mset q = {#}" by (simp add: heap_pop_def)
  show "mset q = add_mset x (mset r)" if "heap_pop q = Some (x, r)"
    using that heap_pop_parts(1) [of q] by (auto simp: heap_pop_def mset_sift_down split: if_splits)
  show "is_heap q \<Longrightarrow> heap_pop q = Some (x, r) \<Longrightarrow> is_heap r" by (rule heap_pop_heap)
  show "fst x \<le> fst y" if "is_heap q" "heap_pop q = Some (x, r)" "y \<in># mset q"
  proof -
    have "q \<noteq> []" and x: "x = q ! 0" using that(2) by (auto simp: heap_pop_def hd_conv_nth split: if_splits)
    from that(3) obtain j where "j < length q" "y = q ! j" by (auto simp: in_set_conv_nth)
    with is_heap_hd [OF that(1)] x show ?thesis by simp
  qed
qed

end
