(* ===== verification/A_Star.thy ===== *)
theory A_Star
  imports Binary_Heap
begin

text \<open>
  Model of \<^verbatim>\<open>ws::core::AStar\<close> (include/ws/core/AStar.h, wsCore/src/AStar.cpp): path finding
  on a grid with eight directions, an open heap with lazy deletion, and node storage that is
  reused between searches by a generation stamp.

  A \<^verbatim>\<open>PathNode*\<close> is the node's index y * width + x; the rows of 1024 nodes that
  \<^verbatim>\<open>mapNodes\<close> points to are one function of the index, of which the first 1024 * \<open>rows\<close>
  are allocated. Costs are numbers of a type 'd: nothing is assumed about them but that the
  comparison is a linear order, so the results do not depend on rounding (a heuristic or cost
  that returns NaN is excluded).
\<close>

section \<open>Data\<close>

record amap =
  getWidth :: u32
  getHeight :: u32
  isBlock :: "u32 \<Rightarrow> u32 \<Rightarrow> bool"

record 'd path_node =
  px :: int
  py :: int
  ph :: 'd
  pg :: 'd
  pf :: 'd
  isClosed :: bool
  generation :: u32
  parent :: "int option"

record 'd astar =
  maxCount :: int
  searchGeneration :: u32
  openHeap :: "('d \<times> int) list"
  lastPath :: "int list"
  as_nodes :: "int \<Rightarrow> 'd path_node"
  as_rows :: int
  as_heuristic :: "(int \<Rightarrow> int \<Rightarrow> int \<Rightarrow> int \<Rightarrow> 'd) option"
  as_getCost :: "(int \<Rightarrow> int \<Rightarrow> int \<Rightarrow> int \<Rightarrow> 'd) option"

definition NUM_NODE_SIZE :: int where
  "NUM_NODE_SIZE = 1024"

text \<open>A node as its constructor makes it, which is also what \<^verbatim>\<open>memset\<close> to 0 makes of it.\<close>

definition fresh_node :: "'d::zero path_node" where
  "fresh_node = \<lparr>px = 0, py = 0, ph = 0, pg = 0, pf = 0, isClosed = False, generation = 0,
                 parent = None\<rparr>"

definition astar_new :: "int \<Rightarrow> 'd::zero astar" where
  "astar_new mx = \<lparr>maxCount = mx, searchGeneration = 0, openHeap = [], lastPath = [],
     as_nodes = \<lambda>i. fresh_node, as_rows = 0, as_heuristic = None, as_getCost = None\<rparr>"

definition manhattanDistance :: "int \<Rightarrow> int \<Rightarrow> int \<Rightarrow> int \<Rightarrow> 'd::linordered_field" where
  "manhattanDistance x y endX endY = of_int (\<bar>x - endX\<bar>) + of_int (\<bar>y - endY\<bar>)"

definition commonCost :: "int \<Rightarrow> int \<Rightarrow> int \<Rightarrow> int \<Rightarrow> 'd::linordered_field" where
  "commonCost x1 y1 x2 y2 = (if x1 \<noteq> x2 \<and> y1 \<noteq> y2 then 1414 / 1000 else 1)"

section \<open>The open heap\<close>

definition pushOpen :: "int \<Rightarrow> 'd::linorder astar \<Rightarrow> 'd astar" where
  "pushOpen i st = st\<lparr>openHeap := heap_push (pf (as_nodes st i), i) (openHeap st)\<rparr>"

text \<open>The entries that \<^verbatim>\<open>popOpen\<close> skips.\<close>

definition stale :: "'d astar \<Rightarrow> 'd \<times> int \<Rightarrow> bool" where
  "stale st e \<longleftrightarrow>
     (let n = as_nodes st (snd e) in
      generation n \<noteq> searchGeneration st \<or> isClosed n \<or> fst e \<noteq> pf n)"

lemma heap_pop_shorter: "heap_pop q = Some (x, r) \<Longrightarrow> length r < length q"
  using heap.pop_items [of q x r] by (auto dest: arg_cong [where f = size])

function popOpen :: "'d::linorder astar \<Rightarrow> int option \<times> 'd astar" where
  "popOpen st =
     (case heap_pop (openHeap st) of
        None \<Rightarrow> (None, st)
      | Some (e, r) \<Rightarrow>
          let st1 = st\<lparr>openHeap := r\<rparr> in
          if stale st1 e then popOpen st1 else (Some (snd e), st1))"
  by pat_completeness auto

termination popOpen
  by (relation "measure (\<lambda>st. length (openHeap st))") (auto simp: heap_pop_shorter)

declare popOpen.simps [simp del]

section \<open>Nodes\<close>

definition resizeMap :: "int \<Rightarrow> int \<Rightarrow> 'd::zero astar \<Rightarrow> 'd astar" where
  "resizeMap w h st =
     (let requireSize = (w * h + (NUM_NODE_SIZE - 1)) div NUM_NODE_SIZE in
      if as_rows st < requireSize
      then st\<lparr>as_nodes := \<lambda>i. if as_rows st * NUM_NODE_SIZE \<le> i \<and> i < requireSize * NUM_NODE_SIZE
                               then fresh_node else as_nodes st i,
              as_rows := requireSize\<rparr>
      else st)"

definition touch :: "int \<Rightarrow> int \<Rightarrow> u32 \<Rightarrow> 'd::zero path_node \<Rightarrow> 'd path_node" where
  "touch x y gen n =
     (if generation n \<noteq> gen
      then n\<lparr>px := x, py := y, ph := 0, pg := 0, pf := 0, isClosed := False, parent := None,
             generation := gen\<rparr>
      else n\<lparr>px := x, py := y\<rparr>)"

text \<open>The index of the node and the state after, or a null pointer.\<close>

definition getNode :: "int \<Rightarrow> int \<Rightarrow> int \<Rightarrow> 'd::zero astar \<Rightarrow> (int \<times> 'd astar) option" where
  "getNode x y width st =
     (let index = y * width + x in
      if index < 0 then None
      else if drop_bit 10 index < as_rows st
      then Some (index, st\<lparr>as_nodes := (as_nodes st)
             (index := touch x y (searchGeneration st) (as_nodes st index))\<rparr>)
      else None)"

definition set_node :: "int \<Rightarrow> 'd path_node \<Rightarrow> 'd astar \<Rightarrow> 'd astar" where
  "set_node i n st = st\<lparr>as_nodes := (as_nodes st)(i := n)\<rparr>"

section \<open>The search\<close>

text \<open>The body of the two loops over the surroundings of the current node \<open>c\<close>.\<close>

definition visit ::
    "amap \<Rightarrow> int \<Rightarrow> int \<Rightarrow> int \<times> int \<Rightarrow> 'd::{linorder,plus,zero} astar \<Rightarrow> error + 'd astar" where
  "visit m endi c xy st =
     (let (x, y) = xy; cur = as_nodes st c in
      if x < 0 \<or> uint (getWidth m) \<le> x then Inr st
      else if y < 0 \<or> uint (getHeight m) \<le> y then Inr st
      else if x = px cur \<and> y = py cur then Inr st
      else if isBlock m (word_of_int x) (word_of_int y) then Inr st
      else case getNode x y (sint (getWidth m)) st of
             None \<Rightarrow> Inl Undefined_behaviour
           | Some (i, st1) \<Rightarrow>
               let n = as_nodes st1 i; cur1 = as_nodes st1 c; en = as_nodes st1 endi in
               if isClosed n then Inr st1
               else let g = pg cur1 + the (as_getCost st1) (px cur1) (py cur1) x y in
                    if pg n \<noteq> 0 then
                      if g < pg n
                      then Inr (pushOpen i (set_node i (n\<lparr>pg := g, pf := g + ph n, parent := Some c\<rparr>) st1))
                      else Inr st1
                    else let h = the (as_heuristic st1) x y (px en) (py en) in
                         Inr (pushOpen i (set_node i
                           (n\<lparr>ph := h, pg := g, pf := g + h, parent := Some c\<rparr>) st1)))"

definition surroundings :: "int \<Rightarrow> int \<Rightarrow> (int \<times> int) list" where
  "surroundings cx cy = [(x, y). x \<leftarrow> [cx - 1, cx, cx + 1], y \<leftarrow> [cy - 1, cy, cy + 1]]"

definition close :: "int \<Rightarrow> 'd astar \<Rightarrow> 'd astar" where
  "close c st = set_node c ((as_nodes st c)\<lparr>isClosed := True\<rparr>) st"

text \<open>The loop that follows the parents back to the start.\<close>

partial_function (option) path_loop ::
    "(int \<Rightarrow> 'd path_node) \<Rightarrow> int \<Rightarrow> int list \<Rightarrow> int list option" where
  "path_loop nodes c acc =
     (case parent (nodes c) of None \<Rightarrow> Some acc | Some p \<Rightarrow> path_loop nodes p (c # acc))"

declare path_loop.simps [code]

text \<open>The main loop; the first argument is what is left of \<^verbatim>\<open>maxCount\<close>.\<close>

fun search_loop :: "nat \<Rightarrow> amap \<Rightarrow> int \<Rightarrow> 'd::{linorder,plus,zero} astar \<Rightarrow> error + 'd astar" where
  "search_loop 0 m endi st = Inr st"
| "search_loop (Suc n) m endi st =
     (case popOpen st of
        (None, st1) \<Rightarrow> Inr st1
      | (Some c, st1) \<Rightarrow>
          if c = endi then
            (case path_loop (as_nodes st1) c (lastPath st1) of
               None \<Rightarrow> Inl Diverges
             | Some p \<Rightarrow> Inr (st1\<lparr>lastPath := p\<rparr>))
          else bindE (runE (visit m endi c)
                       (surroundings (px (as_nodes st1 c)) (py (as_nodes st1 c))) (close c st1))
                 (search_loop n m endi))"

definition next_generation :: "'d::zero astar \<Rightarrow> 'd astar" where
  "next_generation st =
     (let st1 = st\<lparr>searchGeneration := searchGeneration st + 1\<rparr> in
      if searchGeneration st1 = 0
      then st1\<lparr>as_nodes := \<lambda>i. if 0 \<le> i \<and> i < as_rows st * NUM_NODE_SIZE
                                then fresh_node else as_nodes st i,
               searchGeneration := 1\<rparr>
      else st1)"

definition use_defaults :: "'d::linordered_field astar \<Rightarrow> 'd astar" where
  "use_defaults st =
     st\<lparr>as_heuristic := (case as_heuristic st of None \<Rightarrow> Some manhattanDistance | Some f \<Rightarrow> Some f),
        as_getCost := (case as_getCost st of None \<Rightarrow> Some commonCost | Some f \<Rightarrow> Some f)\<rparr>"

definition findPath ::
    "amap \<Rightarrow> int \<Rightarrow> int \<Rightarrow> int \<Rightarrow> int \<Rightarrow> 'd::linordered_field astar \<Rightarrow> error + bool \<times> 'd astar" where
  "findPath m startX startY endX endY st =
     (let st0 = st\<lparr>lastPath := [], openHeap := []\<rparr> in
      if startX = endX \<and> startY = endY then Inr (True, st0)
      else if isBlock m (word_of_int endX) (word_of_int endY) then Inr (False, st0)
      else
        let st1 = use_defaults (next_generation (resizeMap (sint (getWidth m)) (sint (getHeight m)) st0));
            r1 = getNode startX startY (sint (getWidth m)) st1;
            st2 = (case r1 of None \<Rightarrow> st1 | Some (s, st2) \<Rightarrow> st2);
            r2 = getNode endX endY (sint (getWidth m)) st2;
            st3 = (case r2 of None \<Rightarrow> st2 | Some (e, st3) \<Rightarrow> st3)
        in case (r1, r2) of
             (Some (s, _), Some (e, _)) \<Rightarrow>
               bindE (search_loop (nat (maxCount st3)) m e (pushOpen s st3))
                 (\<lambda>st4. Inr (lastPath st4 \<noteq> [], st4\<lparr>openHeap := []\<rparr>))
           | _ \<Rightarrow> Inr (False, st3))"

section \<open>The grid\<close>

definition map_ok :: "amap \<Rightarrow> int \<Rightarrow> int \<Rightarrow> bool" where
  "map_ok m W H \<longleftrightarrow> W = uint (getWidth m) \<and> H = uint (getHeight m) \<and> 0 < W \<and> 0 < H \<and> W * H < 2 ^ 31"

definition on_grid :: "int \<Rightarrow> int \<Rightarrow> int \<Rightarrow> bool" where
  "on_grid W H i \<longleftrightarrow> 0 \<le> i \<and> i < W * H"

text \<open>One step of a path: to one of the eight neighbours, which must not be blocked.\<close>

definition hop :: "amap \<Rightarrow> int \<Rightarrow> int \<Rightarrow> int \<Rightarrow> int \<Rightarrow> bool" where
  "hop m W H i j \<longleftrightarrow> on_grid W H i \<and> on_grid W H j \<and> i \<noteq> j
     \<and> \<bar>i mod W - j mod W\<bar> \<le> 1 \<and> \<bar>i div W - j div W\<bar> \<le> 1
     \<and> \<not> isBlock m (word_of_int (j mod W)) (word_of_int (j div W))"

fun walk :: "amap \<Rightarrow> int \<Rightarrow> int \<Rightarrow> int \<Rightarrow> int list \<Rightarrow> bool" where
  "walk m W H s [] = True"
| "walk m W H s (i # is) = (hop m W H s i \<and> walk m W H i is)"

lemma cell_index:
  assumes "0 \<le> x" "x < W" "0 \<le> y" "y < H"
  shows "(y * W + x) mod W = x" and "(y * W + x) div W = y" and "on_grid W H (y * W + x)"
proof -
  show "(y * W + x) mod W = x" and "(y * W + x) div W = y" using assms by simp_all
  have "y * W + x < (y + 1) * W" using assms by (simp add: distrib_right)
  also have "\<dots> \<le> H * W" using assms by (intro mult_right_mono) simp_all
  finally show "on_grid W H (y * W + x)" using assms by (simp add: on_grid_def mult.commute)
qed

lemma cell_of_index:
  assumes "on_grid W H i" and "0 < W"
  shows "0 \<le> i mod W" "i mod W < W" "0 \<le> i div W" "i div W < H" "i div W * W + i mod W = i"
proof -
  show "0 \<le> i mod W" "i mod W < W" "i div W * W + i mod W = i" using assms(2) by simp_all
  show "0 \<le> i div W" using assms by (simp add: on_grid_def pos_imp_zdiv_nonneg_iff)
  have "i div W * W + i mod W < H * W" using assms by (simp add: on_grid_def mult.commute)
  moreover have "0 \<le> i mod W" using assms(2) by simp
  ultimately have "i div W * W < H * W" by linarith
  then show "i div W < H" using assms(2) by (simp add: mult_less_cancel_right)
qed

section \<open>The invariant of the search\<close>

definition current :: "'d astar \<Rightarrow> int \<Rightarrow> bool" where
  "current st i \<longleftrightarrow> generation (as_nodes st i) = searchGeneration st"

definition reached :: "int \<Rightarrow> 'd astar \<Rightarrow> int \<Rightarrow> bool" where
  "reached s st i \<longleftrightarrow> current st i \<and> (i = s \<or> parent (as_nodes st i) \<noteq> None)"

text \<open>\<open>cl\<close> lists the closed nodes, the last one closed first.\<close>

definition search_inv ::
    "amap \<Rightarrow> int \<Rightarrow> int \<Rightarrow> int \<Rightarrow> int \<Rightarrow> int list \<Rightarrow> 'd::{linorder,zero} astar \<Rightarrow> bool" where
  "search_inv m W H s e cl st \<longleftrightarrow>
     W * H \<le> as_rows st * 1024
     \<and> (\<forall>i. current st i \<longrightarrow> on_grid W H i \<and> px (as_nodes st i) = i mod W \<and> py (as_nodes st i) = i div W
          \<and> (isClosed (as_nodes st i) \<longleftrightarrow> i \<in> set cl)
          \<and> (pg (as_nodes st i) \<noteq> 0 \<longrightarrow> parent (as_nodes st i) \<noteq> None)
          \<and> (\<forall>p. parent (as_nodes st i) = Some p \<longrightarrow> p \<in> set cl \<and> hop m W H p i))
     \<and> distinct cl \<and> (\<forall>i\<in>set cl. reached s st i)
     \<and> (\<forall>us i vs p. cl = us @ i # vs \<longrightarrow> parent (as_nodes st i) = Some p \<longrightarrow> p \<in> set vs)
     \<and> parent (as_nodes st s) = None \<and> current st s \<and> current st e \<and> e \<notin> set cl \<and> s \<noteq> e
     \<and> (cl \<noteq> [] \<longrightarrow> s \<in> set cl)
     \<and> (\<forall>en\<in>set (openHeap st). reached s st (snd en))
     \<and> (\<forall>i. reached s st i \<longrightarrow> i \<notin> set cl \<longrightarrow> (pf (as_nodes st i), i) \<in> set (openHeap st))"

lemma search_inv_node:
  "search_inv m W H s e cl st \<Longrightarrow> current st i \<Longrightarrow>
     on_grid W H i \<and> px (as_nodes st i) = i mod W \<and> py (as_nodes st i) = i div W
     \<and> (isClosed (as_nodes st i) \<longleftrightarrow> i \<in> set cl)
     \<and> (pg (as_nodes st i) \<noteq> 0 \<longrightarrow> parent (as_nodes st i) \<noteq> None)
     \<and> (\<forall>p. parent (as_nodes st i) = Some p \<longrightarrow> p \<in> set cl \<and> hop m W H p i)"
  by (simp add: search_inv_def)

lemma search_inv_rest:
  assumes "search_inv m W H s e cl st"
  shows "W * H \<le> as_rows st * 1024" and "distinct cl" and "i \<in> set cl \<Longrightarrow> reached s st i"
    and "cl = us @ i # vs \<Longrightarrow> parent (as_nodes st i) = Some p \<Longrightarrow> p \<in> set vs"
    and "parent (as_nodes st s) = None" and "current st s" and "current st e" and "e \<notin> set cl"
    and "s \<noteq> e" and "cl \<noteq> [] \<Longrightarrow> s \<in> set cl"
    and "en \<in> set (openHeap st) \<Longrightarrow> reached s st (snd en)"
    and "reached s st i \<Longrightarrow> i \<notin> set cl \<Longrightarrow> (pf (as_nodes st i), i) \<in> set (openHeap st)"
  using assms by (simp_all add: search_inv_def)

text \<open>A change of one node that is not closed, together with a larger heap.\<close>

lemma search_inv_change:
  assumes inv: "search_inv m W H s e cl st" and out: "i \<notin> set cl"
    and other: "\<And>j. j \<noteq> i \<Longrightarrow> as_nodes st' j = as_nodes st j"
    and gen: "searchGeneration st' = searchGeneration st" and rows: "as_rows st' = as_rows st"
    and node: "current st' i" "on_grid W H i" "px (as_nodes st' i) = i mod W"
      "py (as_nodes st' i) = i div W" "\<not> isClosed (as_nodes st' i)"
      "pg (as_nodes st' i) \<noteq> 0 \<longrightarrow> parent (as_nodes st' i) \<noteq> None"
    and par: "\<And>p. parent (as_nodes st' i) = Some p \<Longrightarrow> p \<in> set cl \<and> hop m W H p i"
    and keep: "reached s st i \<longrightarrow> reached s st' i"
    and start: "parent (as_nodes st' s) = None"
    and heap1: "set (openHeap st) \<subseteq> set (openHeap st')"
    and heap2: "\<And>en. en \<in> set (openHeap st') \<Longrightarrow> en \<in> set (openHeap st) \<or> snd en = i \<and> reached s st' i"
    and heap3: "reached s st' i \<longrightarrow> (pf (as_nodes st' i), i) \<in> set (openHeap st')"
  shows "search_inv m W H s e cl st'"
proof -
  have cur: "current st' j \<longleftrightarrow> current st j" if "j \<noteq> i" for j
    using other [OF that] gen by (simp add: current_def)
  have rea: "reached s st' j \<longleftrightarrow> reached s st j" if "j \<noteq> i" for j
    using cur [OF that] other [OF that] by (simp add: reached_def)
  have r: "reached s st j \<Longrightarrow> reached s st' j" for j
    using rea [of j] keep by (cases "j = i") auto
  have c: "current st j \<Longrightarrow> current st' j" for j
    using cur [of j] node(1) by (cases "j = i") auto
  note rest = search_inv_rest [OF inv]
  show ?thesis
    unfolding search_inv_def
  proof (intro conjI allI ballI impI)
    show "W * H \<le> as_rows st' * 1024" using rest(1) rows by simp
    show "distinct cl" by (rule rest(2))
  next
    fix j assume j: "current st' j"
    have "on_grid W H j \<and> px (as_nodes st' j) = j mod W \<and> py (as_nodes st' j) = j div W
       \<and> (isClosed (as_nodes st' j) \<longleftrightarrow> j \<in> set cl)
       \<and> (pg (as_nodes st' j) \<noteq> 0 \<longrightarrow> parent (as_nodes st' j) \<noteq> None)
       \<and> (\<forall>p. parent (as_nodes st' j) = Some p \<longrightarrow> p \<in> set cl \<and> hop m W H p j)"
    proof (cases "j = i")
      case True
      with node par out show ?thesis by simp
    next
      case False
      with search_inv_node [OF inv, of j] j cur other show ?thesis by simp
    qed
    then show "on_grid W H j" "px (as_nodes st' j) = j mod W" "py (as_nodes st' j) = j div W"
      "isClosed (as_nodes st' j) = (j \<in> set cl)"
      "pg (as_nodes st' j) \<noteq> 0 \<Longrightarrow> parent (as_nodes st' j) \<noteq> None"
      "\<And>p. parent (as_nodes st' j) = Some p \<Longrightarrow> p \<in> set cl"
      "\<And>p. parent (as_nodes st' j) = Some p \<Longrightarrow> hop m W H p j" by blast+
  next
    fix j assume "j \<in> set cl" then show "reached s st' j" using rest(3) r by blast
  next
    fix us j vs p assume cl: "cl = us @ j # vs" and p: "parent (as_nodes st' j) = Some p"
    have "j \<noteq> i" using cl out by auto
    then show "p \<in> set vs" using rest(4) [OF cl] p other by simp
  next
    show "current st' s" "current st' e" using rest(6,7) c by blast+
    show "e \<notin> set cl" "s \<noteq> e" using rest(8,9) by blast+
    show "cl \<noteq> [] \<Longrightarrow> s \<in> set cl" by (rule rest(10))
    show "parent (as_nodes st' s) = None" by (rule start)
  next
    fix en assume "en \<in> set (openHeap st')"
    then show "reached s st' (snd en)" using heap2 rest(11) r by blast
  next
    fix j assume j: "reached s st' j" "j \<notin> set cl"
    show "(pf (as_nodes st' j), j) \<in> set (openHeap st')"
    proof (cases "j = i")
      case True
      with heap3 j show ?thesis by simp
    next
      case False
      with rest(12) [of j] rea [OF False] j heap1 other show ?thesis by auto
    qed
  qed
qed

text \<open>\<^verbatim>\<open>getNode\<close> on a cell of the map finds its node and stamps it; that changes nothing that
  the search has found.\<close>

lemma getNode_cell:
  assumes "0 \<le> x" "x < W" "0 \<le> y" "y < H" and "W * H \<le> as_rows st * 1024"
  shows "getNode x y W st = Some (y * W + x,
    set_node (y * W + x) (touch x y (searchGeneration st) (as_nodes st (y * W + x))) st)"
proof -
  have g: "on_grid W H (y * W + x)" using assms(1-4) by (rule cell_index)
  have "drop_bit 10 (y * W + x) = (y * W + x) div 1024" by (simp add: drop_bit_eq_div)
  moreover have "(y * W + x) div 1024 < as_rows st"
  proof -
    have "(y * W + x) div 1024 * 1024 \<le> y * W + x" by simp
    also have "\<dots> < as_rows st * 1024" using g assms(5) unfolding on_grid_def by linarith
    finally show ?thesis by simp
  qed
  ultimately show ?thesis using g by (simp add: getNode_def set_node_def Let_def on_grid_def)
qed

lemma touch_inv:
  assumes inv: "search_inv m W H s e cl st" and c: "0 \<le> x" "x < W" "0 \<le> y" "y < H"
  defines "i \<equiv> y * W + x"
  defines "st' \<equiv> set_node i (touch x y (searchGeneration st) (as_nodes st i)) st"
  shows "search_inv m W H s e cl st'" and "current st' i" and "reached s st' j \<longleftrightarrow> reached s st j"
    and "as_nodes st' i = touch x y (searchGeneration st) (as_nodes st i)"
    and "j \<noteq> i \<Longrightarrow> as_nodes st' j = as_nodes st j"
    and "lastPath st' = lastPath st" and "searchGeneration st' = searchGeneration st"
    and "openHeap st' = openHeap st" and "as_rows st' = as_rows st"
    and "as_getCost st' = as_getCost st" and "as_heuristic st' = as_heuristic st"
proof -
  let ?n = "as_nodes st i"
  have cell: "i mod W = x" "i div W = y" "on_grid W H i"
    unfolding i_def using cell_index [OF c] by simp_all
  show other: "j \<noteq> i \<Longrightarrow> as_nodes st' j = as_nodes st j" for j by (simp add: st'_def set_node_def)
  show node: "as_nodes st' i = touch x y (searchGeneration st) ?n" by (simp add: st'_def set_node_def)
  show "lastPath st' = lastPath st" and gen: "searchGeneration st' = searchGeneration st"
    and heap: "openHeap st' = openHeap st" and rows: "as_rows st' = as_rows st"
    and "as_getCost st' = as_getCost st" and "as_heuristic st' = as_heuristic st"
    by (simp_all add: st'_def set_node_def)
  show cur: "current st' i" by (simp add: current_def node touch_def gen)
  note rest = search_inv_rest [OF inv]
  show "reached s st' j \<longleftrightarrow> reached s st j"
  proof (cases "j = i")
    case True
    show ?thesis
    proof (cases "current st i")
      case True
      then have "parent (as_nodes st' i) = parent ?n" by (simp add: node touch_def current_def)
      with True cur \<open>j = i\<close> show ?thesis by (simp add: reached_def)
    next
      case False
      then have "i \<noteq> s" and "parent (as_nodes st' i) = None"
        using rest(6) by (auto simp: node touch_def current_def)
      with False \<open>j = i\<close> show ?thesis by (simp add: reached_def)
    qed
  next
    case False
    then show ?thesis by (simp add: reached_def current_def other gen)
  qed
  show "search_inv m W H s e cl st'"
  proof (cases "current st i")
    case True
    then have "touch x y (searchGeneration st) ?n = ?n"
      using search_inv_node [OF inv True] cell by (simp add: touch_def current_def)
    then have "st' = st" by (simp add: st'_def set_node_def)
    with inv show ?thesis by simp
  next
    case False
    then have n: "as_nodes st' i = ?n\<lparr>px := x, py := y, ph := 0, pg := 0, pf := 0, isClosed := False,
        parent := None, generation := searchGeneration st\<rparr>"
      by (simp add: node touch_def current_def)
    have "i \<notin> set cl" and "\<not> reached s st i" and "i \<noteq> s"
      using False rest(3,6) by (auto simp: reached_def)
    then show ?thesis
      using cell cur rest(5) other
      by (intro search_inv_change [OF inv \<open>i \<notin> set cl\<close> other gen rows cur])
        (auto simp: n heap reached_def)
  qed
qed

text \<open>Giving a node a parent and pushing it.\<close>

lemma set_heap_push: "set (heap_push x q) = insert x (set q)"
  using heap.push_items [of x q] by (metis set_mset_add_mset_insert set_mset_mset)

lemma reach_inv:
  fixes st :: "'d::{linorder,zero} astar" and h g f :: 'd
  assumes inv: "search_inv m W H s e cl st" and out: "i \<notin> set cl" and cur: "current st i"
    and p: "p \<in> set cl" "hop m W H p i"
  defines "st' \<equiv> pushOpen i (set_node i ((as_nodes st i)\<lparr>ph := h, pg := g, pf := f, parent := Some p\<rparr>) st)"
  shows "search_inv m W H s e cl st'" and "reached s st' i" and "reached s st j \<Longrightarrow> reached s st' j"
    and "lastPath st' = lastPath st" and "searchGeneration st' = searchGeneration st"
    and "j \<noteq> i \<Longrightarrow> as_nodes st' j = as_nodes st j"
proof -
  let ?n = "(as_nodes st i)\<lparr>ph := h, pg := g, pf := f, parent := Some p\<rparr>"
  have st': "st' = st\<lparr>as_nodes := (as_nodes st)(i := ?n), openHeap := heap_push (f, i) (openHeap st)\<rparr>"
    by (simp add: st'_def pushOpen_def set_node_def)
  show other: "j \<noteq> i \<Longrightarrow> as_nodes st' j = as_nodes st j" for j by (simp add: st')
  show "lastPath st' = lastPath st" and gen: "searchGeneration st' = searchGeneration st"
    by (simp_all add: st')
  have cur': "current st' i" using cur by (simp add: current_def st')
  show r: "reached s st' i" using cur' by (simp add: reached_def) (simp add: st')
  show "reached s st j \<Longrightarrow> reached s st' j"
    using r other [of j] by (cases "j = i") (auto simp: reached_def current_def gen)
  note rest = search_inv_rest [OF inv] and node = search_inv_node [OF inv cur]
  have "i \<noteq> s" using rest(10) p(1) out by (cases cl) auto
  then show "search_inv m W H s e cl st'"
    using node out p r rest(5)
    by (intro search_inv_change [OF inv out other gen _ cur'])
      (auto simp: st' set_heap_push)
qed

lemma sint_small:
  fixes w :: u32
  assumes "uint w < 2 ^ 31"
  shows "sint w = uint w"
proof -
  have "- (2 ^ 31) \<le> uint w" by (rule order_trans [of _ 0]) simp_all
  with assms have "signed_take_bit 31 (uint w) = uint w" by (intro signed_take_bit_int_eq_self)
  then show ?thesis by (simp add: sint_uint)
qed

text \<open>What the body of the loops does: nothing for a cell that is no free neighbour, stamp the node of
  one that is closed or not improved, else give it a new parent and push it.\<close>

lemma visit_cases [consumes 5, case_names skip keep update]:
  assumes mo: "map_ok m W H" and inv: "search_inv m W H s e cl st" and c: "c \<in> set cl"
    and xy: "\<bar>x - c mod W\<bar> \<le> 1" "\<bar>y - c div W\<bar> \<le> 1"
  defines "i \<equiv> y * W + x"
  defines "st1 \<equiv> set_node i (touch x y (searchGeneration st) (as_nodes st i)) st"
  defines "g \<equiv> pg (as_nodes st1 c) + the (as_getCost st1) (px (as_nodes st1 c)) (py (as_nodes st1 c)) x y"
  obtains (skip) "visit m e c (x, y) st = Inr st"
      "\<not> (0 \<le> x \<and> x < W \<and> 0 \<le> y \<and> y < H \<and> hop m W H c i)"
  | (keep) "visit m e c (x, y) st = Inr st1" "0 \<le> x" "x < W" "0 \<le> y" "y < H" "hop m W H c i"
      "i \<in> set cl \<or> pg (as_nodes st1 i) \<noteq> 0 \<and> \<not> g < pg (as_nodes st1 i)"
  | (update) h where "visit m e c (x, y) st = Inr (pushOpen i (set_node i
        ((as_nodes st1 i)\<lparr>ph := h, pg := g, pf := g + h, parent := Some c\<rparr>) st1))"
      "0 \<le> x" "x < W" "0 \<le> y" "y < H" "hop m W H c i" "i \<notin> set cl"
      "if pg (as_nodes st1 i) = 0 then h = the (as_heuristic st1) x y (px (as_nodes st1 e)) (py (as_nodes st1 e))
       else h = ph (as_nodes st1 i) \<and> g < pg (as_nodes st1 i)"
proof -
  have W: "W = uint (getWidth m)" "H = uint (getHeight m)" and pos: "0 < W" "0 < H" and lt: "W * H < 2 ^ 31"
    using mo unfolding map_ok_def by blast+
  have sW: "sint (getWidth m) = W"
  proof -
    have "W * 1 \<le> W * H" using pos by (intro mult_left_mono) simp_all
    then have "W < 2 ^ 31" using lt by simp
    then show ?thesis unfolding W by (rule sint_small)
  qed
  have cg: "on_grid W H c" and cp: "px (as_nodes st c) = c mod W" "py (as_nodes st c) = c div W"
    using search_inv_rest(3) [OF inv c] search_inv_node [OF inv, of c] by (auto simp: reached_def)
  show thesis
  proof (cases "x < 0 \<or> W \<le> x \<or> y < 0 \<or> H \<le> y \<or> (x = c mod W \<and> y = c div W)
    \<or> isBlock m (word_of_int x) (word_of_int y)")
    case True
    then have v: "visit m e c (x, y) st = Inr st" by (auto simp: visit_def Let_def cp simp flip: W)
    have "\<not> (0 \<le> x \<and> x < W \<and> 0 \<le> y \<and> y < H \<and> hop m W H c i)"
    proof
      assume a: "0 \<le> x \<and> x < W \<and> 0 \<le> y \<and> y < H \<and> hop m W H c i"
      then have "i mod W = x" "i div W = y" by (simp_all add: i_def cell_index)
      with a True cell_of_index(5) [OF cg pos(1)] show False by (auto simp: hop_def i_def)
    qed
    with v show ?thesis by (rule skip)
  next
    case False
    then have in_map: "0 \<le> x" "x < W" "0 \<le> y" "y < H" by auto
    note cell = cell_index [OF in_map, folded i_def]
    have gn: "getNode x y (sint (getWidth m)) st = Some (i, st1)"
      unfolding sW st1_def i_def using in_map search_inv_rest(1) [OF inv] by (rule getNode_cell)
    note t = touch_inv [OF inv in_map, folded i_def, folded st1_def]
    have "i \<noteq> c" using False cell by auto
    then have hop: "hop m W H c i" using False cell cg xy by (auto simp: hop_def)
    have cl: "isClosed (as_nodes st1 i) \<longleftrightarrow> i \<in> set cl" using search_inv_node [OF t(1,2)] by blast
    have body: "visit m e c (x, y) st = (if isClosed (as_nodes st1 i) then Inr st1
        else if pg (as_nodes st1 i) \<noteq> 0 then
          if g < pg (as_nodes st1 i)
          then Inr (pushOpen i (set_node i ((as_nodes st1 i)\<lparr>pg := g, pf := g + ph (as_nodes st1 i),
            parent := Some c\<rparr>) st1))
          else Inr st1
        else let h = the (as_heuristic st1) x y (px (as_nodes st1 e)) (py (as_nodes st1 e)) in
          Inr (pushOpen i (set_node i ((as_nodes st1 i)\<lparr>ph := h, pg := g, pf := g + h, parent := Some c\<rparr>) st1)))"
      unfolding visit_def Let_def prod.case g_def using False gn
      by (cases "x = c mod W \<and> y = c div W") (simp_all only: cp if_False if_True de_Morgan_disj simp_thms
        option.case prod.case W [symmetric])
    show ?thesis
    proof (cases "i \<in> set cl \<or> pg (as_nodes st1 i) \<noteq> 0 \<and> \<not> g < pg (as_nodes st1 i)")
      case True
      then show ?thesis using body cl by (intro keep [OF _ in_map hop]) auto
    next
      case False
      then have out: "i \<notin> set cl" "\<not> isClosed (as_nodes st1 i)"
        and better: "pg (as_nodes st1 i) \<noteq> 0 \<longrightarrow> g < pg (as_nodes st1 i)" using cl by auto
      show ?thesis
      proof (cases "pg (as_nodes st1 i) = 0")
        case True
        then show ?thesis using body out by (intro update [OF _ in_map hop out(1)]) (simp_all add: Let_def)
      next
        case False
        then show ?thesis
          using body out better by (intro update [OF _ in_map hop out(1), of "ph (as_nodes st1 i)"]) simp_all
      qed
    qed
  qed
qed

lemma visit_ok:
  assumes mo: "map_ok m W H" and inv: "search_inv m W H s e cl st" and c: "c \<in> set cl"
    and xy: "\<bar>x - c mod W\<bar> \<le> 1" "\<bar>y - c div W\<bar> \<le> 1"
  shows "\<exists>st'. visit m e c (x, y) st = Inr st' \<and> search_inv m W H s e cl st'
    \<and> (\<forall>j. reached s st j \<longrightarrow> reached s st' j)
    \<and> (0 \<le> x \<and> x < W \<and> 0 \<le> y \<and> y < H \<and> hop m W H c (y * W + x) \<longrightarrow> reached s st' (y * W + x))
    \<and> lastPath st' = lastPath st \<and> searchGeneration st' = searchGeneration st"
  using assms
proof (cases rule: visit_cases)
  case skip
  with inv show ?thesis by blast
next
  case keep
  note t = touch_inv [OF inv keep(2-5)]
  have "reached s (set_node (y * W + x) (touch x y (searchGeneration st) (as_nodes st (y * W + x))) st) (y * W + x)"
    using keep(7) search_inv_rest(3) [OF t(1)] search_inv_node [OF t(1,2)] t(2) by (auto simp: reached_def)
  with keep(1) t show ?thesis by blast
next
  case (update h)
  note t = touch_inv [OF inv update(2-5)]
  note r = reach_inv [OF t(1) update(7) t(2) c update(6)]
  from update(1) show ?thesis using r(1-5) t by auto
qed

end
