(* ===== verification/A_Star_Path.thy ===== *)
theory A_Star_Path
  imports A_Star Complex_Main
begin

text \<open>
  What \<^verbatim>\<open>AStar::findPath\<close> returns: the open heap hands out the open node with the least
  estimate, a path that is found is a walk over free cells to the end, and with a budget of
  one round per cell a path is found exactly if the end can be reached.
\<close>

section \<open>Taking a node from the open heap\<close>

lemma stale_openHeap [simp]: "stale (st\<lparr>openHeap := q\<rparr>) = stale st"
  by (simp add: stale_def fun_eq_iff)

lemma popOpen_spec:
  "popOpen st = (r, st1) \<Longrightarrow>
     \<exists>X. st1 = st\<lparr>openHeap := openHeap st1\<rparr> \<and> (\<forall>x\<in>#X. stale st x)
       \<and> mset (openHeap st) = X + mset (openHeap st1)
           + (case r of None \<Rightarrow> {#} | Some c \<Rightarrow> {#(pf (as_nodes st c), c)#})
       \<and> (r = None \<longrightarrow> openHeap st1 = [])
       \<and> (\<forall>c. r = Some c \<longrightarrow> \<not> stale st (pf (as_nodes st c), c)
              \<and> (is_heap (openHeap st) \<longrightarrow> is_heap (openHeap st1)
                   \<and> (\<forall>x\<in>set (openHeap st1). pf (as_nodes st c) \<le> fst x)))"
proof (induction st arbitrary: r st1 rule: popOpen.induct)
  case (1 st)
  show ?case
  proof (cases "heap_pop (openHeap st)")
    case None
    then have "openHeap st = []" using heap.pop_None [of "openHeap st"] by simp
    with None 1(2) show ?thesis by (auto simp: popOpen.simps [of st])
  next
    case (Some p)
    obtain e q where p: "p = (e, q)" by fastforce
    have m: "mset (openHeap st) = add_mset e (mset q)" using Some p heap.pop_items by blast
    show ?thesis
    proof (cases "stale st e")
      case True
      then have "popOpen (st\<lparr>openHeap := q\<rparr>) = (r, st1)"
        using 1(2) Some p by (simp add: popOpen.simps [of st] Let_def)
      from 1(1) [OF Some p [symmetric] refl _ this] True
      obtain X where X: "st1 = st\<lparr>openHeap := openHeap st1\<rparr>" "\<forall>x\<in>#X. stale st x"
        "mset q = X + mset (openHeap st1) + (case r of None \<Rightarrow> {#} | Some c \<Rightarrow> {#(pf (as_nodes st c), c)#})"
        "r = None \<longrightarrow> openHeap st1 = []"
        "\<forall>c. r = Some c \<longrightarrow> \<not> stale st (pf (as_nodes st c), c)
          \<and> (is_heap q \<longrightarrow> is_heap (openHeap st1) \<and> (\<forall>x\<in>set (openHeap st1). pf (as_nodes st c) \<le> fst x))"
        by (auto cong: option.case_cong)
      have "is_heap (openHeap st) \<longrightarrow> is_heap q" using heap.pop_ordered Some p by blast
      then show ?thesis
        using X True m by (intro exI [of _ "add_mset e X"]) auto
    next
      case False
      then have r: "r = Some (snd e)" "st1 = st\<lparr>openHeap := q\<rparr>"
        using 1(2) Some p by (simp_all add: popOpen.simps [of st] Let_def)
      have e: "(pf (as_nodes st (snd e)), snd e) = e"
        using False by (cases e) (simp add: stale_def Let_def)
      have "pf (as_nodes st (snd e)) = fst e" using False by (simp add: stale_def Let_def)
      moreover have "is_heap q \<and> (\<forall>x\<in>set q. fst e \<le> fst x)" if "is_heap (openHeap st)"
        using heap.pop_ordered [OF that] heap.pop_least [OF that] Some p m by auto
      ultimately show ?thesis
        using r False m by (intro exI [of _ "{#}"]) (simp add: e)
    qed
  qed
qed

lemma popOpen_state:
  assumes "popOpen st = (r, st1)"
  shows "as_nodes st1 = as_nodes st" "searchGeneration st1 = searchGeneration st"
    "as_rows st1 = as_rows st" "lastPath st1 = lastPath st" "set (openHeap st1) \<subseteq> set (openHeap st)"
    "as_getCost st1 = as_getCost st" "as_heuristic st1 = as_heuristic st"
proof -
  obtain X Y where st1: "st1 = st\<lparr>openHeap := openHeap st1\<rparr>"
    and m: "mset (openHeap st) = X + mset (openHeap st1) + Y"
    using popOpen_spec [OF assms] by blast
  show "as_nodes st1 = as_nodes st" "searchGeneration st1 = searchGeneration st"
    "as_rows st1 = as_rows st" "lastPath st1 = lastPath st"
    "as_getCost st1 = as_getCost st" "as_heuristic st1 = as_heuristic st"
    by (subst st1, simp)+
  have "set_mset (mset (openHeap st1)) \<subseteq> set_mset (mset (openHeap st))"
    unfolding m by auto
  then show "set (openHeap st1) \<subseteq> set (openHeap st)" by simp
qed

lemma popOpen_kept:
  assumes "popOpen st = (r, st1)" and "x \<in> set (openHeap st)" and "\<not> stale st x"
  shows "x \<in> set (openHeap st1) \<or> r = Some (snd x)"
proof -
  obtain X where X: "\<forall>x\<in>#X. stale st x"
    "mset (openHeap st) = X + mset (openHeap st1)
       + (case r of None \<Rightarrow> {#} | Some c \<Rightarrow> {#(pf (as_nodes st c), c)#})"
    using popOpen_spec [OF assms(1)] by blast
  have "x \<in># mset (openHeap st)" using assms(2) by simp
  then have "x \<in> set (openHeap st1) \<or> x \<in># (case r of None \<Rightarrow> {#} | Some c \<Rightarrow> {#(pf (as_nodes st c), c)#})"
    unfolding X(2) using X(1) assms(3) by auto
  then show ?thesis by (auto split: option.splits)
qed

lemma popOpen_fresh:
  assumes "popOpen st = (Some c, st1)"
  shows "current st c" "\<not> isClosed (as_nodes st c)" "c \<in> snd ` set (openHeap st)"
proof -
  obtain X where X: "mset (openHeap st) = X + mset (openHeap st1) + {#(pf (as_nodes st c), c)#}"
    and n: "\<not> stale st (pf (as_nodes st c), c)"
    using popOpen_spec [OF assms] by auto
  show "current st c" "\<not> isClosed (as_nodes st c)"
    using n by (simp_all add: stale_def current_def Let_def)
  have "(pf (as_nodes st c), c) \<in># mset (openHeap st)" unfolding X by simp
  then show "c \<in> snd ` set (openHeap st)" by force
qed

section \<open>Exploring one node\<close>

definition keeps_reached :: "int \<Rightarrow> 'd astar \<Rightarrow> 'd astar \<Rightarrow> bool" where
  "keeps_reached s st st' \<longleftrightarrow> (\<forall>j. reached s st j \<longrightarrow> reached s st' j)
     \<and> lastPath st' = lastPath st \<and> searchGeneration st' = searchGeneration st"

lemma visits_ok:
  assumes mo: "map_ok m W H" and c: "c \<in> set cl"
  shows "search_inv m W H s e cl st \<Longrightarrow>
    \<forall>(x, y)\<in>set xys. \<bar>x - c mod W\<bar> \<le> 1 \<and> \<bar>y - c div W\<bar> \<le> 1 \<Longrightarrow>
    \<exists>st'. runE (visit m e c) xys st = Inr st' \<and> search_inv m W H s e cl st' \<and> keeps_reached s st st'
      \<and> (\<forall>(x, y)\<in>set xys. 0 \<le> x \<and> x < W \<and> 0 \<le> y \<and> y < H \<and> hop m W H c (y * W + x)
           \<longrightarrow> reached s st' (y * W + x))"
proof (induction xys arbitrary: st)
  case Nil
  then show ?case by (simp add: keeps_reached_def)
next
  case (Cons xy xys)
  obtain x y where xy: "xy = (x, y)" by fastforce
  then have near: "\<bar>x - c mod W\<bar> \<le> 1" "\<bar>y - c div W\<bar> \<le> 1" using Cons.prems(2) by auto
  from visit_ok [OF mo Cons.prems(1) c near] obtain st1 where
    v: "visit m e c (x, y) st = Inr st1" and i: "search_inv m W H s e cl st1"
    and k: "keeps_reached s st st1"
    and r: "0 \<le> x \<and> x < W \<and> 0 \<le> y \<and> y < H \<and> hop m W H c (y * W + x) \<longrightarrow> reached s st1 (y * W + x)"
    by (auto simp: keeps_reached_def)
  from Cons.IH [OF i] Cons.prems(2) obtain st2 where
    v2: "runE (visit m e c) xys st1 = Inr st2" and i2: "search_inv m W H s e cl st2"
    and k2: "keeps_reached s st1 st2"
    and r2: "\<forall>(x, y)\<in>set xys. 0 \<le> x \<and> x < W \<and> 0 \<le> y \<and> y < H \<and> hop m W H c (y * W + x)
           \<longrightarrow> reached s st2 (y * W + x)"
    by auto
  have "runE (visit m e c) (xy # xys) st = Inr st2" by (simp add: xy v v2)
  moreover have "keeps_reached s st st2" using k k2 by (simp add: keeps_reached_def)
  moreover have "0 \<le> x \<and> x < W \<and> 0 \<le> y \<and> y < H \<and> hop m W H c (y * W + x) \<longrightarrow> reached s st2 (y * W + x)"
    using r k2 by (simp add: keeps_reached_def)
  ultimately show ?case using i2 r2 xy by auto
qed

lemma surroundings_near:
  "\<forall>(x, y)\<in>set (surroundings cx cy). \<bar>x - cx\<bar> \<le> 1 \<and> \<bar>y - cy\<bar> \<le> 1"
  by (simp add: surroundings_def)

lemma surroundings_all:
  "\<bar>x - cx\<bar> \<le> 1 \<Longrightarrow> \<bar>y - cy\<bar> \<le> 1 \<Longrightarrow> (x, y) \<in> set (surroundings cx cy)"
proof -
  assume "\<bar>x - cx\<bar> \<le> 1" and "\<bar>y - cy\<bar> \<le> 1"
  then have "x = cx - 1 \<or> x = cx \<or> x = cx + 1" and "y = cy - 1 \<or> y = cy \<or> y = cy + 1" by arith+
  then show ?thesis unfolding surroundings_def by (elim disjE) simp_all
qed

text \<open>Everything next to a closed node has been reached.\<close>

definition explored :: "amap \<Rightarrow> int \<Rightarrow> int \<Rightarrow> int \<Rightarrow> int list \<Rightarrow> 'd astar \<Rightarrow> bool" where
  "explored m W H s cl st \<longleftrightarrow> (\<forall>c\<in>set cl. \<forall>j. hop m W H c j \<longrightarrow> reached s st j)"

lemma close_inv:
  assumes inv: "search_inv m W H s e cl st" and pop: "popOpen st = (Some c, st1)" and ne: "c \<noteq> e"
  shows "search_inv m W H s e (c # cl) (close c st1)" and "keeps_reached s st (close c st1)"
    and "px (as_nodes st1 c) = c mod W" and "py (as_nodes st1 c) = c div W"
proof -
  note p = popOpen_state [OF pop] and f = popOpen_fresh [OF pop]
  note rest = search_inv_rest [OF inv] and node = search_inv_node [OF inv f(1)]
  show "px (as_nodes st1 c) = c mod W" and "py (as_nodes st1 c) = c div W"
    using node p(1) by simp_all
  let ?st = "close c st1"
  have n: "as_nodes ?st = (as_nodes st)(c := (as_nodes st c)\<lparr>isClosed := True\<rparr>)"
    by (simp add: close_def set_node_def p)
  have o: "searchGeneration ?st = searchGeneration st" "as_rows ?st = as_rows st"
    "lastPath ?st = lastPath st" "openHeap ?st = openHeap st1"
    by (simp_all add: close_def set_node_def p)
  have cur [simp]: "current ?st i \<longleftrightarrow> current st i" for i by (simp add: current_def n o)
  have par [simp]: "parent (as_nodes ?st i) = parent (as_nodes st i)"
    "px (as_nodes ?st i) = px (as_nodes st i)" "py (as_nodes ?st i) = py (as_nodes st i)"
    "pg (as_nodes ?st i) = pg (as_nodes st i)" "pf (as_nodes ?st i) = pf (as_nodes st i)"
    "isClosed (as_nodes ?st i) \<longleftrightarrow> i = c \<or> isClosed (as_nodes st i)" for i
    by (simp_all add: n)
  have rea [simp]: "reached s ?st i \<longleftrightarrow> reached s st i" for i by (simp add: reached_def)
  show "keeps_reached s st ?st" by (simp add: keeps_reached_def o)
  have cr: "reached s st c" using f(3) rest(11) by auto
  have out: "c \<notin> set cl" using node f(2) by simp
  have first: "c = s" if "cl = []" using cr node that by (auto simp: reached_def)
  show "search_inv m W H s e (c # cl) ?st"
    unfolding search_inv_def cur par rea o
  proof (intro conjI allI ballI impI)
    show "W * H \<le> as_rows st * 1024" by (rule rest(1))
    show "distinct (c # cl)" using out rest(2) by simp
    show "parent (as_nodes st s) = None" "current st s" "current st e" "s \<noteq> e"
      using rest(5,6,7,9) by simp_all
    show "e \<notin> set (c # cl)" using ne rest(8) by simp
    show "s \<in> set (c # cl)" using first rest(10) by (cases "cl = []") auto
  next
    fix i assume i: "current st i"
    show "on_grid W H i" "px (as_nodes st i) = i mod W" "py (as_nodes st i) = i div W"
      "(i = c \<or> isClosed (as_nodes st i)) = (i \<in> set (c # cl))"
      "pg (as_nodes st i) \<noteq> 0 \<Longrightarrow> parent (as_nodes st i) \<noteq> None"
      "\<And>p. parent (as_nodes st i) = Some p \<Longrightarrow> p \<in> set (c # cl)"
      "\<And>p. parent (as_nodes st i) = Some p \<Longrightarrow> hop m W H p i"
      using search_inv_node [OF inv i] by auto
  next
    fix i assume "i \<in> set (c # cl)"
    then show "reached s st i" using cr rest(3) by auto
  next
    fix us i vs p assume cl: "c # cl = us @ i # vs" and pa: "parent (as_nodes st i) = Some p"
    show "p \<in> set vs"
    proof (cases us)
      case Nil
      with cl pa node show ?thesis by simp
    next
      case (Cons u us')
      with cl rest(4) [of us' i vs p] pa show ?thesis by simp
    qed
  next
    fix en assume "en \<in> set (openHeap st1)"
    then show "reached s st (snd en)" using p(5) rest(11) by blast
  next
    fix i assume i: "reached s st i" "i \<notin> set (c # cl)"
    then have "\<not> isClosed (as_nodes st i)"
      using search_inv_node [OF inv, of i] by (auto simp: reached_def)
    then have "\<not> stale st (pf (as_nodes st i), i)"
      using i by (simp add: stale_def Let_def reached_def current_def)
    moreover have "(pf (as_nodes st i), i) \<in> set (openHeap st)" using rest(12) i by simp
    ultimately show "(pf (as_nodes st i), i) \<in> set (openHeap st1)"
      using popOpen_kept [OF pop] i(2) by fastforce
  qed
qed

lemma explore_ok:
  assumes mo: "map_ok m W H" and inv: "search_inv m W H s e cl st" and ex: "explored m W H s cl st"
    and pop: "popOpen st = (Some c, st1)" and ne: "c \<noteq> e"
  shows "\<exists>st2. runE (visit m e c) (surroundings (px (as_nodes st1 c)) (py (as_nodes st1 c)))
      (close c st1) = Inr st2 \<and> search_inv m W H s e (c # cl) st2 \<and> explored m W H s (c # cl) st2
    \<and> lastPath st2 = lastPath st"
proof -
  note c = close_inv [OF inv pop ne]
  have pos: "0 < W" using mo unfolding map_ok_def by blast
  from visits_ok [OF mo _ c(1), of c "surroundings (c mod W) (c div W)"] surroundings_near
  obtain st2 where v: "runE (visit m e c) (surroundings (c mod W) (c div W)) (close c st1) = Inr st2"
    and i: "search_inv m W H s e (c # cl) st2" and k: "keeps_reached s (close c st1) st2"
    and r: "\<forall>(x, y)\<in>set (surroundings (c mod W) (c div W)). 0 \<le> x \<and> x < W \<and> 0 \<le> y \<and> y < H
      \<and> hop m W H c (y * W + x) \<longrightarrow> reached s st2 (y * W + x)"
    by auto
  have "reached s st2 j" if h: "hop m W H c j" for j
  proof -
    have j: "on_grid W H j" and n: "\<bar>j mod W - c mod W\<bar> \<le> 1" "\<bar>j div W - c div W\<bar> \<le> 1"
      using h by (auto simp: hop_def)
    note q = cell_of_index [OF j pos]
    from r surroundings_all [OF n] q h show ?thesis by auto
  qed
  moreover have "reached s st2 j" if "d \<in> set cl" "hop m W H d j" for d j
    using ex that c(2) k by (auto simp: explored_def keeps_reached_def)
  ultimately have "explored m W H s (c # cl) st2" by (auto simp: explored_def)
  with v i k c show ?thesis by (auto simp: keeps_reached_def)
qed

section \<open>Following the parents\<close>

lemma walk_target: "walk m W H s is \<Longrightarrow> is \<noteq> [] \<Longrightarrow> (hop m W H)\<^sup>*\<^sup>* s (List.last is)"
proof (induction "is" arbitrary: s)
  case Nil
  then show ?case by simp
next
  case (Cons i "is")
  then have h: "hop m W H s i" by simp
  show ?case
  proof (cases "is = []")
    case True
    with h show ?thesis by simp
  next
    case False
    with Cons have "(hop m W H)\<^sup>*\<^sup>* i (List.last is)" by simp
    with h False show ?thesis by (simp add: converse_rtranclp_into_rtranclp)
  qed
qed

text \<open>\<open>vs\<close> holds the nodes that were closed before the node the loop has come to.\<close>

lemma path_back:
  assumes inv: "search_inv m W H s e cl st"
  shows "cl = us @ vs \<Longrightarrow> c \<notin> set vs \<Longrightarrow> c = s \<or> parent (as_nodes st c) \<noteq> None \<Longrightarrow>
    \<forall>p. parent (as_nodes st c) = Some p \<longrightarrow> p \<in> set vs \<and> hop m W H p c \<Longrightarrow>
    walk m W H c acc \<Longrightarrow> s \<notin> set acc \<Longrightarrow> distinct (c # acc) \<Longrightarrow> set vs \<inter> set acc = {} \<Longrightarrow>
    \<exists>p q. path_loop (as_nodes st) c acc = Some p \<and> walk m W H s p \<and> distinct (s # p)
      \<and> p = q @ acc \<and> (c \<noteq> s \<longrightarrow> q \<noteq> [] \<and> List.last q = c)"
proof (induction vs arbitrary: us c acc rule: length_induct)
  case (1 vs)
  note rest = search_inv_rest [OF inv]
  show ?case
  proof (cases "parent (as_nodes st c)")
    case None
    with 1(4) have "c = s" by simp
    with None 1(6,8) have "path_loop (as_nodes st) c acc = Some acc \<and> walk m W H s acc \<and> distinct (s # acc)
      \<and> acc = [] @ acc" by (simp add: path_loop.simps)
    with \<open>c = s\<close> show ?thesis by blast
  next
    case (Some d)
    with 1(5) have d: "d \<in> set vs" "hop m W H d c" by auto
    then obtain xs ys where vs: "vs = xs @ d # ys" by (meson split_list)
    have cs: "c \<noteq> s" using Some rest(5) by auto
    have dr: "reached s st d" using rest(3) d(1) 1(2) by simp
    have nodes: "parent (as_nodes st d) = Some p \<Longrightarrow> hop m W H p d" for p
      using search_inv_node [OF inv, of d] dr by (auto simp: reached_def)
    have dd: "d \<notin> set ys" using rest(2) 1(2) vs by simp
    have "\<exists>p q. path_loop (as_nodes st) d (c # acc) = Some p \<and> walk m W H s p \<and> distinct (s # p)
      \<and> p = q @ (c # acc) \<and> (d \<noteq> s \<longrightarrow> q \<noteq> [] \<and> List.last q = d)"
    proof (rule 1(1) [rule_format])
      show "length ys < length vs" by (simp add: vs)
      show "cl = (us @ xs @ [d]) @ ys" by (simp add: vs 1(2))
      show "d \<notin> set ys" by (rule dd)
      show "d = s \<or> parent (as_nodes st d) \<noteq> None" using dr by (simp add: reached_def)
      show "walk m W H d (c # acc)" using d(2) 1(6) by simp
      show "s \<notin> set (c # acc)" using cs 1(7) by auto
      show "distinct (d # c # acc)" using 1(8,9) d(1) 1(3) by auto
      show "set ys \<inter> set (c # acc) = {}" using 1(9,3) vs by auto
      show "p \<in> set ys \<and> hop m W H p d" if "parent (as_nodes st d) = Some p" for p
        using rest(4) [of "us @ xs" d ys p] that nodes 1(2) vs by simp
    qed
    then obtain p q where "path_loop (as_nodes st) d (c # acc) = Some p" "walk m W H s p"
      "distinct (s # p)" "p = (q @ [c]) @ acc" by auto
    moreover from this Some have "path_loop (as_nodes st) c acc = Some p"
      by (simp add: path_loop.simps [of _ c])
    ultimately show ?thesis by (metis last_snoc snoc_eq_iff_butlast)
  qed
qed

lemma path_found:
  assumes "search_inv m W H s e cl st" and "reached s st e"
  shows "\<exists>p. path_loop (as_nodes st) e [] = Some p \<and> walk m W H s p \<and> distinct (s # p)
    \<and> p \<noteq> [] \<and> List.last p = e"
proof -
  note rest = search_inv_rest [OF assms(1)]
  have "\<forall>p. parent (as_nodes st e) = Some p \<longrightarrow> p \<in> set cl \<and> hop m W H p e"
    using search_inv_node [OF assms(1) rest(7)] by blast
  moreover have "e = s \<or> parent (as_nodes st e) \<noteq> None" using assms(2) by (auto simp: reached_def)
  ultimately obtain p q where "path_loop (as_nodes st) e [] = Some p" "walk m W H s p" "distinct (s # p)"
    "p = q @ []" "e \<noteq> s \<longrightarrow> q \<noteq> [] \<and> List.last q = e"
    using path_back [OF assms(1), of "[]" cl e "[]"] rest(8) by auto
  with rest(9) show ?thesis by auto
qed

section \<open>The main loop\<close>

lemma closed_enough:
  assumes inv: "search_inv m W H s e cl st"
  shows "int (length cl) < W * H"
proof -
  note rest = search_inv_rest [OF inv]
  have "on_grid W H i" if "i \<in> set (e # cl)" for i
    using search_inv_node [OF inv, of i] rest(3,7) that by (auto simp: reached_def)
  then have "set (e # cl) \<subseteq> {0..<W * H}" by (auto simp: on_grid_def)
  then have "card (set (e # cl)) \<le> card {0..<W * H}" by (intro card_mono) auto
  moreover have "card (set (e # cl)) = Suc (length cl)"
    using rest(2,8) by (simp add: distinct_card)
  ultimately show ?thesis by simp
qed

lemma no_open_left:
  assumes inv: "search_inv m W H s e cl st" and ex: "explored m W H s cl st"
    and pop: "popOpen st = (None, st1)"
  shows "\<not> (hop m W H)\<^sup>*\<^sup>* s e"
proof -
  note rest = search_inv_rest [OF inv]
  have all: "i \<in> set cl" if r: "reached s st i" for i
  proof (rule ccontr)
    assume out: "i \<notin> set cl"
    then have "\<not> isClosed (as_nodes st i)"
      using search_inv_node [OF inv, of i] r by (auto simp: reached_def)
    then have "\<not> stale st (pf (as_nodes st i), i)"
      using r by (simp add: stale_def Let_def reached_def current_def)
    with popOpen_kept [OF pop, of "(pf (as_nodes st i), i)"] rest(12) [OF r out] popOpen_spec [OF pop]
    show False by auto
  qed
  have "i \<in> set cl" if "(hop m W H)\<^sup>*\<^sup>* s i" for i
    using that
  proof induction
    case base
    show ?case by (rule all) (simp add: reached_def rest(6))
  next
    case (step i j)
    then show ?case using ex by (auto simp: explored_def intro: all)
  qed
  with rest(8) show ?thesis by blast
qed

lemma search_loop_ok:
  assumes mo: "map_ok m W H"
  shows "search_inv m W H s e cl st \<Longrightarrow> explored m W H s cl st \<Longrightarrow> lastPath st = [] \<Longrightarrow>
    \<exists>st'. search_loop n m e st = Inr st'
      \<and> (lastPath st' \<noteq> [] \<longrightarrow> walk m W H s (lastPath st') \<and> distinct (s # lastPath st')
           \<and> List.last (lastPath st') = e)
      \<and> (lastPath st' = [] \<longrightarrow> int (n + length cl) < W * H \<or> \<not> (hop m W H)\<^sup>*\<^sup>* s e)"
proof (induction n arbitrary: cl st)
  case 0
  with closed_enough [OF 0(1)] show ?case by simp
next
  case (Suc n)
  note inv = Suc.prems(1) and ex = Suc.prems(2)
  obtain r st1 where pop: "popOpen st = (r, st1)" by fastforce
  note st1 = popOpen_state [OF pop]
  show ?case
  proof (cases r)
    case None
    with pop no_open_left [OF inv ex] st1 Suc.prems(3) show ?thesis by simp
  next
    case (Some c)
    note pop' = pop [unfolded Some]
    show ?thesis
    proof (cases "c = e")
      case True
      have "reached s st e" using popOpen_fresh(3) [OF pop'] search_inv_rest(11) [OF inv] True by auto
      from path_found [OF inv this] obtain p where
        "path_loop (as_nodes st) e [] = Some p" "walk m W H s p" "distinct (s # p)" "p \<noteq> []"
        "List.last p = e" by blast
      with pop' True st1 Suc.prems(3) show ?thesis by simp
    next
      case False
      from explore_ok [OF mo inv ex pop' False] Suc.prems(3) obtain st2 where
        v: "runE (visit m e c) (surroundings (px (as_nodes st1 c)) (py (as_nodes st1 c)))
          (close c st1) = Inr st2"
        and "search_inv m W H s e (c # cl) st2" "explored m W H s (c # cl) st2" "lastPath st2 = []"
        by auto
      from Suc.IH [OF this(2,3,4)] v pop' False show ?thesis by simp
    qed
  qed
qed

section \<open>The generation stamps\<close>

text \<open>No node bears a stamp of a later search, and what is not allocated bears none.\<close>

definition as_ok :: "'d astar \<Rightarrow> bool" where
  "as_ok st \<longleftrightarrow> 0 \<le> as_rows st
     \<and> (\<forall>i. generation (as_nodes st i) \<le> searchGeneration st
          \<and> (0 \<le> i \<and> i < as_rows st * 1024 \<or> generation (as_nodes st i) = 0))"

lemma as_ok_new: "as_ok (astar_new mx)"
  by (simp add: as_ok_def astar_new_def fresh_node_def)

lemma as_ok_cong:
  assumes "as_rows st' = as_rows st" and "searchGeneration st' = searchGeneration st"
    and "\<And>i. generation (as_nodes st' i) = generation (as_nodes st i)"
  shows "as_ok st' \<longleftrightarrow> as_ok st"
  using assms by (simp add: as_ok_def)

lemma pushOpen_as_ok: "as_ok (pushOpen i st) \<longleftrightarrow> as_ok st"
  by (rule as_ok_cong) (simp_all add: pushOpen_def)

lemma set_node_as_ok:
  "generation n = generation (as_nodes st i) \<Longrightarrow> as_ok (set_node i n st) \<longleftrightarrow> as_ok st"
  by (rule as_ok_cong) (simp_all add: set_node_def)

lemma generation_touch [simp]: "generation (touch x y g n) = g"
  by (simp add: touch_def)

lemma getNode_as_ok:
  assumes "as_ok st" and "getNode x y w st = Some (i, st')"
  shows "as_ok st'"
proof -
  have i: "0 \<le> i" "drop_bit 10 i < as_rows st"
    and st': "st' = st\<lparr>as_nodes := (as_nodes st)(i := touch x y (searchGeneration st) (as_nodes st i))\<rparr>"
    using assms(2) by (auto simp: getNode_def Let_def split: if_splits)
  have "i div 1024 < as_rows st" using i(2) by (simp add: drop_bit_eq_div)
  moreover have "i = i div 1024 * 1024 + i mod 1024" and "i mod 1024 < 1024" by simp_all
  ultimately have "i < as_rows st * 1024" by linarith
  with assms(1) i(1) show ?thesis by (simp add: as_ok_def st')
qed

lemma visit_as_ok:
  assumes "as_ok st" and "visit m endi c xy st = Inr st'"
  shows "as_ok st'"
proof -
  obtain x y where xy: "xy = (x, y)" by fastforce
  show ?thesis
  proof (cases "st' = st")
    case False
    with assms(2) obtain i st1 where g: "getNode x y (sint (getWidth m)) st = Some (i, st1)"
      by (auto simp: visit_def xy Let_def split: if_splits option.splits)
    note ok1 = getNode_as_ok [OF assms(1) g]
    show ?thesis
      using assms(2) False ok1
      by (auto simp: visit_def xy Let_def g pushOpen_as_ok set_node_as_ok split: if_splits)
  qed (use assms in simp)
qed

lemma search_loop_as_ok:
  "as_ok st \<Longrightarrow> search_loop n m endi st = Inr st' \<Longrightarrow> as_ok st'"
proof (induction n arbitrary: st)
  case 0
  then show ?case by simp
next
  case (Suc n)
  obtain r st1 where pop: "popOpen st = (r, st1)" by fastforce
  have ok1: "as_ok st1"
    using Suc.prems(1) as_ok_cong [of st1 st] popOpen_state [OF pop] by simp
  show ?case
  proof (cases r)
    case None
    with Suc.prems(2) pop ok1 show ?thesis by simp
  next
    case (Some c)
    show ?thesis
    proof (cases "c = endi")
      case True
      then obtain p where "st' = st1\<lparr>lastPath := p\<rparr>"
        using Suc.prems(2) pop Some by (auto split: option.splits)
      with ok1 show ?thesis by (simp add: as_ok_def)
    next
      case False
      then obtain st2 where
        v: "runE (visit m endi c) (surroundings (px (as_nodes st1 c)) (py (as_nodes st1 c)))
          (close c st1) = Inr st2"
        and l: "search_loop n m endi st2 = Inr st'"
        using Suc.prems(2) pop Some by (auto simp: bindE_eq_Inr)
      have "as_ok (close c st1)" using ok1 by (simp add: close_def set_node_as_ok)
      from runE_invariant [where P = as_ok, OF _ this v] have "as_ok st2"
        by (blast intro: visit_as_ok)
      with l show ?thesis by (rule Suc.IH [rotated])
    qed
  qed
qed

lemma word_Suc_above:
  fixes x g :: u32
  assumes "x \<le> g" and "g + 1 \<noteq> 0"
  shows "x < g + 1"
  using assms unatSuc [of g] by (simp add: word_less_nat_alt word_le_nat_alt add.commute)

lemma next_generation_ok:
  assumes "as_ok st"
  shows "as_ok (next_generation st)" and "\<not> current (next_generation st) i"
proof -
  have "as_ok (next_generation st) \<and> (\<forall>i. \<not> current (next_generation st) i)"
  proof (cases "searchGeneration st + 1 = 0")
    case True
    with assms show ?thesis
      by (auto simp: next_generation_def as_ok_def current_def fresh_node_def NUM_NODE_SIZE_def Let_def)
  next
    case False
    have "generation (as_nodes st i) < searchGeneration st + 1" for i
      using assms False by (intro word_Suc_above) (simp_all add: as_ok_def)
    then have "generation (as_nodes st i) \<le> searchGeneration st + 1"
      "generation (as_nodes st i) \<noteq> searchGeneration st + 1" for i
      by (simp_all add: less_imp_le less_imp_neq)
    with False assms show ?thesis
      by (simp add: next_generation_def as_ok_def current_def Let_def)
  qed
  then show "as_ok (next_generation st)" and "\<not> current (next_generation st) i" by blast+
qed

lemma resizeMap_ok: "as_ok st \<Longrightarrow> as_ok (resizeMap w h st)"
  by (auto simp: resizeMap_def as_ok_def Let_def NUM_NODE_SIZE_def fresh_node_def
      intro: order_less_le_trans)

lemma findPath_keeps_ok:
  assumes ok: "as_ok st" and f: "findPath m sx sy ex ey st = Inr (b, st')"
  shows "as_ok st'"
proof -
  let ?st0 = "st\<lparr>lastPath := [], openHeap := []\<rparr>"
  let ?st1 = "use_defaults (next_generation (resizeMap (sint (getWidth m)) (sint (getHeight m)) ?st0))"
  have cong: "as_ok (st\<lparr>openHeap := q\<rparr>) \<longleftrightarrow> as_ok st" for st :: "'a astar" and q
    by (simp add: as_ok_def)
  have ok0: "as_ok ?st0" using ok by (simp add: as_ok_def)
  have "as_ok (use_defaults st) \<longleftrightarrow> as_ok st" for st :: "'a astar"
    by (simp add: as_ok_def use_defaults_def)
  then have ok1: "as_ok ?st1"
    using next_generation_ok(1) [OF resizeMap_ok [OF ok0]] by blast
  obtain st2 where st2: "st2 = (case getNode sx sy (sint (getWidth m)) ?st1 of None \<Rightarrow> ?st1 | Some (s, t) \<Rightarrow> t)"
    and ok2: "as_ok st2"
    using ok1 getNode_as_ok [OF ok1] by (auto split: option.splits)
  obtain st3 where st3: "st3 = (case getNode ex ey (sint (getWidth m)) st2 of None \<Rightarrow> st2 | Some (e, t) \<Rightarrow> t)"
    and ok3: "as_ok st3"
    using ok2 getNode_as_ok [OF ok2] by (auto split: option.splits)
  have loop: "as_ok st4" if "search_loop n m e (pushOpen s st3) = Inr st4" for n e s st4
    using search_loop_as_ok [OF _ that] ok3 by (simp add: pushOpen_as_ok)
  from f ok0 ok3 show ?thesis
    unfolding findPath_def Let_def st2 [symmetric] st3 [symmetric]
    by (auto simp: bindE_eq_Inr cong split: if_splits option.splits) (insert loop, blast+)
qed

section \<open>Starting a search\<close>

lemma start_inv:
  fixes st :: "'d::{linorder,zero} astar"
  assumes none: "\<And>i. \<not> current st i" and rows: "W * H \<le> as_rows st * 1024" and heap: "openHeap st = []"
    and sc: "0 \<le> sx" "sx < W" "0 \<le> sy" "sy < H" and ec: "0 \<le> ex" "ex < W" "0 \<le> ey" "ey < H"
    and ne: "\<not> (sx = ex \<and> sy = ey)"
  shows "\<exists>st2 st3. getNode sx sy W st = Some (sy * W + sx, st2) \<and> getNode ex ey W st2 = Some (ey * W + ex, st3)
    \<and> search_inv m W H (sy * W + sx) (ey * W + ex) [] (pushOpen (sy * W + sx) st3)
    \<and> lastPath st3 = lastPath st \<and> maxCount st3 = maxCount st"
proof -
  let ?s = "sy * W + sx" and ?e = "ey * W + ex" and ?g = "searchGeneration st"
  note s = cell_index [OF sc] and e = cell_index [OF ec]
  have se: "?s \<noteq> ?e" using s(1,2) e(1,2) ne by metis
  let ?st2 = "set_node ?s (touch sx sy ?g (as_nodes st ?s)) st"
  let ?st3 = "set_node ?e (touch ex ey ?g (as_nodes ?st2 ?e)) ?st2"
  have g1: "getNode sx sy W st = Some (?s, ?st2)" by (rule getNode_cell [OF sc rows])
  have "searchGeneration ?st2 = ?g" "W * H \<le> as_rows ?st2 * 1024" using rows by (simp_all add: set_node_def)
  with getNode_cell [OF ec this(2)] have g2: "getNode ex ey W ?st2 = Some (?e, ?st3)" by simp
  let ?st = "pushOpen ?s ?st3"
  have t: "parent (touch x y ?g (as_nodes st i)) = None" "px (touch x y ?g (as_nodes st i)) = x"
    "py (touch x y ?g (as_nodes st i)) = y" "pg (touch x y ?g (as_nodes st i)) = 0"
    "\<not> isClosed (touch x y ?g (as_nodes st i))" for x y i
    using none [of i] by (simp_all add: touch_def current_def)
  have n: "as_nodes ?st = (as_nodes st)(?s := touch sx sy ?g (as_nodes st ?s),
      ?e := touch ex ey ?g (as_nodes st ?e))"
    using se by (simp add: pushOpen_def set_node_def)
  have o: "searchGeneration ?st = ?g" "as_rows ?st = as_rows st" "openHeap ?st = [(pf (as_nodes ?st ?s), ?s)]"
  proof -
    have "heap_push x [] = [x]" for x :: "'d \<times> int" using heap.push_items [of x "[]"] by simp
    then show "openHeap ?st = [(pf (as_nodes ?st ?s), ?s)]"
      using heap by (simp add: pushOpen_def set_node_def)
  qed (simp_all add: pushOpen_def set_node_def)
  have c: "current ?st i \<longleftrightarrow> i = ?s \<or> i = ?e" for i
    using none [of i] by (auto simp: current_def n o)
  have r: "reached ?s ?st i \<longleftrightarrow> i = ?s" for i
    unfolding reached_def c using t se by (auto simp: n)
  have "search_inv m W H ?s ?e [] ?st"
    unfolding search_inv_def c r o(2,3) using s e se rows t by (auto simp: n)
  with g1 g2 show ?thesis by (auto simp: set_node_def)
qed

lemma resizeMap_rows:
  assumes "map_ok m W H"
  shows "W * H \<le> as_rows (resizeMap W H st) * 1024"
proof -
  have "W * H \<le> (W * H + 1023) div 1024 * 1024" by simp
  then show ?thesis by (auto simp: resizeMap_def Let_def NUM_NODE_SIZE_def)
qed

lemma map_ok_width:
  assumes "map_ok m W H"
  shows "sint (getWidth m) = W" "sint (getHeight m) = H"
proof -
  have m: "W = uint (getWidth m)" "H = uint (getHeight m)" "0 < W" "0 < H" "W * H < 2 ^ 31"
    using assms unfolding map_ok_def by blast+
  then have "W * 1 \<le> W * H" "1 * H \<le> W * H" by (intro mult_mono; simp)+
  with m(5) have "uint (getWidth m) < 2 ^ 31" "uint (getHeight m) < 2 ^ 31" using m(1,2) by linarith+
  then show "sint (getWidth m) = W" "sint (getHeight m) = H" using m(1,2) by (simp_all add: sint_small)
qed

lemma findPath_result:
  fixes st :: "'d::linordered_field astar"
  assumes mo: "map_ok m W H" and ok: "as_ok st"
    and sc: "0 \<le> sx" "sx < W" "0 \<le> sy" "sy < H" and ec: "0 \<le> ex" "ex < W" "0 \<le> ey" "ey < H"
    and ne: "\<not> (sx = ex \<and> sy = ey)" and free: "\<not> isBlock m (word_of_int ex) (word_of_int ey)"
  shows "\<exists>st'. findPath m sx sy ex ey st = Inr (lastPath st' \<noteq> [], st')
    \<and> (lastPath st' \<noteq> [] \<longrightarrow> walk m W H (sy * W + sx) (lastPath st')
         \<and> distinct ((sy * W + sx) # lastPath st') \<and> List.last (lastPath st') = ey * W + ex)
    \<and> (lastPath st' = [] \<longrightarrow> maxCount st < W * H \<or> \<not> (hop m W H)\<^sup>*\<^sup>* (sy * W + sx) (ey * W + ex))"
proof -
  let ?s = "sy * W + sx" and ?e = "ey * W + ex"
  let ?st0 = "st\<lparr>lastPath := [], openHeap := []\<rparr>"
  define st1 where "st1 = use_defaults (next_generation (resizeMap W H ?st0))"
  note w = map_ok_width [OF mo]
  have "as_ok ?st0" using ok by (simp add: as_ok_def)
  then have "\<not> current st1 i" for i
    using next_generation_ok(2) [OF resizeMap_ok] by (simp add: st1_def use_defaults_def current_def)
  moreover have "W * H \<le> as_rows st1 * 1024" "openHeap st1 = []" "lastPath st1 = []" "maxCount st1 = maxCount st"
    using resizeMap_rows [OF mo, of ?st0]
    by (simp_all add: st1_def use_defaults_def next_generation_def resizeMap_def Let_def)
  ultimately obtain st2 st3 where g: "getNode sx sy W st1 = Some (?s, st2)" "getNode ex ey W st2 = Some (?e, st3)"
    and i: "search_inv m W H ?s ?e [] (pushOpen ?s st3)" and l: "lastPath st3 = []" "maxCount st3 = maxCount st"
    using start_inv [of st1 W H sx sy ex ey m, OF _ _ _ sc ec ne] by auto
  have "explored m W H ?s [] (pushOpen ?s st3)" "lastPath (pushOpen ?s st3) = []"
    using l by (simp_all add: explored_def pushOpen_def)
  from search_loop_ok [OF mo i this, of "nat (maxCount st)"] obtain st4 where
    s4: "search_loop (nat (maxCount st)) m ?e (pushOpen ?s st3) = Inr st4"
    and r: "lastPath st4 \<noteq> [] \<longrightarrow> walk m W H ?s (lastPath st4) \<and> distinct (?s # lastPath st4)
           \<and> List.last (lastPath st4) = ?e"
      "lastPath st4 = [] \<longrightarrow> int (nat (maxCount st)) < W * H \<or> \<not> (hop m W H)\<^sup>*\<^sup>* ?s ?e"
    by auto
  have "findPath m sx sy ex ey st = Inr (lastPath st4 \<noteq> [], st4\<lparr>openHeap := []\<rparr>)"
    using ne free unfolding findPath_def Let_def w st1_def [symmetric] by (auto simp: g l s4)
  moreover have "int (nat (maxCount st)) < W * H \<longrightarrow> maxCount st < W * H" by linarith
  ultimately show ?thesis using r by (intro exI [of _ "st4\<lparr>openHeap := []\<rparr>"]) auto
qed

section \<open>Properties\<close>

text \<open>C30. A search between two cells of the map returns, whatever the heuristic and the costs
  are, and when it says that it found a path, the path is a walk over free cells, each a neighbour of
  the one before, from the start to the end, that visits no cell twice.\<close>

theorem astar_path_sound:
  fixes st :: "'d::linordered_field astar"
  assumes "map_ok m W H" and "as_ok st"
    and "0 \<le> sx" "sx < W" "0 \<le> sy" "sy < H" and "0 \<le> ex" "ex < W" "0 \<le> ey" "ey < H"
  shows "\<exists>b st'. findPath m sx sy ex ey st = Inr (b, st') \<and> as_ok st'
    \<and> (b \<longrightarrow> walk m W H (sy * W + sx) (lastPath st') \<and> distinct ((sy * W + sx) # lastPath st')
         \<and> List.last ((sy * W + sx) # lastPath st') = ey * W + ex)"
proof -
  consider "sx = ex \<and> sy = ey" | "\<not> (sx = ex \<and> sy = ey)" "isBlock m (word_of_int ex) (word_of_int ey)"
    | "\<not> (sx = ex \<and> sy = ey)" "\<not> isBlock m (word_of_int ex) (word_of_int ey)" by blast
  then show ?thesis
  proof cases
    case 1
    then show ?thesis using assms(2)
      by (intro exI [of _ True] exI [of _ "st\<lparr>lastPath := [], openHeap := []\<rparr>"])
        (simp add: findPath_def Let_def as_ok_def)
  next
    case 2
    then show ?thesis using assms(2) by (auto simp: findPath_def Let_def as_ok_def)
  next
    case 3
    from findPath_result [OF assms 3] findPath_keeps_ok [OF assms(2)] show ?thesis by fastforce
  qed
qed

definition small_map :: amap where
  "small_map = \<lparr>getWidth = 3, getHeight = 2, isBlock = \<lambda>x y. x = 1 \<and> y = 0\<rparr>"

lemma small_map_ok: "map_ok small_map 3 2"
  by (simp add: map_ok_def small_map_def)

theorem astar_path_sound_witness:
  "\<exists>b st'. findPath small_map 0 0 2 0 (astar_new 512 :: rat astar) = Inr (b, st')
     \<and> (b \<longrightarrow> walk small_map 3 2 0 (lastPath st'))"
  using astar_path_sound [OF small_map_ok as_ok_new, of 0 0 2 0 512] by fastforce

text \<open>C31. With a budget of one round for every cell of the map, \<^verbatim>\<open>findPath\<close> finds a path
  exactly if there is one.\<close>

theorem astar_path_complete:
  fixes st :: "'d::linordered_field astar"
  assumes "map_ok m W H" and "as_ok st"
    and "0 \<le> sx" "sx < W" "0 \<le> sy" "sy < H" and "0 \<le> ex" "ex < W" "0 \<le> ey" "ey < H"
    and "W * H \<le> maxCount st" and "findPath m sx sy ex ey st = Inr (b, st')"
  shows "b \<longleftrightarrow> (hop m W H)\<^sup>*\<^sup>* (sy * W + sx) (ey * W + ex)"
proof (cases "sx = ex \<and> sy = ey")
  case True
  with assms(12) show ?thesis by (auto simp: findPath_def Let_def)
next
  case ne: False
  note s = cell_index [OF assms(3-6)] and e = cell_index [OF assms(7-10)]
  have se: "sy * W + sx \<noteq> ey * W + ex" using s(1,2) e(1,2) ne by metis
  show ?thesis
  proof (cases "isBlock m (word_of_int ex) (word_of_int ey)")
    case True
    then have "\<not> hop m W H i (ey * W + ex)" for i using e by (simp add: hop_def)
    then have "\<not> (hop m W H)\<^sup>*\<^sup>* (sy * W + sx) (ey * W + ex)"
      using se by (auto elim: rtranclp.cases)
    moreover have "\<not> b" using assms(12) ne True by (auto simp: findPath_def Let_def)
    ultimately show ?thesis by blast
  next
    case False
    from findPath_result [OF assms(1-10) ne False] assms(11,12) show ?thesis
      using walk_target [of m W H "sy * W + sx" "lastPath st'"] by fastforce
  qed
qed

theorem astar_path_complete_witness:
  "\<exists>st'. findPath small_map 0 0 2 0 (astar_new 512 :: rat astar) = Inr (True, st')"
proof -
  have "\<not> isBlock small_map (word_of_int 2) (word_of_int 0)" by (simp add: small_map_def)
  from findPath_result [OF small_map_ok as_ok_new, of 0 0 2 0 512] this obtain b st' where
    f: "findPath small_map 0 0 2 0 (astar_new 512 :: rat astar) = Inr (b, st')" by auto
  have "hop small_map 3 2 0 4" "hop small_map 3 2 4 2"
    by (simp_all add: hop_def on_grid_def small_map_def)
  then have "(hop small_map 3 2)\<^sup>*\<^sup>* 0 2" by (meson converse_rtranclp_into_rtranclp rtranclp.rtrancl_refl)
  with astar_path_complete [OF small_map_ok as_ok_new, of 0 0 2 0 512, OF _ _ _ _ _ _ _ _ _ f] f
  show ?thesis by (simp add: astar_new_def)
qed

text \<open>\<^verbatim>\<open>popOpen\<close> hands out an open node of the current search whose estimate is
  least, skips only stale entries and says that there is none only when every entry is stale.\<close>

theorem astar_pop_least:
  assumes "is_heap (openHeap st)" and "popOpen st = (r, st1)"
  shows "is_heap (openHeap st1) \<and> st1 = st\<lparr>openHeap := openHeap st1\<rparr>
    \<and> (case r of
         None \<Rightarrow> \<forall>x\<in>set (openHeap st). stale st x
       | Some c \<Rightarrow> (pf (as_nodes st c), c) \<in> set (openHeap st) \<and> \<not> stale st (pf (as_nodes st c), c)
           \<and> (\<forall>x\<in>set (openHeap st). \<not> stale st x \<longrightarrow> pf (as_nodes st c) \<le> fst x
                \<and> (x \<in> set (openHeap st1) \<or> x = (pf (as_nodes st c), c))))"
proof -
  obtain X where X: "st1 = st\<lparr>openHeap := openHeap st1\<rparr>" "\<forall>x\<in>#X. stale st x"
    "mset (openHeap st) = X + mset (openHeap st1)
           + (case r of None \<Rightarrow> {#} | Some c \<Rightarrow> {#(pf (as_nodes st c), c)#})"
    "r = None \<longrightarrow> openHeap st1 = []"
    "\<forall>c. r = Some c \<longrightarrow> \<not> stale st (pf (as_nodes st c), c)
       \<and> is_heap (openHeap st1) \<and> (\<forall>x\<in>set (openHeap st1). pf (as_nodes st c) \<le> fst x)"
    using popOpen_spec [OF assms(2)] assms(1) by blast
  have s: "set (openHeap st) = set_mset X \<union> set (openHeap st1)
      \<union> (case r of None \<Rightarrow> {} | Some c \<Rightarrow> {(pf (as_nodes st c), c)})"
    using arg_cong [OF X(3), of set_mset] by (auto split: option.splits)
  show ?thesis
  proof (cases r)
    case None
    with X s show ?thesis by (auto simp: is_heap_def)
  next
    case (Some c)
    with X(2,5) have n: "\<not> stale st (pf (as_nodes st c), c)" "is_heap (openHeap st1)"
      "\<forall>x\<in>set (openHeap st1). pf (as_nodes st c) \<le> fst x" by auto
    with X(1,2) s Some show ?thesis by simp blast
  qed
qed

theorem astar_pop_least_witness:
  "let st = (astar_new 9 :: int astar)\<lparr>openHeap := heap_push (4, 1) (heap_push (6, 2) (heap_push (5, 1) [])),
       as_nodes := \<lambda>i. fresh_node\<lparr>pf := i + 4\<rparr>\<rparr>
   in fst (popOpen st) = Some 1 \<and> (\<forall>x\<in>set (openHeap st). \<not> stale st x \<longrightarrow> 5 \<le> fst x)"
proof -
  let ?st = "(astar_new 9 :: int astar)\<lparr>openHeap := heap_push (4, 1) (heap_push (6, 2) (heap_push (5, 1) [])),
       as_nodes := \<lambda>i. fresh_node\<lparr>pf := i + 4\<rparr>\<rparr>"
  have "is_heap ([] :: (int \<times> int) list)" by (simp add: is_heap_def)
  then have h: "is_heap (openHeap ?st)" by (simp add: heap_push_heap)
  have 1: "fst (popOpen ?st) = Some 1" by code_simp
  have "popOpen ?st = (fst (popOpen ?st), snd (popOpen ?st))" by simp
  from astar_pop_least [OF h this, unfolded 1]
  have "\<forall>x\<in>set (openHeap ?st). \<not> stale ?st x \<longrightarrow> pf (as_nodes ?st 1) \<le> fst x" by simp
  with 1 show ?thesis unfolding Let_def by simp
qed

end
