(* ===== verification/A_Star_Cost.thy ===== *)
theory A_Star_Cost
  imports A_Star_Path
begin

text \<open>
  What the paths of \<^verbatim>\<open>AStar::findPath\<close> cost. A closed node is never opened again, so the
  heuristic has to respect the costs: if no step lowers the estimate by more than w times its cost,
  a path that is found costs at most w times as much as any other. With w = 1 it is a cheapest path;
  the default functions have w = 2 / 1.414. Costs are added exactly here; the rounding of doubles is not
  modelled.
\<close>

section \<open>The cost of a walk\<close>

definition hop_cost :: "int \<Rightarrow> (int \<Rightarrow> int \<Rightarrow> int \<Rightarrow> int \<Rightarrow> 'd) \<Rightarrow> int \<Rightarrow> int \<Rightarrow> 'd" where
  "hop_cost W cost i j = cost (i mod W) (i div W) (j mod W) (j div W)"

fun walk_cost :: "int \<Rightarrow> (int \<Rightarrow> int \<Rightarrow> int \<Rightarrow> int \<Rightarrow> 'd::linordered_field) \<Rightarrow> int \<Rightarrow> int list \<Rightarrow> 'd" where
  "walk_cost W cost s [] = 0"
| "walk_cost W cost s (i # is) = hop_cost W cost s i + walk_cost W cost i is"

definition estimate :: "int \<Rightarrow> (int \<Rightarrow> int \<Rightarrow> int \<Rightarrow> int \<Rightarrow> 'd) \<Rightarrow> int \<Rightarrow> int \<Rightarrow> 'd" where
  "estimate W heur e i = heur (i mod W) (i div W) (e mod W) (e div W)"

text \<open>Steps cost something, and a step lowers the estimate by at most w times its cost.\<close>

definition fair_estimates ::
    "amap \<Rightarrow> int \<Rightarrow> int \<Rightarrow> int \<Rightarrow> 'd::linordered_field \<Rightarrow> (int \<Rightarrow> int \<Rightarrow> int \<Rightarrow> int \<Rightarrow> 'd)
      \<Rightarrow> (int \<Rightarrow> int \<Rightarrow> int \<Rightarrow> int \<Rightarrow> 'd) \<Rightarrow> bool" where
  "fair_estimates m W H e w cost heur \<longleftrightarrow> 1 \<le> w \<and> (\<forall>i j. hop m W H i j \<longrightarrow>
     0 < hop_cost W cost i j \<and> estimate W heur e i \<le> w * hop_cost W cost i j + estimate W heur e j)"

lemma fairD:
  assumes "fair_estimates m W H e w cost heur"
  shows "1 \<le> w" and "hop m W H i j \<Longrightarrow> 0 < hop_cost W cost i j"
    and "hop m W H i j \<Longrightarrow> estimate W heur e i \<le> w * hop_cost W cost i j + estimate W heur e j"
  using assms by (simp_all add: fair_estimates_def)

lemma walk_append: "walk m W H s (p @ q) \<longleftrightarrow> walk m W H s p \<and> walk m W H (List.last (s # p)) q"
  by (induction p arbitrary: s) auto

lemma walk_cost_append:
  "walk_cost W cost s (p @ q) = walk_cost W cost s p + walk_cost W cost (List.last (s # p)) q"
  by (induction p arbitrary: s) auto

lemma walk_cost_nonneg:
  "fair_estimates m W H e w cost heur \<Longrightarrow> walk m W H s q \<Longrightarrow> 0 \<le> walk_cost W cost s q"
  by (induction q arbitrary: s) (fastforce dest: fairD(2) [where m = m] intro: add_nonneg_nonneg less_imp_le)+

lemma estimate_along:
  "fair_estimates m W H e w cost heur \<Longrightarrow> walk m W H s q \<Longrightarrow>
    estimate W heur e s \<le> w * walk_cost W cost s q + estimate W heur e (List.last (s # q))"
proof (induction q arbitrary: s)
  case Nil
  then show ?case by simp
next
  case (Cons i q)
  then have "estimate W heur e s \<le> w * hop_cost W cost s i + estimate W heur e i"
    and "estimate W heur e i \<le> w * walk_cost W cost i q + estimate W heur e (List.last (i # q))"
    using fairD(3) [OF Cons.prems(1)] by simp_all
  then show ?case by (simp add: distrib_left)
qed

text \<open>A walk out of a set has a first step that leaves it.\<close>

lemma first_leaving:
  assumes "s \<in> C" and "List.last (s # q) \<notin> C"
  shows "\<exists>p v r. q = p @ v # r \<and> List.last (s # p) \<in> C \<and> v \<notin> C"
  using assms
proof (induction q arbitrary: s)
  case Nil
  then show ?case by simp
next
  case (Cons i q)
  show ?case
  proof (cases "i \<in> C")
    case True
    with Cons.IH [of i] Cons.prems obtain p v r where "q = p @ v # r" "List.last (i # p) \<in> C" "v \<notin> C"
      by auto
    then show ?thesis by (intro exI [of _ "i # p"]) auto
  next
    case False
    with Cons.prems show ?thesis by (intro exI [of _ "[]"] exI [of _ i] exI [of _ q]) simp
  qed
qed

section \<open>The costs in the nodes\<close>

definition node_costs ::
    "int \<Rightarrow> int \<Rightarrow> int \<Rightarrow> (int \<Rightarrow> int \<Rightarrow> int \<Rightarrow> int \<Rightarrow> 'd) \<Rightarrow> (int \<Rightarrow> int \<Rightarrow> int \<Rightarrow> int \<Rightarrow> 'd)
      \<Rightarrow> 'd::linordered_field astar \<Rightarrow> bool" where
  "node_costs W s e cost heur st \<longleftrightarrow>
     as_getCost st = Some cost \<and> as_heuristic st = Some heur \<and> is_heap (openHeap st) \<and> pg (as_nodes st s) = 0
     \<and> (\<forall>i. reached s st i \<longrightarrow> i \<noteq> s \<longrightarrow> 0 < pg (as_nodes st i) \<and> ph (as_nodes st i) = estimate W heur e i
          \<and> pf (as_nodes st i) = pg (as_nodes st i) + ph (as_nodes st i)
          \<and> (\<exists>p. parent (as_nodes st i) = Some p \<and> pg (as_nodes st i) = pg (as_nodes st p) + hop_cost W cost p i))"

lemma node_costsD:
  assumes "node_costs W s e cost heur st"
  shows "as_getCost st = Some cost" "as_heuristic st = Some heur" "is_heap (openHeap st)" "pg (as_nodes st s) = 0"
    and "reached s st i \<Longrightarrow> i \<noteq> s \<Longrightarrow> 0 < pg (as_nodes st i) \<and> ph (as_nodes st i) = estimate W heur e i
          \<and> pf (as_nodes st i) = pg (as_nodes st i) + ph (as_nodes st i)"
    and "reached s st i \<Longrightarrow> i \<noteq> s \<Longrightarrow>
      \<exists>p. parent (as_nodes st i) = Some p \<and> pg (as_nodes st i) = pg (as_nodes st p) + hop_cost W cost p i"
    and "reached s st i \<Longrightarrow> 0 \<le> pg (as_nodes st i)"
proof -
  show "as_getCost st = Some cost" "as_heuristic st = Some heur" "is_heap (openHeap st)"
    and s: "pg (as_nodes st s) = 0"
    using assms unfolding node_costs_def by blast+
  show pos: "0 < pg (as_nodes st i) \<and> ph (as_nodes st i) = estimate W heur e i
      \<and> pf (as_nodes st i) = pg (as_nodes st i) + ph (as_nodes st i)"
    and "\<exists>p. parent (as_nodes st i) = Some p \<and> pg (as_nodes st i) = pg (as_nodes st p) + hop_cost W cost p i"
    if "reached s st i" "i \<noteq> s"
    using assms that unfolding node_costs_def by blast+
  show "0 \<le> pg (as_nodes st i)" if "reached s st i"
    using that pos s by (cases "i = s") auto
qed

text \<open>What exploring does to the costs: those of closed nodes stay, the others only fall.\<close>

definition improves :: "int \<Rightarrow> int list \<Rightarrow> 'd::linordered_field astar \<Rightarrow> 'd astar \<Rightarrow> bool" where
  "improves s cl st st' \<longleftrightarrow> (\<forall>j\<in>set cl. pg (as_nodes st' j) = pg (as_nodes st j))
     \<and> (\<forall>j. reached s st j \<longrightarrow> reached s st' j \<and> pg (as_nodes st' j) \<le> pg (as_nodes st j))"

lemma improves_refl: "improves s cl st st"
  by (simp add: improves_def)

lemma improves_trans: "improves s cl st st1 \<Longrightarrow> improves s cl st1 st2 \<Longrightarrow> improves s cl st st2"
  unfolding improves_def by (metis order_trans)

text \<open>One changed node, which is not closed and has a closed parent if it is reached.\<close>

lemma node_costs_change:
  assumes inv: "search_inv m W H s e cl st" and nc: "node_costs W s e cost heur st" and out: "i \<notin> set cl" "i \<noteq> s"
    and other: "\<And>j. j \<noteq> i \<Longrightarrow> as_nodes st' j = as_nodes st j"
    and gen: "searchGeneration st' = searchGeneration st"
    and funs: "as_getCost st' = as_getCost st" "as_heuristic st' = as_heuristic st" "is_heap (openHeap st')"
    and node: "reached s st' i \<Longrightarrow> 0 < pg (as_nodes st' i) \<and> ph (as_nodes st' i) = estimate W heur e i
      \<and> pf (as_nodes st' i) = pg (as_nodes st' i) + ph (as_nodes st' i)
      \<and> (\<exists>p\<in>set cl. parent (as_nodes st' i) = Some p \<and> pg (as_nodes st' i) = pg (as_nodes st p) + hop_cost W cost p i)"
    and less: "reached s st i \<Longrightarrow> reached s st' i \<and> pg (as_nodes st' i) \<le> pg (as_nodes st i)"
  shows "node_costs W s e cost heur st'" and "improves s cl st st'"
proof -
  have rea: "reached s st' j \<longleftrightarrow> reached s st j" if "j \<noteq> i" for j
    using other [OF that] gen by (simp add: reached_def current_def)
  have cl: "p \<noteq> i" if "p \<in> set cl" for p using that out by auto
  show "improves s cl st st'"
    unfolding improves_def
  proof (intro conjI allI ballI impI)
    show "pg (as_nodes st' j) = pg (as_nodes st j)" if "j \<in> set cl" for j using other [OF cl [OF that]] by simp
  next
    fix j assume "reached s st j"
    then show "reached s st' j" "pg (as_nodes st' j) \<le> pg (as_nodes st j)"
      using less rea [of j] other [of j] by (cases "j = i"; simp)+
  qed
  have nodes: "0 < pg (as_nodes st' j) \<and> ph (as_nodes st' j) = estimate W heur e j
      \<and> pf (as_nodes st' j) = pg (as_nodes st' j) + ph (as_nodes st' j)
      \<and> (\<exists>p. parent (as_nodes st' j) = Some p \<and> pg (as_nodes st' j) = pg (as_nodes st' p) + hop_cost W cost p j)"
    if j: "reached s st' j" "j \<noteq> s" for j
  proof (cases "j = i")
    case True
    with node j(1) cl show ?thesis by (metis other)
  next
    case False
    then have r: "reached s st j" using j rea by blast
    from node_costsD(6) [OF nc r j(2)] obtain p where
      p: "parent (as_nodes st j) = Some p" "pg (as_nodes st j) = pg (as_nodes st p) + hop_cost W cost p j" by blast
    have "p \<in> set cl" using search_inv_node [OF inv, of j] r p(1) by (auto simp: reached_def)
    with p False cl other node_costsD(5) [OF nc r j(2)] show ?thesis by simp
  qed
  show "node_costs W s e cost heur st'"
    unfolding node_costs_def using nodes funs node_costsD(1,2,4) [OF nc] other [OF out(2) [symmetric]] by auto
qed

lemma touch_costs:
  assumes inv: "search_inv m W H s e cl st" and nc: "node_costs W s e cost heur st"
    and c: "0 \<le> x" "x < W" "0 \<le> y" "y < H"
  defines "i \<equiv> y * W + x"
  defines "st1 \<equiv> set_node i (touch x y (searchGeneration st) (as_nodes st i)) st"
  shows "node_costs W s e cost heur st1" and "improves s cl st st1"
proof -
  note t = touch_inv [OF inv c, folded i_def, folded st1_def]
  have "node_costs W s e cost heur st1 \<and> improves s cl st st1"
  proof (cases "current st i")
    case True
    then have "touch x y (searchGeneration st) (as_nodes st i) = as_nodes st i"
      using search_inv_node [OF inv True] cell_index [OF c, folded i_def] by (simp add: touch_def current_def)
    then have "st1 = st" by (simp add: st1_def set_node_def)
    with nc show ?thesis by (simp add: improves_refl)
  next
    case False
    then have r: "\<not> reached s st i" by (simp add: reached_def)
    note rest = search_inv_rest [OF inv]
    have "i \<notin> set cl" "i \<noteq> s" using r False rest(3,6) by auto
    moreover have "\<not> reached s st1 i" using r t(3) by blast
    moreover have "is_heap (openHeap st1)" using node_costsD(3) [OF nc] t(8) by simp
    ultimately show ?thesis
      using node_costs_change [OF inv nc _ _ _ t(7) t(10) t(11), of i] t(5) r by blast
  qed
  then show "node_costs W s e cost heur st1" and "improves s cl st st1" by blast+
qed

lemma visit_costs:
  assumes mo: "map_ok m W H" and inv: "search_inv m W H s e cl st" and c: "c \<in> set cl"
    and xy: "\<bar>x - c mod W\<bar> \<le> 1" "\<bar>y - c div W\<bar> \<le> 1"
    and fair: "fair_estimates m W H e w cost heur" and nc: "node_costs W s e cost heur st"
    and v: "visit m e c (x, y) st = Inr st'"
  shows "node_costs W s e cost heur st' \<and> improves s cl st st'
    \<and> (0 \<le> x \<and> x < W \<and> 0 \<le> y \<and> y < H \<and> hop m W H c (y * W + x) \<longrightarrow>
        y * W + x \<in> set cl \<or> pg (as_nodes st' (y * W + x)) \<le> pg (as_nodes st c) + hop_cost W cost c (y * W + x))"
proof -
  let ?i = "y * W + x"
  define st1 where "st1 = set_node ?i (touch x y (searchGeneration st) (as_nodes st ?i)) st"
  define g where "g = pg (as_nodes st1 c) + the (as_getCost st1) (px (as_nodes st1 c)) (py (as_nodes st1 c)) x y"
  from mo inv c xy show ?thesis
  proof (cases rule: visit_cases)
    case skip
    with v nc show ?thesis by (auto simp: improves_refl)
  next
    case keep
    note t = touch_inv [OF inv keep(2-5), folded st1_def] and tc = touch_costs [OF inv nc keep(2-5), folded st1_def]
    have "g = pg (as_nodes st c) + hop_cost W cost c ?i"
    proof -
      have "px (as_nodes st1 c) = c mod W" "py (as_nodes st1 c) = c div W"
        using search_inv_rest(3) [OF t(1) c] search_inv_node [OF t(1), of c] by (auto simp: reached_def)
      moreover have "pg (as_nodes st1 c) = pg (as_nodes st c)" using tc(2) c by (simp add: improves_def)
      ultimately show ?thesis
        using cell_index [OF keep(2-5)] node_costsD(1) [OF tc(1)] by (simp add: g_def hop_cost_def)
    qed
    with keep(1,7) v tc show ?thesis unfolding st1_def [symmetric] g_def [symmetric] by auto
  next
    case (update h)
    note t = touch_inv [OF inv update(2-5), folded st1_def]
      and tc = touch_costs [OF inv nc update(2-5), folded st1_def]
    note rest = search_inv_rest [OF t(1)] and upd = update(1,8) [folded st1_def, folded g_def]
    have i: "?i \<notin> set cl" "?i \<noteq> s" using update(7) rest(10) c by (cases cl; auto)+
    have cr: "reached s st1 c" using rest(3) c by blast
    have g: "g = pg (as_nodes st1 c) + hop_cost W cost c ?i"
      using search_inv_node [OF t(1), of c] cr cell_index [OF update(2-5)] node_costsD(1) [OF tc(1)]
      by (simp add: g_def hop_cost_def reached_def)
    have pos: "0 < g" using node_costsD(7) [OF tc(1) cr] fairD(2) [OF fair update(6)] by (simp add: g)
    have known: "reached s st1 ?i" if "pg (as_nodes st1 ?i) \<noteq> 0"
      using that search_inv_node [OF t(1,2)] t(2) by (simp add: reached_def)
    have less: "g < pg (as_nodes st1 ?i)" if "reached s st1 ?i"
      using node_costsD(5) [OF tc(1) that i(2)] upd(2) by auto
    have h: "h = estimate W heur e ?i"
    proof (cases "pg (as_nodes st1 ?i) = 0")
      case True
      with upd(2) node_costsD(2) [OF tc(1)] search_inv_node [OF t(1) rest(7)] cell_index [OF update(2-5)]
      show ?thesis by (simp add: estimate_def)
    next
      case False
      with upd(2) node_costsD(5) [OF tc(1) known i(2)] show ?thesis by simp
    qed
    have st': "st' = st1\<lparr>as_nodes := (as_nodes st1)(?i := (as_nodes st1 ?i)\<lparr>ph := h, pg := g, pf := g + h,
        parent := Some c\<rparr>), openHeap := heap_push (g + h, ?i) (openHeap st1)\<rparr>"
      using upd(1) v by (simp add: pushOpen_def set_node_def)
    have "reached s st' ?i" using t(2) by (simp add: reached_def current_def st')
    note ch = node_costs_change [OF t(1) tc(1) i, of st']
    have heap: "is_heap (openHeap st')" using node_costsD(3) [OF tc(1)] by (simp add: st' heap_push_heap)
    have better: "reached s st' ?i \<and> pg (as_nodes st' ?i) \<le> pg (as_nodes st1 ?i)" if "reached s st1 ?i"
      using less [OF that] \<open>reached s st' ?i\<close> by (simp add: st')
    have "node_costs W s e cost heur st' \<and> improves s cl st1 st'"
      by (intro conjI; rule ch [OF _ _ _ _ heap _ better])
        (use c pos g h in \<open>simp_all add: st'\<close>)
    moreover have "pg (as_nodes st' ?i) \<le> pg (as_nodes st c) + hop_cost W cost c ?i"
      using g tc(2) c by (simp add: st' improves_def)
    ultimately show ?thesis using improves_trans [OF tc(2)] by blast
  qed
qed

lemma visits_costs:
  assumes mo: "map_ok m W H" and c: "c \<in> set cl" and fair: "fair_estimates m W H e w cost heur"
  shows "search_inv m W H s e cl st \<Longrightarrow> node_costs W s e cost heur st \<Longrightarrow>
    \<forall>(x, y)\<in>set xys. \<bar>x - c mod W\<bar> \<le> 1 \<and> \<bar>y - c div W\<bar> \<le> 1 \<Longrightarrow> runE (visit m e c) xys st = Inr st' \<Longrightarrow>
    node_costs W s e cost heur st' \<and> improves s cl st st'
    \<and> (\<forall>(x, y)\<in>set xys. 0 \<le> x \<and> x < W \<and> 0 \<le> y \<and> y < H \<and> hop m W H c (y * W + x) \<longrightarrow>
        y * W + x \<in> set cl \<or> pg (as_nodes st' (y * W + x)) \<le> pg (as_nodes st c) + hop_cost W cost c (y * W + x))"
proof (induction xys arbitrary: st)
  case Nil
  then show ?case by (simp add: improves_refl)
next
  case (Cons xy xys)
  obtain x y where xy: "xy = (x, y)" by fastforce
  then have near: "\<bar>x - c mod W\<bar> \<le> 1" "\<bar>y - c div W\<bar> \<le> 1" using Cons.prems(3) by auto
  from visit_ok [OF mo Cons.prems(1) c near] obtain st1 where
    v: "visit m e c (x, y) st = Inr st1" and i: "search_inv m W H s e cl st1"
    and r: "0 \<le> x \<and> x < W \<and> 0 \<le> y \<and> y < H \<and> hop m W H c (y * W + x) \<longrightarrow> reached s st1 (y * W + x)"
    by blast
  note k = visit_costs [OF mo Cons.prems(1) c near fair Cons.prems(2) v]
  have rest: "runE (visit m e c) xys st1 = Inr st'" using Cons.prems(4) by (simp add: xy v)
  from Cons.IH [OF i _ _ rest] k Cons.prems(3) have
    ih: "node_costs W s e cost heur st'" "improves s cl st1 st'"
    "\<forall>(x, y)\<in>set xys. 0 \<le> x \<and> x < W \<and> 0 \<le> y \<and> y < H \<and> hop m W H c (y * W + x) \<longrightarrow>
        y * W + x \<in> set cl \<or> pg (as_nodes st' (y * W + x)) \<le> pg (as_nodes st1 c) + hop_cost W cost c (y * W + x)"
    by auto
  have pc: "pg (as_nodes st1 c) = pg (as_nodes st c)" using k c by (simp add: improves_def)
  have "0 \<le> x \<and> x < W \<and> 0 \<le> y \<and> y < H \<and> hop m W H c (y * W + x) \<longrightarrow>
      y * W + x \<in> set cl \<or> pg (as_nodes st' (y * W + x)) \<le> pg (as_nodes st c) + hop_cost W cost c (y * W + x)"
    using k r ih(2) unfolding improves_def by (meson order_trans)
  with ih k pc improves_trans [OF _ ih(2)] xy show ?case by auto
qed

section \<open>Settled nodes\<close>

text \<open>No walk to a closed node costs less than the w-th part of what the node has, and the neighbours of a
  closed node cost no more than it and the step to them.\<close>

definition settled ::
    "amap \<Rightarrow> int \<Rightarrow> int \<Rightarrow> int \<Rightarrow> 'd \<Rightarrow> (int \<Rightarrow> int \<Rightarrow> int \<Rightarrow> int \<Rightarrow> 'd) \<Rightarrow> int list
      \<Rightarrow> 'd::linordered_field astar \<Rightarrow> bool" where
  "settled m W H s w cost cl st \<longleftrightarrow>
     (\<forall>c\<in>set cl. \<forall>q. walk m W H s q \<longrightarrow> List.last (s # q) = c \<longrightarrow> pg (as_nodes st c) \<le> w * walk_cost W cost s q)
     \<and> (\<forall>c\<in>set cl. \<forall>j. hop m W H c j \<longrightarrow>
          j \<in> set cl \<or> pg (as_nodes st j) \<le> pg (as_nodes st c) + hop_cost W cost c j)"

lemma popped_settled:
  assumes inv: "search_inv m W H s e cl st" and ex: "explored m W H s cl st"
    and nc: "node_costs W s e cost heur st" and se: "settled m W H s w cost cl st"
    and fair: "fair_estimates m W H e w cost heur" and pop: "popOpen st = (Some c, st1)"
    and q: "walk m W H s q" "List.last (s # q) = c"
  shows "pg (as_nodes st c) \<le> w * walk_cost W cost s q"
proof (cases "c = s")
  case True
  have "0 \<le> w * walk_cost W cost s q"
    using fairD(1) [OF fair] walk_cost_nonneg [OF fair q(1)] by (intro mult_nonneg_nonneg) simp_all
  with True node_costsD(4) [OF nc] show ?thesis by simp
next
  case False
  note rest = search_inv_rest [OF inv] and f = popOpen_fresh [OF pop]
  have cr: "reached s st c" using f(3) rest(11) by auto
  then obtain p where "parent (as_nodes st c) = Some p" using False by (auto simp: reached_def)
  then have "cl \<noteq> []" using search_inv_node [OF inv f(1)] by auto
  then have s: "s \<in> set cl" by (rule rest(10))
  have out: "c \<notin> set cl" using search_inv_node [OF inv f(1)] f(2) by simp
  from first_leaving [of s "set cl" q] s q(2) out obtain p v r where
    sp: "q = p @ v # r" "List.last (s # p) \<in> set cl" "v \<notin> set cl" by auto
  let ?u = "List.last (s # p)"
  have w: "walk m W H s p" "hop m W H ?u v" "walk m W H v r" "List.last (v # r) = c"
    using q sp(1) walk_append [of m W H s p "v # r"] by simp_all
  have vr: "reached s st v" "v \<noteq> s" using ex sp(2,3) w(2) s by (auto simp: explored_def)
  have "\<not> isClosed (as_nodes st v)" using search_inv_node [OF inv, of v] vr(1) sp(3) by (auto simp: reached_def)
  then have "\<not> stale st (pf (as_nodes st v), v)"
    using vr(1) by (simp add: stale_def Let_def reached_def current_def)
  moreover have "(pf (as_nodes st v), v) \<in> set (openHeap st)" by (rule rest(12) [OF vr(1) sp(3)])
  ultimately have "(pf (as_nodes st v), v) \<in> set (openHeap st1) \<or> c = v"
    using popOpen_kept [OF pop] by fastforce
  then have "pf (as_nodes st c) \<le> pf (as_nodes st v)"
    using popOpen_spec [OF pop] node_costsD(3) [OF nc] by fastforce
  then have "pg (as_nodes st c) + estimate W heur e c \<le> pg (as_nodes st v) + estimate W heur e v"
    using node_costsD(5) [OF nc] cr False vr by simp
  moreover have "estimate W heur e v \<le> w * walk_cost W cost v r + estimate W heur e c"
    using estimate_along [OF fair w(3)] w(4) by simp
  moreover have "pg (as_nodes st v) \<le> pg (as_nodes st ?u) + hop_cost W cost ?u v"
    using se sp(2,3) w(2) unfolding settled_def by blast
  moreover have "pg (as_nodes st ?u) \<le> w * walk_cost W cost s p"
    using se sp(2) w(1) unfolding settled_def by blast
  moreover have "hop_cost W cost ?u v \<le> w * hop_cost W cost ?u v"
    using mult_right_mono [OF fairD(1) [OF fair], of "hop_cost W cost ?u v"] fairD(2) [OF fair w(2)] by simp
  moreover have "walk_cost W cost s q = walk_cost W cost s p + hop_cost W cost ?u v + walk_cost W cost v r"
    by (simp add: sp(1) walk_cost_append)
  ultimately show ?thesis by (simp add: distrib_left)
qed

lemma close_costs:
  assumes nc: "node_costs W s e cost heur st" and pop: "popOpen st = (Some c, st1)"
  shows "node_costs W s e cost heur (close c st1)" and "pg (as_nodes (close c st1) j) = pg (as_nodes st j)"
    and "reached s (close c st1) j \<longleftrightarrow> reached s st j"
proof -
  note p = popOpen_state [OF pop]
  have n: "as_nodes (close c st1) = (as_nodes st)(c := (as_nodes st c)\<lparr>isClosed := True\<rparr>)"
    and o: "searchGeneration (close c st1) = searchGeneration st" "openHeap (close c st1) = openHeap st1"
      "as_getCost (close c st1) = as_getCost st" "as_heuristic (close c st1) = as_heuristic st"
    by (simp_all add: close_def set_node_def p)
  have same: "pg (as_nodes (close c st1) i) = pg (as_nodes st i)" "pf (as_nodes (close c st1) i) = pf (as_nodes st i)"
    "ph (as_nodes (close c st1) i) = ph (as_nodes st i)" "parent (as_nodes (close c st1) i) = parent (as_nodes st i)"
    "generation (as_nodes (close c st1) i) = generation (as_nodes st i)" for i
    by (simp_all add: n)
  have rea: "reached s (close c st1) i \<longleftrightarrow> reached s st i" for i by (simp add: reached_def current_def same o)
  show "pg (as_nodes (close c st1) j) = pg (as_nodes st j)" by (rule same)
  show "reached s (close c st1) j \<longleftrightarrow> reached s st j" by (rule rea)
  have "is_heap (openHeap st1)" using popOpen_spec [OF pop] node_costsD(3) [OF nc] by auto
  then show "node_costs W s e cost heur (close c st1)"
    using nc unfolding node_costs_def rea same o by blast
qed

lemma explore_costs:
  assumes mo: "map_ok m W H" and inv: "search_inv m W H s e cl st" and ex: "explored m W H s cl st"
    and nc: "node_costs W s e cost heur st" and se: "settled m W H s w cost cl st"
    and fair: "fair_estimates m W H e w cost heur" and pop: "popOpen st = (Some c, st1)" and ne: "c \<noteq> e"
    and run: "runE (visit m e c) (surroundings (px (as_nodes st1 c)) (py (as_nodes st1 c))) (close c st1) = Inr st2"
  shows "node_costs W s e cost heur st2" and "settled m W H s w cost (c # cl) st2"
proof -
  note ci = close_inv [OF inv pop ne] and cc = close_costs [OF nc pop]
  have pos: "0 < W" using mo unfolding map_ok_def by blast
  have run': "runE (visit m e c) (surroundings (c mod W) (c div W)) (close c st1) = Inr st2"
    using run by (simp add: ci(3,4))
  have "c \<in> set (c # cl)" by simp
  note v = visits_costs [OF mo this fair ci(1) cc(1) surroundings_near run']
  show "node_costs W s e cost heur st2" using v by blast
  have i: "improves s (c # cl) (close c st1) st2" using v by blast
  have old: "pg (as_nodes st2 d) = pg (as_nodes st d)" if "d \<in> set (c # cl)" for d
    using i that cc(2) unfolding improves_def by metis
  have new: "pg (as_nodes st2 j) \<le> pg (as_nodes st j)" if "reached s st j" for j
    using i that cc(2,3) by (simp add: improves_def)
  show "settled m W H s w cost (c # cl) st2"
    unfolding settled_def
  proof (intro conjI ballI allI impI)
    fix d q assume d: "d \<in> set (c # cl)" and q: "walk m W H s q" "List.last (s # q) = d"
    have "pg (as_nodes st d) \<le> w * walk_cost W cost s q"
    proof (cases "d = c")
      case True
      then show ?thesis using popped_settled [OF inv ex nc se fair pop q(1)] q(2) by simp
    next
      case False
      then show ?thesis using d q se by (auto simp: settled_def)
    qed
    then show "pg (as_nodes st2 d) \<le> w * walk_cost W cost s q" using old [OF d] by simp
  next
    fix d j assume d: "d \<in> set (c # cl)" and h: "hop m W H d j"
    show "j \<in> set (c # cl) \<or> pg (as_nodes st2 j) \<le> pg (as_nodes st2 d) + hop_cost W cost d j"
    proof (cases "d = c")
      case True
      have j: "on_grid W H j" and n: "\<bar>j mod W - c mod W\<bar> \<le> 1" "\<bar>j div W - c div W\<bar> \<le> 1"
        using h True by (auto simp: hop_def)
      from v surroundings_all [OF n] cell_of_index [OF j pos] h True cc(2) old [of c]
      show ?thesis by fastforce
    next
      case False
      then have dc: "d \<in> set cl" using d by simp
      then have "reached s st j" using ex h by (auto simp: explored_def)
      from new [OF this] se dc h old [OF d] show ?thesis
        unfolding settled_def by (metis list.set_intros(2) order_trans)
    qed
  qed
qed

section \<open>The path\<close>

lemma path_loop_cost:
  fixes st :: "'d::linordered_field astar"
  assumes inv: "search_inv m W H s e cl st" and nc: "node_costs W s e cost heur st"
    and p: "path_loop (as_nodes st) c acc = Some p" and c: "reached s st c"
  shows "walk_cost W cost s p = pg (as_nodes st c) + walk_cost W cost c acc"
proof -
  have "nodes = as_nodes st \<longrightarrow> reached s st c \<longrightarrow>
      walk_cost W cost s p = pg (as_nodes st c) + walk_cost W cost c acc"
    if "path_loop nodes c acc = Some p" for nodes c acc p
  proof (rule path_loop.raw_induct [where P = "\<lambda>nodes c acc p. nodes = as_nodes st \<longrightarrow> reached s st c \<longrightarrow>
      walk_cost W cost s p = pg (as_nodes st c) + walk_cost W cost c acc", OF _ that], intro impI)
    fix loop :: "(int \<Rightarrow> 'd path_node) \<Rightarrow> int \<Rightarrow> int list \<Rightarrow> int list option" and nodes c acc p
    assume IH: "\<And>nodes c acc p. loop nodes c acc = Some p \<Longrightarrow> nodes = as_nodes st \<longrightarrow> reached s st c \<longrightarrow>
        walk_cost W cost s p = pg (as_nodes st c) + walk_cost W cost c acc"
      and step: "(case parent (nodes c) of None \<Rightarrow> Some acc | Some q \<Rightarrow> loop nodes q (c # acc)) = Some p"
      and n: "nodes = as_nodes st" and c: "reached s st c"
    show "walk_cost W cost s p = pg (as_nodes st c) + walk_cost W cost c acc"
    proof (cases "parent (as_nodes st c)")
      case None
      with n c step have "c = s" "p = acc" by (auto simp: reached_def)
      with node_costsD(4) [OF nc] show ?thesis by simp
    next
      case (Some d)
      have d: "d \<in> set cl" using search_inv_node [OF inv, of c] c Some by (auto simp: reached_def)
      then have dr: "reached s st d" using search_inv_rest(3) [OF inv] by blast
      have "c \<noteq> s" using Some search_inv_rest(5) [OF inv] by auto
      from node_costsD(6) [OF nc c this] Some
      have "pg (as_nodes st c) = pg (as_nodes st d) + hop_cost W cost d c" by auto
      moreover have "walk_cost W cost s p = pg (as_nodes st d) + walk_cost W cost d (c # acc)"
        using IH [of nodes d "c # acc" p] step Some n dr by simp
      ultimately show ?thesis by simp
    qed
  qed
  with p c show ?thesis by blast
qed

lemma search_loop_cost:
  assumes mo: "map_ok m W H" and fair: "fair_estimates m W H e w cost heur"
    and q: "walk m W H s q" "List.last (s # q) = e"
  shows "search_inv m W H s e cl st \<Longrightarrow> explored m W H s cl st \<Longrightarrow> lastPath st = [] \<Longrightarrow>
    node_costs W s e cost heur st \<Longrightarrow> settled m W H s w cost cl st \<Longrightarrow>
    search_loop n m e st = Inr st' \<Longrightarrow> lastPath st' \<noteq> [] \<Longrightarrow>
    walk_cost W cost s (lastPath st') \<le> w * walk_cost W cost s q"
proof (induction n arbitrary: cl st)
  case 0
  then show ?case by simp
next
  case (Suc n)
  note inv = Suc.prems(1) and ex = Suc.prems(2) and nc = Suc.prems(4) and se = Suc.prems(5)
  obtain r st1 where pop: "popOpen st = (r, st1)" by fastforce
  note st1 = popOpen_state [OF pop]
  show ?case
  proof (cases r)
    case None
    with pop st1 Suc.prems(3,6,7) show ?thesis by simp
  next
    case (Some c)
    note pop' = pop [unfolded Some]
    show ?thesis
    proof (cases "c = e")
      case True
      have r: "reached s st e" using popOpen_fresh(3) [OF pop'] search_inv_rest(11) [OF inv] True by auto
      from path_found [OF inv r] obtain p where p: "path_loop (as_nodes st) e [] = Some p" by blast
      then have "lastPath st' = p" using Suc.prems(3,6) pop' True st1 by auto
      then have "walk_cost W cost s (lastPath st') = pg (as_nodes st c)"
        using path_loop_cost [OF inv nc p r] True by simp
      then show ?thesis using popped_settled [OF inv ex nc se fair pop' q(1)] q(2) True by simp
    next
      case False
      from explore_ok [OF mo inv ex pop' False] Suc.prems(3) obtain st2 where
        v: "runE (visit m e c) (surroundings (px (as_nodes st1 c)) (py (as_nodes st1 c)))
          (close c st1) = Inr st2"
        and i: "search_inv m W H s e (c # cl) st2" "explored m W H s (c # cl) st2" "lastPath st2 = []"
        by auto
      have "search_loop n m e st2 = Inr st'" using Suc.prems(6) v pop' False by simp
      from Suc.IH [OF i explore_costs [OF mo inv ex nc se fair pop' False v] this Suc.prems(7)] show ?thesis .
    qed
  qed
qed

text \<open>The functions that a search uses.\<close>

definition used_cost :: "'d::linordered_field astar \<Rightarrow> int \<Rightarrow> int \<Rightarrow> int \<Rightarrow> int \<Rightarrow> 'd" where
  "used_cost st = the (as_getCost (use_defaults st))"

definition used_heuristic :: "'d::linordered_field astar \<Rightarrow> int \<Rightarrow> int \<Rightarrow> int \<Rightarrow> int \<Rightarrow> 'd" where
  "used_heuristic st = the (as_heuristic (use_defaults st))"

lemma use_defaults_funs:
  "as_getCost (use_defaults st) = Some (used_cost st)" "as_heuristic (use_defaults st) = Some (used_heuristic st)"
  by (simp_all add: used_cost_def used_heuristic_def use_defaults_def split: option.splits)

lemma used_cong:
  assumes "as_getCost st' = as_getCost st" and "as_heuristic st' = as_heuristic st"
  shows "used_cost st' = used_cost st" and "used_heuristic st' = used_heuristic st"
  using assms by (simp_all add: used_cost_def used_heuristic_def use_defaults_def)

lemma start_costs:
  assumes inv: "search_inv m W H s e [] (pushOpen s st)" and heap: "openHeap st = []"
    and funs: "as_getCost st = Some cost" "as_heuristic st = Some heur"
  shows "node_costs W s e cost heur (pushOpen s st)"
proof -
  have "i = s" if "reached s (pushOpen s st) i" for i
    using that search_inv_node [OF inv, of i] by (auto simp: reached_def)
  moreover have "pg (as_nodes (pushOpen s st) s) = 0"
    using search_inv_node [OF inv search_inv_rest(6) [OF inv]] search_inv_rest(5) [OF inv] by auto
  moreover have "is_heap (openHeap (pushOpen s st))"
    using heap heap_push_heap [of "[]"] by (simp add: pushOpen_def is_heap_def [of "[]"])
  ultimately show ?thesis unfolding node_costs_def using funs by (auto simp: pushOpen_def)
qed

lemma getNode_keeps:
  "getNode x y w st = Some (i, st') \<Longrightarrow>
    openHeap st' = openHeap st \<and> as_getCost st' = as_getCost st \<and> as_heuristic st' = as_heuristic st"
  by (auto simp: getNode_def Let_def split: if_splits)

lemma findPath_cost:
  fixes st :: "'d::linordered_field astar"
  assumes mo: "map_ok m W H" and ok: "as_ok st"
    and sc: "0 \<le> sx" "sx < W" "0 \<le> sy" "sy < H" and ec: "0 \<le> ex" "ex < W" "0 \<le> ey" "ey < H"
    and fair: "fair_estimates m W H (ey * W + ex) w (used_cost st) (used_heuristic st)"
    and f: "findPath m sx sy ex ey st = Inr (True, st')"
    and q: "walk m W H (sy * W + sx) q" "List.last ((sy * W + sx) # q) = ey * W + ex"
  shows "walk_cost W (used_cost st) (sy * W + sx) (lastPath st')
    \<le> w * walk_cost W (used_cost st) (sy * W + sx) q"
proof (cases "sx = ex \<and> sy = ey")
  case True
  then have "lastPath st' = []" using f by (auto simp: findPath_def Let_def)
  then show ?thesis
    using fairD(1) [OF fair] walk_cost_nonneg [OF fair q(1)] by (simp add: mult_nonneg_nonneg)
next
  case ne: False
  have free: "\<not> isBlock m (word_of_int ex) (word_of_int ey)" using f ne by (auto simp: findPath_def Let_def)
  let ?s = "sy * W + sx" and ?e = "ey * W + ex"
  let ?st0 = "st\<lparr>lastPath := [], openHeap := []\<rparr>"
  let ?stg = "next_generation (resizeMap W H ?st0)"
  define st1 where "st1 = use_defaults ?stg"
  note w = map_ok_width [OF mo]
  have "as_ok ?st0" using ok by (simp add: as_ok_def)
  then have "\<not> current st1 i" for i
    using next_generation_ok(2) [OF resizeMap_ok] by (simp add: st1_def use_defaults_def current_def)
  moreover have r: "W * H \<le> as_rows st1 * 1024" "openHeap st1 = []" "lastPath st1 = []"
    using resizeMap_rows [OF mo, of ?st0]
    by (simp_all add: st1_def use_defaults_def next_generation_def resizeMap_def Let_def)
  ultimately obtain st2 st3 where g: "getNode sx sy W st1 = Some (?s, st2)" "getNode ex ey W st2 = Some (?e, st3)"
    and i: "search_inv m W H ?s ?e [] (pushOpen ?s st3)" and l: "lastPath st3 = []"
    using start_inv [of st1 W H sx sy ex ey m, OF _ _ _ sc ec ne] by auto
  have "as_getCost ?stg = as_getCost st" "as_heuristic ?stg = as_heuristic st"
    by (simp_all add: next_generation_def resizeMap_def Let_def)
  then have "as_getCost st1 = Some (used_cost st)" "as_heuristic st1 = Some (used_heuristic st)"
    using used_cong [of ?stg st] by (simp_all add: st1_def use_defaults_funs)
  then have nc: "node_costs W ?s ?e (used_cost st) (used_heuristic st) (pushOpen ?s st3)"
    using getNode_keeps [OF g(1)] getNode_keeps [OF g(2)] r(2) by (intro start_costs [OF i]) simp_all
  have e: "explored m W H ?s [] (pushOpen ?s st3)" "lastPath (pushOpen ?s st3) = []"
    "settled m W H ?s w (used_cost st) [] (pushOpen ?s st3)"
    using l by (simp_all add: explored_def pushOpen_def settled_def)
  obtain st4 where s4: "search_loop (nat (maxCount st3)) m ?e (pushOpen ?s st3) = Inr st4"
    and r4: "lastPath st4 \<noteq> []" "st' = st4\<lparr>openHeap := []\<rparr>"
    using f ne free unfolding findPath_def Let_def w st1_def [symmetric]
    by (auto simp: g bindE_eq_Inr)
  from search_loop_cost [OF mo fair q i e(1,2) nc e(3) s4 r4(1)] r4(2) show ?thesis by simp
qed

text \<open>The default functions: a diagonal step costs 1.414 and lowers the Manhattan distance by at most 2.\<close>

lemma neighbours_differ:
  assumes "hop m W H i j"
  shows "i mod W \<noteq> j mod W \<or> i div W \<noteq> j div W"
proof -
  have "i \<noteq> j" using assms by (simp add: hop_def)
  then show ?thesis by (metis div_mult_mod_eq)
qed

lemma default_fair:
  "fair_estimates m W H e (1000 / 707) commonCost (manhattanDistance :: int \<Rightarrow> int \<Rightarrow> int \<Rightarrow> int \<Rightarrow> 'd::linordered_field)"
  unfolding fair_estimates_def
proof (intro conjI allI impI)
  show "(1 :: 'd) \<le> 1000 / 707" by simp
  fix i j assume h: "hop m W H i j"
  show "0 < hop_cost W (commonCost :: _ \<Rightarrow> _ \<Rightarrow> _ \<Rightarrow> _ \<Rightarrow> 'd) i j" by (simp add: hop_cost_def commonCost_def)
  let ?dx = "\<bar>i mod W - e mod W\<bar>" and ?dy = "\<bar>i div W - e div W\<bar>"
  let ?dx' = "\<bar>j mod W - e mod W\<bar>" and ?dy' = "\<bar>j div W - e div W\<bar>"
  have near: "\<bar>i mod W - j mod W\<bar> \<le> 1" "\<bar>i div W - j div W\<bar> \<le> 1" using h by (simp_all add: hop_def)
  show "estimate W manhattanDistance e i \<le>
      1000 / 707 * hop_cost W (commonCost :: _ \<Rightarrow> _ \<Rightarrow> _ \<Rightarrow> _ \<Rightarrow> 'd) i j + estimate W manhattanDistance e j"
  proof (cases "i mod W \<noteq> j mod W \<and> i div W \<noteq> j div W")
    case True
    have "?dx + ?dy \<le> 2 + (?dx' + ?dy')" using near by linarith
    then have "(of_int (?dx + ?dy) :: 'd) \<le> of_int (2 + (?dx' + ?dy'))" by (simp only: of_int_le_iff)
    with True show ?thesis by (simp add: estimate_def manhattanDistance_def hop_cost_def commonCost_def)
  next
    case False
    then have "?dx + ?dy \<le> 1 + (?dx' + ?dy')" using near by auto
    then have "(of_int (?dx + ?dy) :: 'd) \<le> of_int (1 + (?dx' + ?dy'))" by (simp only: of_int_le_iff)
    moreover have "(1 :: 'd) \<le> 1000 / 707" by simp
    ultimately have "(of_int (?dx + ?dy) :: 'd) \<le> 1000 / 707 + of_int (?dx' + ?dy')"
      unfolding of_int_add of_int_1 by linarith
    with False show ?thesis by (simp add: estimate_def manhattanDistance_def hop_cost_def commonCost_def)
  qed
qed

text \<open>The example: a wall of one cell, with the way around it by two diagonal steps.\<close>

lemma small_walk: "walk small_map 3 2 0 [4, 2]"
  by (simp add: hop_def on_grid_def small_map_def)

lemma small_found:
  fixes st :: "'d::linordered_field astar"
  assumes "as_ok st" and "6 \<le> maxCount st"
  shows "\<exists>st'. findPath small_map 0 0 2 0 st = Inr (True, st')"
proof -
  have "\<not> isBlock small_map (word_of_int 2) (word_of_int 0)" by (simp add: small_map_def)
  from findPath_result [OF small_map_ok assms(1), of 0 0 2 0, OF _ _ _ _ _ _ _ _ _ this] obtain st' where
    f: "findPath small_map 0 0 2 0 st = Inr (lastPath st' \<noteq> [], st')"
      "lastPath st' = [] \<longrightarrow> \<not> (hop small_map 3 2)\<^sup>*\<^sup>* 0 2"
    using assms(2) by auto
  have "(hop small_map 3 2)\<^sup>*\<^sup>* 0 2" using walk_target [OF small_walk] by simp
  with f show ?thesis by auto
qed

definition no_heuristic :: "int \<Rightarrow> int \<Rightarrow> int \<Rightarrow> int \<Rightarrow> 'd::zero" where
  "no_heuristic x y endX endY = 0"

section \<open>Properties\<close>

text \<open>C2. Whatever functions are set: if every step costs something and lowers the estimate by at most w
  times its cost, then a path that \<^verbatim>\<open>findPath\<close> reports costs at most w times as much as any walk over free
  cells from the start to the end. For w = 1, a consistent heuristic, no walk is cheaper.\<close>

theorem astar_path_cost:
  fixes st :: "'d::linordered_field astar"
  assumes "map_ok m W H" and "as_ok st"
    and "0 \<le> sx" "sx < W" "0 \<le> sy" "sy < H" and "0 \<le> ex" "ex < W" "0 \<le> ey" "ey < H"
    and "fair_estimates m W H (ey * W + ex) w (used_cost st) (used_heuristic st)"
    and "findPath m sx sy ex ey st = Inr (True, st')"
    and "walk m W H (sy * W + sx) q" and "List.last ((sy * W + sx) # q) = ey * W + ex"
  shows "walk_cost W (used_cost st) (sy * W + sx) (lastPath st')
    \<le> w * walk_cost W (used_cost st) (sy * W + sx) q"
  using assms by (rule findPath_cost)

theorem astar_path_cost_witness:
  "\<exists>st'. findPath small_map 0 0 2 0 ((astar_new 512 :: rat astar)\<lparr>as_heuristic := Some no_heuristic\<rparr>) = Inr (True, st')
     \<and> walk_cost 3 commonCost 0 (lastPath st') \<le> (2828 / 1000 :: rat)"
proof -
  let ?st = "(astar_new 512 :: rat astar)\<lparr>as_heuristic := Some no_heuristic\<rparr>"
  have ok: "as_ok ?st" by (simp add: as_ok_def astar_new_def fresh_node_def)
  have u: "used_cost ?st = commonCost" "used_heuristic ?st = no_heuristic"
    by (simp_all add: used_cost_def used_heuristic_def use_defaults_def astar_new_def)
  have fair: "fair_estimates small_map 3 2 (0 * 3 + 2) 1 (used_cost ?st) (used_heuristic ?st)"
    unfolding u by (simp add: fair_estimates_def hop_cost_def commonCost_def estimate_def no_heuristic_def)
  obtain st' where f: "findPath small_map 0 0 2 0 ?st = Inr (True, st')"
    using small_found [OF ok] by (auto simp: astar_new_def)
  from astar_path_cost [OF small_map_ok ok _ _ _ _ _ _ _ _ fair f, of "[4, 2]"] small_walk f
  show ?thesis unfolding u by (simp add: hop_cost_def commonCost_def)
qed

text \<open>C28. With the default functions the path that is found costs at most 1 / 0.707 times as much as any
  other.\<close>

theorem astar_default_cost:
  fixes st :: "'d::linordered_field astar"
  assumes "map_ok m W H" and "as_ok st"
    and "0 \<le> sx" "sx < W" "0 \<le> sy" "sy < H" and "0 \<le> ex" "ex < W" "0 \<le> ey" "ey < H"
    and "as_heuristic st \<in> {None, Some manhattanDistance}" and "as_getCost st \<in> {None, Some commonCost}"
    and "findPath m sx sy ex ey st = Inr (True, st')"
    and "walk m W H (sy * W + sx) q" and "List.last ((sy * W + sx) # q) = ey * W + ex"
  shows "707 * walk_cost W commonCost (sy * W + sx) (lastPath st')
    \<le> 1000 * walk_cost W (commonCost :: int \<Rightarrow> int \<Rightarrow> int \<Rightarrow> int \<Rightarrow> 'd) (sy * W + sx) q"
proof -
  have u: "used_cost st = commonCost" "used_heuristic st = manhattanDistance"
    using assms(11,12) by (auto simp: used_cost_def used_heuristic_def use_defaults_def)
  have "fair_estimates m W H (ey * W + ex) (1000 / 707) (used_cost st) (used_heuristic st)"
    unfolding u by (rule default_fair)
  from findPath_cost [OF assms(1-10) this assms(13-15)] show ?thesis unfolding u by (simp add: field_simps)
qed

theorem astar_default_cost_witness:
  "\<exists>st'. findPath small_map 0 0 2 0 (astar_new 512 :: rat astar) = Inr (True, st')
     \<and> walk_cost 3 commonCost 0 (lastPath st') \<le> (4 :: rat)"
proof -
  obtain st' where f: "findPath small_map 0 0 2 0 (astar_new 512 :: rat astar) = Inr (True, st')"
    using small_found [OF as_ok_new, of 512] by (auto simp: astar_new_def)
  have "as_heuristic (astar_new 512 :: rat astar) \<in> {None, Some manhattanDistance}"
    "as_getCost (astar_new 512 :: rat astar) \<in> {None, Some commonCost}" by (simp_all add: astar_new_def)
  from astar_default_cost [OF small_map_ok as_ok_new _ _ _ _ _ _ _ _ this f, of "[4, 2]"] small_walk f
  show ?thesis by (simp add: hop_cost_def commonCost_def)
qed

end
