(* ===== verification/Strings.thy ===== *)
theory Strings
  imports Prelude "HOL-Library.Sublist"
begin

text \<open>
  Model of \<^verbatim>\<open>ws::core::String\<close> (include/ws/core/String.h, wsCore/src/String.cpp).

  A \<^verbatim>\<open>char\<close> is a \<open>char\<close> of HOL, the classification functions of \<^verbatim>\<open>ctype.h\<close> are those of
  the C locale. A \<^verbatim>\<open>char*\<close> that the code writes through is a buffer, a list of characters
  that holds a terminator, with positions for the pointers into it; a \<^verbatim>\<open>const char*\<close> or a
  \<^verbatim>\<open>std::string\<close> that is only read is the list of its characters, in the first case without
  the terminator. The digest of OpenSSL, the time functions of the C library and the random
  numbers are parameters.
\<close>

section \<open>Characters\<close>

abbreviation NUL :: char where "NUL \<equiv> CHR 0x00"

abbreviation code_of :: "char \<Rightarrow> nat" where "code_of \<equiv> of_char"

definition isdigit :: "char \<Rightarrow> bool" where
  "isdigit c \<longleftrightarrow> 48 \<le> code_of c \<and> code_of c \<le> 57"

definition isupper :: "char \<Rightarrow> bool" where
  "isupper c \<longleftrightarrow> 65 \<le> code_of c \<and> code_of c \<le> 90"

definition islower :: "char \<Rightarrow> bool" where
  "islower c \<longleftrightarrow> 97 \<le> code_of c \<and> code_of c \<le> 122"

definition isalnum :: "char \<Rightarrow> bool" where
  "isalnum c \<longleftrightarrow> isdigit c \<or> isupper c \<or> islower c"

definition isxdigit :: "char \<Rightarrow> bool" where
  "isxdigit c \<longleftrightarrow> isdigit c \<or> 65 \<le> code_of c \<and> code_of c \<le> 70 \<or> 97 \<le> code_of c \<and> code_of c \<le> 102"

definition isprint :: "char \<Rightarrow> bool" where
  "isprint c \<longleftrightarrow> 32 \<le> code_of c \<and> code_of c \<le> 126"

definition tolower :: "char \<Rightarrow> char" where
  "tolower c = (if isupper c then char_of (code_of c + 32) else c)"

definition toupper :: "char \<Rightarrow> char" where
  "toupper c = (if islower c then char_of (code_of c - 32) else c)"

definition cstring :: "string \<Rightarrow> string" where
  "cstring buf = takeWhile (\<lambda>c. c \<noteq> NUL) buf"

section \<open>Splitting and joining\<close>

text \<open>\<^verbatim>\<open>split(char*, ...)\<close>: the loop, at position \<open>i\<close> with \<open>n\<close> characters left.\<close>

function split_loop ::
    "string \<Rightarrow> nat \<Rightarrow> nat \<Rightarrow> string \<Rightarrow> nat list \<Rightarrow> error + string \<times> nat list" where
  "split_loop sep i n buf out =
     (if length buf \<le> i then Inl Undefined_behaviour
      else if buf ! i \<noteq> NUL \<and> length sep \<le> n then
        if take (length sep) (drop i buf) = sep
        then split_loop sep (i + length sep) (n - length sep) (buf[i := NUL]) (out @ [i + length sep])
        else split_loop sep (Suc i) (n - 1) buf out
      else Inr (buf, out))"
  by pat_completeness auto

termination split_loop
proof (relation "measure (\<lambda>(sep, i, n, buf, out). n + (if buf ! i = NUL then 0 else 1))", goal_cases)
  case (2 sep i n buf out)
  then show ?case by (cases "sep = []") (auto simp: not_le)
next
  case (3 sep i n buf out)
  then have "sep \<noteq> []" by auto
  then have "0 < length sep" by simp
  with 3 have "0 < n" by linarith
  with 3 show ?case by auto
qed simp

declare split_loop.simps [simp del]

definition split_chars :: "string \<Rightarrow> string \<Rightarrow> nat list \<Rightarrow> error + string \<times> nat list" where
  "split_chars sep buf out =
     (if NUL \<notin> set buf then Inl Undefined_behaviour
      else let strLen = length (cstring buf) in
           if strLen = 0 then Inr (buf, out) else split_loop sep 0 strLen buf (out @ [0]))"

text \<open>\<^verbatim>\<open>split(const char*, ...)\<close>: \<open>p\<close> is the position of \<^verbatim>\<open>ptr\<close>.\<close>

partial_function (option) copy_loop ::
    "string \<Rightarrow> string \<Rightarrow> nat \<Rightarrow> nat \<Rightarrow> nat \<Rightarrow> string list \<Rightarrow> string list option" where
  "copy_loop sep s p i n out =
     (if i < length s \<and> length sep \<le> n then
        if take (length sep) (drop i s) = sep
        then copy_loop sep s (i + length sep) (i + length sep) (n - length sep)
               (out @ [take (i - p) (drop p s)])
        else copy_loop sep s p (Suc i) (n - 1) out
      else Some (out @ [drop p s]))"

declare copy_loop.simps [code]

definition split_copy :: "string \<Rightarrow> string \<Rightarrow> string list \<Rightarrow> string list option" where
  "split_copy sep s out = (if length s = 0 then Some out else copy_loop sep s 0 0 (length s) out)"

definition join :: "string list \<Rightarrow> string \<Rightarrow> string" where
  "join input glue = (case input of [] \<Rightarrow> [] | x # xs \<Rightarrow> foldl (\<lambda>output y. output @ glue @ y) x xs)"

text \<open>The overload for other elements writes them to a stream; \<open>put\<close> is their \<^verbatim>\<open>operator<<\<close>.\<close>

definition join_stream :: "('x \<Rightarrow> string) \<Rightarrow> 'x list \<Rightarrow> string \<Rightarrow> string" where
  "join_stream put input glue =
     (case input of [] \<Rightarrow> [] | x # xs \<Rightarrow> foldl (\<lambda>ss y. ss @ glue @ put y) (put x) xs)"

section \<open>Copying and classifying\<close>

definition poke_chars :: "string \<Rightarrow> nat \<Rightarrow> string \<Rightarrow> error + string" where
  "poke_chars dest off xs =
     (if off + length xs \<le> length dest
      then Inr (take off dest @ xs @ drop (off + length xs) dest) else Inl Undefined_behaviour)"

definition copy :: "string \<Rightarrow> nat \<Rightarrow> string \<Rightarrow> bool \<Rightarrow> error + bool \<times> string" where
  "copy dest cap src asString =
     (let srcLen = length src in
      if srcLen = 0 then Inr (True, dest)
      else if cap = 0 then Inr (False, dest)
      else
        let cap1 = (if asString then cap - 1 else cap) in
        if srcLen \<le> cap1
        then bindE (poke_chars dest 0 src) (\<lambda>d.
               bindE (if asString then poke_chars d srcLen [NUL] else Inr d) (\<lambda>d. Inr (True, d)))
        else bindE (poke_chars dest 0 (take cap1 src)) (\<lambda>d.
               bindE (if asString then poke_chars d cap1 [NUL] else Inr d) (\<lambda>d. Inr (False, d))))"

fun toLowercase :: "string \<Rightarrow> error + string" where
  "toLowercase [] = Inl Undefined_behaviour"
| "toLowercase (c # cs) =
     (if c = NUL then Inr (c # cs) else bindE (toLowercase cs) (\<lambda>r. Inr (tolower c # r)))"

fun toUppercase :: "string \<Rightarrow> error + string" where
  "toUppercase [] = Inl Undefined_behaviour"
| "toUppercase (c # cs) =
     (if c = NUL then Inr (c # cs) else bindE (toUppercase cs) (\<lambda>r. Inr (toupper c # r)))"

fun isPrintableString :: "string \<Rightarrow> error + bool" where
  "isPrintableString [] = Inl Undefined_behaviour"
| "isPrintableString (c # cs) =
     (if c = NUL then Inr True else if \<not> isprint c then Inr False else isPrintableString cs)"

section \<open>Hexadecimal and URL encoding\<close>

definition HEX_DIGIT :: string where
  "HEX_DIGIT = ''0123456789ABCDEF''"

fun bin2Hex :: "bytes \<Rightarrow> string" where
  "bin2Hex [] = []"
| "bin2Hex (x # xs) = HEX_DIGIT ! unat (drop_bit 4 x) # HEX_DIGIT ! unat (x AND 0x0F) # bin2Hex xs"

definition unreserved :: "char \<Rightarrow> bool" where
  "unreserved c \<longleftrightarrow> isalnum c \<or> c = CHR ''-'' \<or> c = CHR ''_'' \<or> c = CHR ''.'' \<or> c = CHR ''~''"

fun URLEncode :: "string \<Rightarrow> string" where
  "URLEncode [] = []"
| "URLEncode (c # cs) =
     (if unreserved c then c # URLEncode cs
      else CHR ''%'' # HEX_DIGIT ! (code_of c div 16) # HEX_DIGIT ! (code_of c mod 16) # URLEncode cs)"

definition hex2char :: "char \<Rightarrow> nat" where
  "hex2char c =
     (if isdigit c then code_of c - 48
      else if isxdigit c then if isupper c then code_of c - 65 + 10 else code_of c - 97 + 10
      else 0)"

text \<open>The two characters after a \<^verbatim>\<open>%\<close> are read without asking whether they are there.\<close>

fun URLDecode :: "string \<Rightarrow> error + string" where
  "URLDecode [] = Inr []"
| "URLDecode (c # cs) =
     (if c = CHR ''%''
      then case cs of
             h # l # r \<Rightarrow>
               bindE (URLDecode r) (\<lambda>d. Inr (char_of (push_bit 4 (hex2char h) OR hex2char l) # d))
           | _ \<Rightarrow> Inl Undefined_behaviour
      else bindE (URLDecode cs) (\<lambda>d. Inr (c # d)))"

definition md5 :: "(bytes \<Rightarrow> bytes) \<Rightarrow> bytes \<Rightarrow> bool \<Rightarrow> string" where
  "md5 digest input hex =
     (if length input = 0 then []
      else if hex then bin2Hex (digest input) else map (\<lambda>b. char_of (unat b)) (digest input))"

section \<open>Trimming, random strings, times\<close>

definition blank :: "char \<Rightarrow> bool" where
  "blank c \<longleftrightarrow> c \<in> set [CHR '' '', CHR 0x0A, CHR 0x0D, CHR 0x09, CHR 0x0C, CHR 0x0B]"

definition find_first_not_of :: "string \<Rightarrow> nat option" where
  "find_first_not_of sv =
     (let k = length (takeWhile blank sv) in if k < length sv then Some k else None)"

definition find_last_not_of :: "string \<Rightarrow> nat option" where
  "find_last_not_of sv =
     (let k = length (takeWhile blank (rev sv)) in if k < length sv then Some (length sv - k - 1) else None)"

definition ltrim :: "string \<Rightarrow> string" where
  "ltrim sv = drop (case find_first_not_of sv of None \<Rightarrow> length sv | Some i \<Rightarrow> min i (length sv)) sv"

definition rtrim :: "string \<Rightarrow> string" where
  "rtrim sv =
     (case find_last_not_of sv of
        None \<Rightarrow> sv
      | Some i \<Rightarrow> take (length sv - (length sv - i - 1)) sv)"

definition trim :: "string \<Rightarrow> string" where
  "trim sv = ltrim (rtrim sv)"

definition rndChars :: string where
  "rndChars = ''ABCDEFGHIJKLMNOPQRSTUVWXYZabcdefghijklmnopqrstuvwxyz1234567890''"

text \<open>\<open>draw\<close> gives what \<^verbatim>\<open>Math::random(maxLen)\<close> returns in the i-th call.\<close>

definition random_string :: "(nat \<Rightarrow> nat \<Rightarrow> nat) \<Rightarrow> u16 \<Rightarrow> string option \<Rightarrow> string" where
  "random_string draw len chars =
     (if len = 0 then []
      else let chars1 = (case chars of None \<Rightarrow> rndChars | Some cs \<Rightarrow> cs) in
           map (\<lambda>i. chars1 ! draw i (length chars1)) [0..<unat len])"

text \<open>\<open>get_time\<close> parses a time with a format, \<open>mktime\<close> turns it into seconds.\<close>

definition parseTime ::
    "(string \<Rightarrow> string \<Rightarrow> 'tm option) \<Rightarrow> ('tm \<Rightarrow> int) \<Rightarrow> string \<Rightarrow> string \<Rightarrow> int" where
  "parseTime get_time mktime time format =
     (if time = [] then 0
      else case get_time time format of None \<Rightarrow> 0 | Some tm \<Rightarrow> mktime tm)"

definition supportedFormats :: "string list" where
  "supportedFormats = [''%Y-%m-%d %T'', ''%Y/%m/%d %T'']"

fun try_formats ::
    "(string \<Rightarrow> string \<Rightarrow> 'tm option) \<Rightarrow> ('tm \<Rightarrow> int) \<Rightarrow> string \<Rightarrow> string list \<Rightarrow> int" where
  "try_formats get_time mktime time [] = 0"
| "try_formats get_time mktime time (f # fs) =
     (let t = parseTime get_time mktime time f in
      if t \<noteq> 0 then t else try_formats get_time mktime time fs)"

definition parseTime_any ::
    "(string \<Rightarrow> string \<Rightarrow> 'tm option) \<Rightarrow> ('tm \<Rightarrow> int) \<Rightarrow> string \<Rightarrow> int" where
  "parseTime_any get_time mktime time =
     (if time = [] then 0 else try_formats get_time mktime time supportedFormats)"

section \<open>What splitting returns\<close>

text \<open>A reference for both loops: \<open>pre\<close> is the piece read so far.\<close>

function pieces :: "string \<Rightarrow> string \<Rightarrow> string \<Rightarrow> string list" where
  "pieces sep pre s =
     (if sep = [] \<or> length s < length sep then [pre @ s]
      else if take (length sep) s = sep then pre # pieces sep [] (drop (length sep) s)
      else pieces sep (pre @ [hd s]) (tl s))"
  by pat_completeness auto

termination pieces
proof (relation "measure (\<lambda>(sep, pre, s). length s)", goal_cases)
  case (2 sep pre s)
  then show ?case by (cases sep; cases s) auto
next
  case (3 sep pre s)
  then show ?case by (cases sep; cases s) auto
qed simp

declare pieces.simps [simp del]

lemma pieces_neq_Nil [simp]: "pieces sep pre s \<noteq> []"
  by (induction sep pre s rule: pieces.induct) (subst pieces.simps, simp)

lemma copy_loop_pieces:
  "sep \<noteq> [] \<Longrightarrow> p \<le> i \<Longrightarrow> i + n = length s \<Longrightarrow>
     copy_loop sep s p i n out = Some (out @ pieces sep (take (i - p) (drop p s)) (drop i s))"
proof (induction n arbitrary: p i out rule: less_induct)
  case (less n)
  have n: "length (drop i s) = n" using less.prems by simp
  show ?case
  proof (cases "length sep \<le> n")
    case False
    have "drop p s = take (i - p) (drop p s) @ drop i s"
      using less.prems by (metis append_take_drop_id drop_drop le_add_diff_inverse2)
    with False n show ?thesis by (simp add: copy_loop.simps [of sep] pieces.simps [of sep])
  next
    case True
    then have i: "i < length s" using less.prems by (cases sep) auto
    show ?thesis
    proof (cases "take (length sep) (drop i s) = sep")
      case m: True
      have 1: "copy_loop sep s p i n out = copy_loop sep s (i + length sep) (i + length sep)
          (n - length sep) (out @ [take (i - p) (drop p s)])"
        using True i m by (subst copy_loop.simps) simp
      have "n - length sep < n" using True less.prems(1) by (cases sep) auto
      then have "copy_loop sep s (i + length sep) (i + length sep) (n - length sep)
          (out @ [take (i - p) (drop p s)])
        = Some ((out @ [take (i - p) (drop p s)]) @ pieces sep [] (drop (i + length sep) s))"
        using less.prems True less.IH [of "n - length sep" "i + length sep" "i + length sep"] by simp
      then show ?thesis
        using 1 True m n less.prems by (simp add: pieces.simps [of sep _ "drop i s"] add.commute)
    next
      case m: False
      have "copy_loop sep s p i n out = copy_loop sep s p (Suc i) (n - 1) out"
        using True i m by (subst copy_loop.simps) simp
      also have "\<dots> = Some (out @ pieces sep (take (Suc i - p) (drop p s)) (drop (Suc i) s))"
        using less.prems i by (intro less.IH) auto
      also have "take (Suc i - p) (drop p s) = take (i - p) (drop p s) @ [hd (drop i s)]"
        using less.prems i by (simp add: Suc_diff_le take_Suc_conv_app_nth hd_drop_conv_nth)
      also have "drop (Suc i) s = tl (drop i s)" by (simp add: drop_Suc tl_drop)
      finally show ?thesis using True m n less.prems by (simp add: pieces.simps [of sep _ "drop i s"])
    qed
  qed
qed

text \<open>With an empty separator the copying loop does not move.\<close>

lemma copy_loop_diverges: "copy_loop sep s p i n out = Some r \<Longrightarrow> sep = [] \<longrightarrow> length s \<le> i"
proof (erule copy_loop.raw_induct [where P = "\<lambda>sep s p i n out r. sep = [] \<longrightarrow> length s \<le> i", rotated])
  fix f :: "string \<Rightarrow> string \<Rightarrow> nat \<Rightarrow> nat \<Rightarrow> nat \<Rightarrow> string list \<Rightarrow> string list option"
    and sep s p i n out r
  assume IH: "\<And>sep s p i n out r. f sep s p i n out = Some r \<Longrightarrow> sep = [] \<longrightarrow> length s \<le> i"
    and eq: "(if i < length s \<and> length sep \<le> n
      then if take (length sep) (drop i s) = sep
           then f sep s (i + length sep) (i + length sep) (n - length sep) (out @ [take (i - p) (drop p s)])
           else f sep s p (Suc i) (n - 1) out
      else Some (out @ [drop p s])) = Some r"
  show "sep = [] \<longrightarrow> length s \<le> i"
  proof
    assume "sep = []"
    with eq IH [of "[]" s i i n "out @ [take (i - p) (drop p s)]" r] show "length s \<le> i"
      by (cases "i < length s") simp_all
  qed
qed

lemma split_copy_pieces:
  "sep \<noteq> [] \<Longrightarrow> s \<noteq> [] \<Longrightarrow> split_copy sep s out = Some (out @ pieces sep [] s)"
  by (simp add: split_copy_def copy_loop_pieces)

lemma cstring_append: "NUL \<notin> set xs \<Longrightarrow> cstring (xs @ NUL # ys) = xs"
  by (auto simp: cstring_def takeWhile_append)

text \<open>The loop that cuts the buffer: \<open>t\<close> is the rest of the string, \<open>p\<close> the start of the piece.\<close>

lemma split_loop_pieces:
  "sep \<noteq> [] \<Longrightarrow> p \<le> i \<Longrightarrow> drop i buf = t @ NUL # rest \<Longrightarrow> i \<le> length buf \<Longrightarrow> NUL \<notin> set t \<Longrightarrow>
     NUL \<notin> set (take (i - p) (drop p buf)) \<Longrightarrow>
     \<exists>buf' ps. split_loop sep i (length t) buf out = Inr (buf', out @ ps) \<and> take i buf' = take i buf
       \<and> length buf' = length buf
       \<and> map (\<lambda>q. cstring (drop q buf')) (p # ps) = pieces sep (take (i - p) (drop p buf)) t"
proof (induction "length t" arbitrary: p i buf t out rule: less_induct)
  case less
  have len: "i + Suc (length t + length rest) = length buf"
    using arg_cong [OF less.prems(3), of length] less.prems(4) by simp
  have at: "buf ! (i + k) = (t @ NUL # rest) ! k" for k
    using less.prems(3) len by (metis nth_drop less.prems(4))
  have fetch: "drop p buf = take (i - p) (drop p buf) @ t @ NUL # rest"
    using less.prems(2,3) by (metis append_take_drop_id drop_drop le_add_diff_inverse2)
  show ?case
  proof (cases "length sep \<le> length t")
    case False
    have "cstring (drop p buf) = take (i - p) (drop p buf) @ t"
      using less.prems(5,6) cstring_append [of "take (i - p) (drop p buf) @ t" rest] fetch by simp
    with False len show ?thesis
      by (simp add: split_loop.simps [of sep] pieces.simps [of sep])
  next
    case True
    then have t: "t \<noteq> []" using less.prems(1) by (cases sep) auto
    have nn: "buf ! i \<noteq> NUL" using at [of 0] t less.prems(5) by (cases t) auto
    have tk: "take (length sep) (drop i buf) = take (length sep) t" using less.prems(3) True by simp
    show ?thesis
    proof (cases "take (length sep) t = sep")
      case m: True
      let ?i = "i + length sep" and ?buf = "buf[i := NUL]" and ?t = "drop (length sep) t"
      have st: "split_loop sep i (length t) buf out
          = split_loop sep ?i (length ?t) ?buf (out @ [?i])"
        using True m tk nn len by (simp add: split_loop.simps [of sep i])
      have lt: "length ?t < length t" using True less.prems(1) by (cases sep) auto
      have d: "drop ?i ?buf = ?t @ NUL # rest"
      proof -
        have "drop ?i ?buf = drop (length sep) (drop i buf)" using less.prems(1)
          by (simp add: drop_update_cancel add.commute)
        then show ?thesis using less.prems(3) True by simp
      qed
      have "NUL \<notin> set ?t" using less.prems(5) by (auto dest: in_set_dropD)
      with less.hyps [OF lt less.prems(1) le_refl d, of "out @ [?i]"] len True obtain buf' ps where
        s: "split_loop sep ?i (length ?t) ?buf (out @ [?i]) = Inr (buf', (out @ [?i]) @ ps)"
        and k: "take ?i buf' = take ?i ?buf" "length buf' = length buf"
        and r: "map (\<lambda>q. cstring (drop q buf')) (?i # ps) = pieces sep [] ?t"
        by auto
      have ki: "take i buf' = take i buf"
        using arg_cong [OF k(1), of "take i"] by (simp add: min_def)
      have n: "buf' ! i = NUL"
        using arg_cong [OF k(1), of "\<lambda>xs. xs ! i"] less.prems(1) len by simp
      have "drop p buf' = take (i - p) (drop p buf') @ drop i buf'"
        using less.prems(2) by (metis append_take_drop_id drop_drop le_add_diff_inverse2)
      also have "take (i - p) (drop p buf') = take (i - p) (drop p buf)"
        using ki less.prems(2) by (metis drop_take)
      also have "drop i buf' = NUL # drop (Suc i) buf'"
        using n k(2) len by (metis Cons_nth_drop_Suc add_Suc_right less_add_Suc1)
      finally have "cstring (drop p buf') = take (i - p) (drop p buf)"
        using less.prems(6) cstring_append by metis
      then show ?thesis
        using st s k(2) ki r True m
        by (intro exI [of _ buf'] exI [of _ "?i # ps"]) (simp add: pieces.simps [of sep _ t] less.prems(1))
    next
      case m: False
      have st: "split_loop sep i (length t) buf out = split_loop sep (Suc i) (length (tl t)) buf out"
        using True m tk nn len by (simp add: split_loop.simps [of sep i])
      have ex: "take (Suc i - p) (drop p buf) = take (i - p) (drop p buf) @ [hd t]"
      proof -
        have "take (Suc i - p) (drop p buf) = take (Suc (i - p)) (take (i - p) (drop p buf) @ t @ NUL # rest)"
          using less.prems(2) fetch by (simp add: Suc_diff_le)
        also have "\<dots> = take (i - p) (drop p buf) @ [hd t]"
          using t len less.prems(2) by (cases t) (simp_all add: min_def)
        finally show ?thesis .
      qed
      have "drop (Suc i) buf = tl t @ NUL # rest"
        using less.prems(3) t by (metis drop_Suc tl_append2 tl_drop)
      moreover have "NUL \<notin> set (tl t)" using less.prems(5) t by (cases t) auto
      moreover have "hd t \<noteq> NUL" using less.prems(5) t by (cases t) auto
      moreover have "length (tl t) < length t" using t by simp
      ultimately obtain buf' ps where
        s: "split_loop sep (Suc i) (length (tl t)) buf out = Inr (buf', out @ ps)"
        and k: "take (Suc i) buf' = take (Suc i) buf" "length buf' = length buf"
        and r: "map (\<lambda>q. cstring (drop q buf')) (p # ps) = pieces sep (take (i - p) (drop p buf) @ [hd t]) (tl t)"
        using less.hyps [of "tl t" p "Suc i" buf out] less.prems len ex by auto
      have "take i buf' = take i buf"
        using arg_cong [OF k(1), of "take i"] by (simp add: min_def)
      with st s k r True m less.prems(1) show ?thesis
        by (intro exI [of _ buf'] exI [of _ ps]) (simp add: pieces.simps [of sep _ t])
    qed
  qed
qed

lemma join_Nil [simp]: "join [] glue = []"
  by (simp add: join_def)

lemma join_single [simp]: "join [x] glue = x"
  by (simp add: join_def)

lemma foldl_join: "foldl (\<lambda>out y. out @ glue @ y) (a @ b) ys = a @ foldl (\<lambda>out y. out @ glue @ y) b ys"
  by (induction ys arbitrary: b) simp_all

lemma join_Cons: "xs \<noteq> [] \<Longrightarrow> join (x # xs) glue = x @ glue @ join xs glue"
  using foldl_join [of glue "x @ glue"] by (cases xs) (simp_all add: join_def)

lemma join_stream_join: "join_stream put xs glue = join (map put xs) glue"
proof -
  have "foldl (\<lambda>ss y. ss @ glue @ put y) s ys = foldl (\<lambda>out y. out @ glue @ y) s (map put ys)" for s ys
    by (induction ys arbitrary: s) simp_all
  then show ?thesis by (cases xs) (simp_all add: join_stream_def join_def)
qed

text \<open>The pieces of \<open>s\<close>: joined they are \<open>s\<close>, the separator ends each but the last of them
  where it occurs first, and the last does not hold it.\<close>

definition splits_into :: "string \<Rightarrow> string list \<Rightarrow> string \<Rightarrow> bool" where
  "splits_into sep xs s \<longleftrightarrow> xs \<noteq> [] \<and> join xs sep = s
     \<and> (\<forall>x\<in>set (butlast xs). \<not> sublist sep (butlast (x @ sep))) \<and> \<not> sublist sep (List.last xs)"

lemma sublist_at: "sublist ys xs \<longleftrightarrow> (\<exists>k. k + length ys \<le> length xs \<and> take (length ys) (drop k xs) = ys)"
proof
  assume "sublist ys xs"
  then obtain us vs where "xs = us @ ys @ vs" by (auto simp: sublist_def)
  then show "\<exists>k. k + length ys \<le> length xs \<and> take (length ys) (drop k xs) = ys"
    by (intro exI [of _ "length us"]) simp
next
  assume "\<exists>k. k + length ys \<le> length xs \<and> take (length ys) (drop k xs) = ys"
  then obtain k where "xs = take k xs @ ys @ drop (length ys) (drop k xs)"
    by (metis append_take_drop_id)
  then show "sublist ys xs" unfolding sublist_def by blast
qed

lemma first_at_end:
  assumes "sep \<noteq> []"
  shows "sublist sep (butlast (x @ sep)) \<longleftrightarrow> (\<exists>k<length x. take (length sep) (drop k (x @ sep)) = sep)"
proof -
  have len: "length (butlast (x @ sep)) = length x + (length sep - 1)"
    using assms by (cases sep) auto
  have l: "0 < length sep" using assms by simp
  have "take (length sep) (drop k (butlast (x @ sep))) = take (length sep) (drop k (x @ sep))"
    if "k < length x" for k
    using that len l by (simp add: butlast_conv_take drop_take min_def)
  moreover have "k + length sep \<le> length (butlast (x @ sep)) \<longleftrightarrow> k < length x" for k
    using l unfolding len by linarith
  ultimately show ?thesis unfolding sublist_at by auto
qed

lemma pieces_ok:
  "sep \<noteq> [] \<Longrightarrow> \<forall>k<length pre. take (length sep) (drop k (pre @ s)) \<noteq> sep \<Longrightarrow>
     splits_into sep (pieces sep pre s) (pre @ s)"
proof (induction sep pre s rule: pieces.induct)
  case (1 sep pre s)
  consider "length s < length sep" | "length sep \<le> length s" "take (length sep) s = sep"
    | "length sep \<le> length s" "take (length sep) s \<noteq> sep" by linarith
  then show ?case
  proof cases
    case 1
    have "\<not> sublist sep (pre @ s)"
    proof
      assume "sublist sep (pre @ s)"
      then obtain k where k: "k + length sep \<le> length (pre @ s)" "take (length sep) (drop k (pre @ s)) = sep"
        unfolding sublist_at by blast
      with \<open>length s < length sep\<close> have "k < length pre" by simp
      with k(2) \<open>\<forall>k<length pre. _\<close> show False by blast
    qed
    with 1 show ?thesis by (simp add: pieces.simps [of sep] splits_into_def)
  next
    case 2
    let ?r = "drop (length sep) s"
    have s: "s = sep @ ?r" using 2(2) by (metis append_take_drop_id)
    have p: "pieces sep pre s = pre # pieces sep [] ?r"
      using 2 \<open>sep \<noteq> []\<close> by (simp add: pieces.simps [of sep pre])
    have IH: "splits_into sep (pieces sep [] ?r) ?r" using "1.IH"(1) 2 \<open>sep \<noteq> []\<close> by simp
    have "\<not> (\<exists>k<length pre. take (length sep) (drop k (pre @ sep)) = sep)"
    proof
      assume "\<exists>k<length pre. take (length sep) (drop k (pre @ sep)) = sep"
      then obtain k where k: "k < length pre" "take (length sep) (drop k (pre @ sep)) = sep" by blast
      then have "take (length sep) (drop k (pre @ sep @ ?r)) = sep" by simp
      with k(1) 1(4) s show False by metis
    qed
    with IH show ?thesis
      unfolding p using first_at_end [OF \<open>sep \<noteq> []\<close>] s by (auto simp: splits_into_def join_Cons)
  next
    case 3
    then have s: "s \<noteq> []" using \<open>sep \<noteq> []\<close> by (cases s) auto
    have "pieces sep pre s = pieces sep (pre @ [hd s]) (tl s)"
      using 3 \<open>sep \<noteq> []\<close> by (simp add: pieces.simps [of sep pre])
    moreover have "splits_into sep (pieces sep (pre @ [hd s]) (tl s)) ((pre @ [hd s]) @ tl s)"
    proof (rule "1.IH"(2))
      show "\<not> (sep = [] \<or> length s < length sep)" "take (length sep) s \<noteq> sep" "sep \<noteq> []"
        using 3 \<open>sep \<noteq> []\<close> by auto
      show "\<forall>k<length (pre @ [hd s]). take (length sep) (drop k ((pre @ [hd s]) @ tl s)) \<noteq> sep"
        using 1(4) 3(2) s by (auto simp: less_Suc_eq)
    qed
    ultimately show ?thesis using s by simp
  qed
qed

lemma pieces_none: "sep \<noteq> [] \<Longrightarrow> \<not> sublist sep s \<Longrightarrow> pieces sep pre s = [pre @ s]"
proof (induction s arbitrary: pre)
  case Nil
  then show ?case by (simp add: pieces.simps [of sep])
next
  case (Cons c s)
  have "take (length sep) (c # s) \<noteq> sep" if "length sep \<le> length (c # s)"
    using Cons.prems(2) that unfolding sublist_at by (metis add_0 drop_0)
  moreover have "\<not> sublist sep s" using Cons.prems(2) sublist_order.order_trans sublist_append_leftI [of s "[c]"] by auto
  ultimately show ?case using Cons.IH Cons.prems(1) by (auto simp: pieces.simps [of sep pre])
qed

lemma pieces_first:
  "sep \<noteq> [] \<Longrightarrow> \<forall>k<length y. take (length sep) (drop k (y @ sep)) \<noteq> sep \<Longrightarrow>
     pieces sep pre (y @ sep @ r) = (pre @ y) # pieces sep [] r"
proof (induction y arbitrary: pre)
  case Nil
  then show ?case by (simp add: pieces.simps [of sep pre])
next
  case (Cons c y)
  have "take (length sep) ((c # y) @ sep) \<noteq> sep" using Cons.prems(2) by (metis drop_0 length_greater_0_conv list.discI)
  then have "take (length sep) (c # y @ sep @ r) \<noteq> sep"
    by (metis append_Cons append_assoc le_add2 length_append take_append diff_is_0_eq take_0 append_Nil2)
  moreover have "\<forall>k<length y. take (length sep) (drop k (y @ sep)) \<noteq> sep"
    using Cons.prems(2) by (metis Suc_less_eq append_Cons drop_Suc_Cons length_Cons)
  ultimately show ?case using Cons.IH Cons.prems(1) by (simp add: pieces.simps [of sep pre])
qed

lemma pieces_unique: "sep \<noteq> [] \<Longrightarrow> splits_into sep xs s \<Longrightarrow> pieces sep [] s = xs"
proof (induction xs arbitrary: s)
  case Nil
  then show ?case by (simp add: splits_into_def)
next
  case (Cons x xs)
  show ?case
  proof (cases "xs = []")
    case True
    with Cons.prems pieces_none show ?thesis by (auto simp: splits_into_def)
  next
    case False
    with Cons.prems have s: "s = x @ sep @ join xs sep" and x: "\<not> sublist sep (butlast (x @ sep))"
      and "splits_into sep xs (join xs sep)"
      by (auto simp: splits_into_def join_Cons)
    with Cons.IH Cons.prems(1) have "pieces sep [] (join xs sep) = xs" by blast
    with pieces_first [OF Cons.prems(1), of x "[]" "join xs sep"] x first_at_end [OF Cons.prems(1), of x]
    show ?thesis by (simp add: s)
  qed
qed

section \<open>Encodings\<close>

lemma hex_digits: "list_all (\<lambda>n. hex2char (HEX_DIGIT ! n) = n \<and> isalnum (HEX_DIGIT ! n)) [0..<16]"
  by code_simp

lemma hex_digit: "n < 16 \<Longrightarrow> hex2char (HEX_DIGIT ! n) = n \<and> isalnum (HEX_DIGIT ! n)"
  using hex_digits by (simp add: list_all_iff)

lemma nibbles_all: "list_all (\<lambda>h. list_all (\<lambda>l. push_bit 4 h OR l = 16 * h + (l :: nat)) [0..<16]) [0..<16]"
  by code_simp

lemma nibbles: "h < 16 \<Longrightarrow> l < 16 \<Longrightarrow> push_bit 4 h OR l = 16 * h + (l :: nat)"
  using nibbles_all by (simp add: list_all_iff)

lemma code_of_less: "code_of c < 256"
  using nat_of_char_less_256 [of c] by simp

lemma encoded_char:
  "char_of (push_bit 4 (hex2char (HEX_DIGIT ! (code_of c div 16))) OR hex2char (HEX_DIGIT ! (code_of c mod 16))) = c"
proof -
  have "code_of c < 16 * 16" using code_of_less [of c] by simp
  then have d: "code_of c div 16 < 16" by (rule less_mult_imp_div_less)
  have "push_bit 4 (code_of c div 16) OR (code_of c mod 16) = 16 * (code_of c div 16) + code_of c mod 16"
    using d by (intro nibbles) simp_all
  with d show ?thesis by (simp add: hex_digit)
qed

section \<open>Trimming\<close>

lemma ltrim_eq: "ltrim sv = dropWhile blank sv"
proof -
  have "length (takeWhile blank sv) \<le> length sv" by (rule length_takeWhile_le)
  moreover have "drop (length (takeWhile blank sv)) sv = dropWhile blank sv"
    by (metis append_eq_conv_conj takeWhile_dropWhile_id)
  ultimately show ?thesis by (auto simp: ltrim_def find_first_not_of_def Let_def not_less)
qed

lemma rtrim_eq:
  "rtrim sv = (if \<forall>c\<in>set sv. blank c then sv else rev (dropWhile blank (rev sv)))"
proof -
  let ?k = "length (takeWhile blank (rev sv))"
  have "rev (dropWhile blank (rev sv)) = take (length sv - ?k) sv"
    by (metis append_eq_conv_conj rev_swap rev_take takeWhile_dropWhile_id rev_drop length_rev)
  moreover have "?k < length sv \<longleftrightarrow> \<not> (\<forall>c\<in>set sv. blank c)"
    by (metis length_rev length_takeWhile_le less_le set_rev set_takeWhileD takeWhile_eq_all_conv
        takeWhile_eq_take take_all_iff le_refl)
  ultimately show ?thesis by (auto simp: rtrim_def find_last_not_of_def Let_def)
qed

lemma rtrim_append: "\<exists>b. sv = rtrim sv @ b \<and> (\<forall>c\<in>set b. blank c)"
proof (cases "\<forall>c\<in>set sv. blank c")
  case True
  then show ?thesis by (simp add: rtrim_eq)
next
  case False
  have "sv = rev (dropWhile blank (rev sv)) @ rev (takeWhile blank (rev sv))"
    by (metis rev_append rev_rev_ident takeWhile_dropWhile_id)
  with False show ?thesis
    by (intro exI [of _ "rev (takeWhile blank (rev sv))"]) (auto simp: rtrim_eq dest: set_takeWhileD)
qed

section \<open>Properties\<close>

text \<open>The two overloads of \<^verbatim>\<open>split\<close> agree: the pointers that the first one returns
  are, in the buffer it has cut, the strings that the second one copies.\<close>

theorem str_split_overloads_agree:
  assumes "sep \<noteq> []" and "s \<noteq> []" and "NUL \<notin> set s"
  shows "\<exists>buf' ps. split_chars sep (s @ NUL # rest) [] = Inr (buf', ps)
    \<and> split_copy sep s [] = Some (map (\<lambda>p. cstring (drop p buf')) ps)
    \<and> length buf' = length (s @ NUL # rest)"
proof -
  have "\<exists>buf' ps. split_loop sep 0 (length s) (s @ NUL # rest) [0] = Inr (buf', [0] @ ps)
      \<and> take 0 buf' = take 0 (s @ NUL # rest) \<and> length buf' = length (s @ NUL # rest)
      \<and> map (\<lambda>q. cstring (drop q buf')) (0 # ps) = pieces sep (take (0 - 0) (drop 0 (s @ NUL # rest))) s"
    using assms by (intro split_loop_pieces) auto
  then obtain buf' ps where r: "split_loop sep 0 (length s) (s @ NUL # rest) [0] = Inr (buf', 0 # ps)"
    "length buf' = length (s @ NUL # rest)" "map (\<lambda>q. cstring (drop q buf')) (0 # ps) = pieces sep [] s"
    by auto
  have "split_chars sep (s @ NUL # rest) [] = Inr (buf', 0 # ps)"
    using r(1) assms(2,3) by (simp add: split_chars_def cstring_append Let_def)
  with r split_copy_pieces [OF assms(1,2), of "[]"] show ?thesis by fastforce
qed

theorem str_split_overloads_agree_witness:
  "\<exists>buf' ps. split_chars '', '' (''a, b,c'' @ NUL # ''xy'') [] = Inr (buf', ps)
     \<and> split_copy '', '' ''a, b,c'' [] = Some (map (\<lambda>p. cstring (drop p buf')) ps) \<and> length buf' = 9"
  using str_split_overloads_agree [of "'', ''" "''a, b,c''" "''xy''"] by (simp add: eval_nat_numeral)

text \<open>C37. \<^verbatim>\<open>split\<close> of a string that is not empty returns exactly the pieces that join to
  it with the separator, each but the last ended by the first occurrence of the separator, the last
  without one; so \<^verbatim>\<open>join\<close> inverts \<^verbatim>\<open>split\<close>, and \<^verbatim>\<open>split\<close> inverts
  \<^verbatim>\<open>join\<close> of such pieces. With an empty separator it does not return.\<close>

theorem str_split_iff_join:
  assumes "s \<noteq> []"
  shows "split_copy sep s [] = Some xs \<longleftrightarrow> sep \<noteq> [] \<and> splits_into sep xs s"
proof (cases "sep = []")
  case True
  have "copy_loop [] s' p i n out = None" if "i < length s'" for s' p i n out
    proof (cases "copy_loop [] s' p i n out")
    case (Some r)
    with that copy_loop_diverges [OF Some] show ?thesis by simp
  qed simp
  with True assms show ?thesis by (simp add: split_copy_def)
next
  case False
  have "split_copy sep s [] = Some (pieces sep [] s)"
    using split_copy_pieces [OF False assms, of "[]"] by simp
  moreover have "splits_into sep (pieces sep [] s) s" using pieces_ok [OF False, of "[]" s] by simp
  then have "pieces sep [] s = xs \<longleftrightarrow> splits_into sep xs s" using pieces_unique [OF False, of xs s] by blast
  ultimately show ?thesis using False by simp
qed

theorem str_split_iff_join_witness:
  "split_copy '', '' ''a, b,c'' [] = Some [''a'', ''b,c''] \<and> splits_into '', '' [''a'', ''b,c''] ''a, b,c''"
proof -
  have "split_copy '', '' ''a, b,c'' [] = Some [''a'', ''b,c'']" by code_simp
  with str_split_iff_join [of "''a, b,c''" "'', ''" "[''a'', ''b,c'']"] show ?thesis by simp
qed

lemma URLEncode_decodes:
  "URLDecode (URLEncode s) = Inr s \<and> (\<forall>c\<in>set (URLEncode s). unreserved c \<or> c = CHR ''%'')"
proof (induction s)
  case Nil
  then show ?case by simp
next
  case (Cons c s)
  have p: "\<not> unreserved (CHR ''%'')" by code_simp
  have "code_of c < 16 * 16" using code_of_less [of c] by simp
  then have "code_of c div 16 < 16" by (rule less_mult_imp_div_less)
  then have "isalnum (HEX_DIGIT ! (code_of c div 16))" "isalnum (HEX_DIGIT ! (code_of c mod 16))"
    by (simp_all add: hex_digit)
  with Cons.IH p encoded_char [of c] show ?case by (auto simp: unreserved_def)
qed

text \<open>\<^verbatim>\<open>URLDecode\<close> gives back what \<^verbatim>\<open>URLEncode\<close> was given, for every
  string of bytes, and the encoded form holds letters, digits and the marks - _ . ~ % only.\<close>

theorem str_url_roundtrip:
  "URLDecode (URLEncode s) = Inr s \<and> (\<forall>c\<in>set (URLEncode s). unreserved c \<or> c = CHR ''%'')"
  by (rule URLEncode_decodes)

theorem str_url_roundtrip_witness:
  "URLEncode ''a b%'' = ''a%20b%25'' \<and> URLDecode ''a%20b%25'' = Inr ''a b%''"
proof -
  have "URLEncode ''a b%'' = ''a%20b%25''" by code_simp
  with str_url_roundtrip [of "''a b%''"] show ?thesis by metis
qed

text \<open>\<^verbatim>\<open>copy\<close> never writes outside the \<open>size\<close> bytes it is given, copies the
  longest prefix that fits, ends it with a terminator when asked to, and says whether it is all of
  the source; an empty source is the exception, it leaves the destination as it is, without a
  terminator.\<close>

theorem str_copy_outcome:
  assumes "sz \<le> length dest"
  shows "\<exists>ok dest'. copy dest sz src z = Inr (ok, dest') \<and> length dest' = length dest
    \<and> drop sz dest' = drop sz dest
    \<and> (if src = [] then ok \<and> dest' = dest
       else let n = min (length src) (if z then sz - 1 else sz) in
            (ok \<longleftrightarrow> n = length src \<and> 0 < sz) \<and> take n dest' = take n src
            \<and> (z \<and> 0 < sz \<longrightarrow> dest' ! n = NUL))"
proof -
  consider "src = []" | "src \<noteq> []" "sz = 0" | "src \<noteq> []" "0 < sz" "length src \<le> (if z then sz - 1 else sz)"
    | "src \<noteq> []" "0 < sz" "(if z then sz - 1 else sz) < length src" by linarith
  then show ?thesis
  proof cases
    case 1
    then show ?thesis by (intro exI [of _ True] exI [of _ dest]) (simp add: copy_def)
  next
    case 2
    then show ?thesis by (intro exI [of _ False] exI [of _ dest]) (simp add: copy_def)
  next
    case 3
    let ?d = "src @ (if z then NUL # drop (Suc (length src)) dest else drop (length src) dest)"
    have "copy dest sz src z = Inr (True, ?d)"
      using 3 assms by (cases z) (simp_all add: copy_def Let_def poke_chars_def)
    moreover have "length ?d = length dest" "drop sz ?d = drop sz dest"
      using 3 assms by (cases z; simp add: drop_Cons')+
    ultimately show ?thesis using 3 assms
      by (intro exI [of _ True] exI [of _ ?d]) (cases z; simp add: Let_def min_def)
  next
    case 4
    let ?n = "if z then sz - 1 else sz"
    let ?d = "take ?n src @ (if z then NUL # drop sz dest else drop sz dest)"
    have "copy dest sz src z = Inr (False, ?d)"
      using 4 assms by (cases z) (simp_all add: copy_def Let_def poke_chars_def)
    moreover have "length ?d = length dest" "drop sz ?d = drop sz dest"
      using 4 assms by (cases z; simp add: drop_Cons')+
    ultimately show ?thesis using 4 assms
      by (intro exI [of _ False] exI [of _ ?d]) (cases z; simp add: Let_def min_def nth_append)
  qed
qed

theorem str_copy_outcome_witness:
  "\<exists>ok dest'. copy ''zzzzzz'' 4 ''hello'' True = Inr (ok, dest') \<and> \<not> ok \<and> take 3 dest' = ''hel''
     \<and> dest' ! 3 = NUL \<and> drop 4 dest' = ''zz''"
  using str_copy_outcome [of 4 "''zzzzzz''" "''hello''" True] by (auto simp: Let_def eval_nat_numeral)

text \<open>\<^verbatim>\<open>trim\<close> takes off blanks only, at the two ends, and all of them.\<close>

theorem str_trim_spec:
  "\<exists>a b. sv = a @ trim sv @ b \<and> (\<forall>c\<in>set (a @ b). blank c)
     \<and> (trim sv \<noteq> [] \<longrightarrow> \<not> blank (hd (trim sv)) \<and> \<not> blank (List.last (trim sv)))
     \<and> (trim sv = [] \<longleftrightarrow> (\<forall>c\<in>set sv. blank c))"
proof -
  let ?r = "rtrim sv"
  obtain b where b: "sv = ?r @ b" "\<forall>c\<in>set b. blank c" using rtrim_append by blast
  have t: "trim sv = dropWhile blank ?r" by (simp add: trim_def ltrim_eq)
  have r: "?r = takeWhile blank ?r @ trim sv" by (simp add: t)
  have e: "trim sv = [] \<longleftrightarrow> (\<forall>c\<in>set sv. blank c)"
  proof
    show "\<forall>c\<in>set sv. blank c \<Longrightarrow> trim sv = []" by (simp add: t rtrim_eq)
    assume "trim sv = []"
    then show "\<forall>c\<in>set sv. blank c" using b t by (metis Un_iff dropWhile_eq_Nil_conv set_append)
  qed
  have "\<not> blank (hd (trim sv)) \<and> \<not> blank (List.last (trim sv))" if ne: "trim sv \<noteq> []"
  proof
    show "\<not> blank (hd (trim sv))" using ne unfolding t by (rule hd_dropWhile)
    have "\<not> (\<forall>c\<in>set sv. blank c)" using ne e by blast
    then have "?r = rev (dropWhile blank (rev sv))" and "dropWhile blank (rev sv) \<noteq> []"
      by (auto simp: rtrim_eq)
    then have "\<not> blank (List.last ?r)" using hd_dropWhile [of blank "rev sv"] by (simp add: last_rev)
    moreover have "List.last ?r = List.last (trim sv)" using r ne by (metis last_appendR)
    ultimately show "\<not> blank (List.last (trim sv))" by simp
  qed
  moreover have "sv = takeWhile blank ?r @ trim sv @ b" using b(1) r by (metis append_assoc)
  ultimately show ?thesis using b(2) e
    by (intro exI [of _ "takeWhile blank ?r"] exI [of _ b]) (auto dest: set_takeWhileD)
qed

theorem str_trim_spec_witness:
  "trim ''  a b '' = ''a b'' \<and> \<not> blank (hd (trim ''  a b ''))"
proof -
  have "trim ''  a b '' = ''a b''" by code_simp
  with str_trim_spec [of "''  a b ''"] show ?thesis by auto
qed

section \<open>Corner cases\<close>

text \<open>\<^verbatim>\<open>rtrim\<close> alone keeps a string of blanks.\<close>

lemma rtrim_keeps_blanks: "rtrim ''  '' = ''  ''"
  by code_simp

lemma URLDecode_cut_off: "URLDecode ''a%2'' = Inl Undefined_behaviour"
  by code_simp

lemma split_of_empty: "split_copy sep [] out = Some out"
  by (simp add: split_copy_def)

end
