(* ===== verification/Socket_Io.thy ===== *)
theory Socket_Io
  imports Byte_Array
begin

text \<open>
  What the two socket components share: the size of their transfer buffer
  (include/ws/network/NetDef.h) and the results the operating system gives them. A list of
  results stands for what successive calls of \<^verbatim>\<open>recv\<close> or \<^verbatim>\<open>send\<close> return.

  \<open>Received xs\<close> is a call that fills the buffer with xs; it is shorter than the buffer or
  as long. \<open>Sent k\<close> is a call that takes over k bytes, or all that it was offered when that
  is fewer.
\<close>

definition BUFFER_SIZE :: nat where
  "BUFFER_SIZE = 4096"

datatype recv_result = Received bytes | End_of_stream | Recv_would_block | Recv_error

datatype send_result = Sent nat | Send_would_block | Send_error

fun recv_fits :: "recv_result \<Rightarrow> bool" where
  "recv_fits (Received xs) = (xs \<noteq> [] \<and> length xs \<le> BUFFER_SIZE)"
| "recv_fits r = True"

fun received :: "recv_result list \<Rightarrow> bytes" where
  "received [] = []"
| "received (Received xs # rs) = xs @ received rs"
| "received (r # rs) = received rs"

lemma received_append [simp]: "received (rs @ qs) = received rs @ received qs"
  by (induction rs rule: received.induct) simp_all

section \<open>Buffers in use\<close>

text \<open>Appending what was received, and taking a step back over what was not sent.\<close>

lemma ba_put_eq: "ba_put E xs b = ba_writeData E (Some xs) (length xs) b"
  by (simp add: ba_put_def)

lemma put_open:
  assumes "ba_open b" and "ba_put E xs b = Inr b'"
  shows "ba_open b'" and "ba_unread b' = ba_unread b @ xs" and "ba_readPos b' = ba_readPos b"
    and "contents b' = contents b @ xs"
  using ba_writeData_ok [of b E xs "length xs" b'] assms
  by (auto simp: ba_open_def ba_put_def ba_unread_append)

text \<open>A transfer that reads n bytes and then steps back over those that were not sent.\<close>

lemma unsent_back:
  assumes "ba_inv b" and "ba_writePos b < 2 ^ 63" and "n \<le> readAvailable b" and "k \<le> n" and "n < 2 ^ 31"
  defines "b1 \<equiv> b\<lparr>ba_readPos := ba_readPos b + n\<rparr>"
  shows "(if k < n then seek (int k - int n) b1 else b1) = b\<lparr>ba_readPos := ba_readPos b + k\<rparr>"
proof (cases "k < n")
  case True
  note a = advance_read [OF assms(1,3)]
  have "ba_readPos b + n \<le> ba_writePos b" using assms(1,3) by (auto simp: readAvailable_eq ba_inv_def)
  then have w: "ba_readPos b + k < size_mod" "ba_readPos b + n < size_mod" "ba_readPos b + k \<le> ba_writePos b"
    using assms(2) True by (simp_all add: size_mod_def)
  have "sz_sub (ba_readPos b + n) (n - k) = ba_readPos b + n - (n - k)"
    using w assms(4) by (intro sz_sub_exact) auto
  moreover have "nat (int n - int k) = n - k" by simp
  ultimately show ?thesis
    using True w assms(4) by (simp add: seek_def b1_def set_readPosition_def)
next
  case False
  with assms(4) show ?thesis by (simp add: b1_def)
qed

text \<open>A buffer for the witnesses.\<close>

definition tiny_buffer :: byte_array where
  "tiny_buffer = \<lparr>isAttached = False, ba_readOnly = False, ba_data = [1, 2, 3, 0], ba_readPos = 0,
                  ba_writePos = 3, ba_capacity = 4\<rparr>"

lemma tiny_buffer_open: "ba_open tiny_buffer" "ba_inv tiny_buffer" "ba_unread tiny_buffer = [1, 2, 3]"
  by (simp_all add: tiny_buffer_def ba_open_def ba_inv_def readOnly_def size_mod_def ba_unread_def contents_def)

end
