(* ===== verification/Client_Socket.thy ===== *)
theory Client_Socket
  imports Socket_Io
begin

text \<open>
  Model of \<^verbatim>\<open>ws::network::ClientSocket\<close> (include/ws/network/ClientSocket.h,
  wsNetwork/src/ClientSocket.cpp): the two transfer loops of the worker thread, its status
  machine, and \<^verbatim>\<open>connect\<close>, \<^verbatim>\<open>update\<close>, \<^verbatim>\<open>close\<close> and \<^verbatim>\<open>send\<close>
  of the main thread.

  The results of the operating system are arguments: what \<^verbatim>\<open>recv\<close> and \<^verbatim>\<open>send\<close>
  return, whether \<^verbatim>\<open>connect\<close> succeeds, the descriptor that \<^verbatim>\<open>socket\<close> gives. A turn
  of the worker and a call of the main thread are atomic steps, which may come in any order.
  Of Windows, Linux and macOS only the name of the closing function differs.
\<close>

section \<open>State\<close>

datatype socket_status = DISCONNECTED | CONNECTING | CONNECTED

record client_socket =
  remoteIP :: string
  remotePort :: u16
  readerBuffer :: byte_array
  writerBuffer :: byte_array
  lastStatus :: socket_status
  status :: socket_status
  sockfd :: int
  workerThread :: bool
  isExit :: bool
  lastConnectTime :: u64

definition CONNECT_CD :: u64 where
  "CONNECT_CD = 3000"

definition client_new :: "byte_array \<Rightarrow> byte_array \<Rightarrow> client_socket" where
  "client_new rb wb = \<lparr>remoteIP = [], remotePort = 0, readerBuffer = rb, writerBuffer = wb,
     lastStatus = DISCONNECTED, status = DISCONNECTED, sockfd = 0, workerThread = False,
     isExit = False, lastConnectTime = 0\<rparr>"

section \<open>The worker thread\<close>

text \<open>
  \<^verbatim>\<open>tryToRecv\<close>: the end of the list is a \<^verbatim>\<open>select\<close> that finds nothing to read.
\<close>

fun tryToRecv :: "env \<Rightarrow> recv_result list \<Rightarrow> byte_array \<Rightarrow> error + bool \<times> byte_array" where
  "tryToRecv E [] rb = Inr (True, rb)"
| "tryToRecv E (Received xs # rs) rb =
     bindE (ba_writeData E (Some xs) (length xs) rb) (\<lambda>rb1.
       if length xs < BUFFER_SIZE then Inr (True, rb1) else tryToRecv E rs rb1)"
| "tryToRecv E (r # rs) rb = Inr (False, rb)"

text \<open>
  The loop of \<^verbatim>\<open>tryToSend\<close>, with what it has sent so far; it is still running when the
  list of results is at its end.
\<close>

fun send_loop ::
    "send_result list \<Rightarrow> nat \<Rightarrow> byte_array \<Rightarrow> bytes \<Rightarrow> error + bool \<times> byte_array \<times> bytes" where
  "send_loop rs 0 wb sent = Inr (True, wb, sent)"
| "send_loop [] (Suc remain) wb sent = Inl Diverges"
| "send_loop (Sent k # rs) (Suc remain) wb sent =
     bindE (ba_readData True BUFFER_SIZE wb) (\<lambda>(xs, wb1).
       let sentLength = min k (length xs) in
       send_loop rs (sz_sub (Suc remain) sentLength)
         (if sentLength < length xs then seek (int sentLength - int (length xs)) wb1 else wb1)
         (sent @ take sentLength xs))"
| "send_loop (r # rs) (Suc remain) wb sent =
     bindE (ba_readData True BUFFER_SIZE wb) (\<lambda>(xs, wb1). Inr (False, wb1, sent))"

definition tryToSend ::
    "env \<Rightarrow> send_result list \<Rightarrow> byte_array \<Rightarrow> error + bool \<times> byte_array \<times> bytes" where
  "tryToSend E rs wb =
     bindE (send_loop rs (ba_writePos wb) wb []) (\<lambda>(ok, wb1, sent).
       if ok then bindE (ba_truncate E 0 wb1) (\<lambda>wb2. Inr (True, wb2, sent))
       else Inr (False, wb1, sent))"

text \<open>One turn of \<^verbatim>\<open>workerProc\<close>, and the bytes that it sends.\<close>

definition worker_turn ::
    "env \<Rightarrow> u64 \<Rightarrow> bool \<Rightarrow> recv_result list \<Rightarrow> send_result list \<Rightarrow> client_socket
      \<Rightarrow> error + client_socket \<times> bytes" where
  "worker_turn E now connects recvs sends st =
     (if isExit st then Inr (st, [])
      else case status st of
        CONNECTING \<Rightarrow>
          if now < lastConnectTime st + CONNECT_CD then Inr (st, [])
          else Inr (st\<lparr>lastConnectTime := now, status := (if connects then CONNECTED else DISCONNECTED)\<rparr>, [])
      | CONNECTED \<Rightarrow>
          bindE (tryToRecv E recvs (readerBuffer st)) (\<lambda>(ok, rb).
            if \<not> ok then Inr (st\<lparr>readerBuffer := rb, status := DISCONNECTED\<rparr>, [])
            else bindE (tryToSend E sends (writerBuffer st)) (\<lambda>(ok, wb, sent).
              Inr (st\<lparr>readerBuffer := rb, writerBuffer := wb,
                      status := (if ok then CONNECTED else DISCONNECTED)\<rparr>, sent)))
      | DISCONNECTED \<Rightarrow> Inr (st, []))"

section \<open>The main thread\<close>

text \<open>\<open>hasReceiver\<close>: whether \<^verbatim>\<open>onReceived\<close> is set; \<open>fd\<close>: what \<^verbatim>\<open>socket\<close> returns.\<close>

definition connect :: "bool \<Rightarrow> int \<Rightarrow> string \<Rightarrow> u16 \<Rightarrow> client_socket \<Rightarrow> client_socket" where
  "connect hasReceiver fd ip port st =
     (if \<not> hasReceiver then st
      else
        let st1 = (if sockfd st = 0 then st\<lparr>sockfd := fd\<rparr> else st);
            st2 = (if \<not> workerThread st1 then st1\<lparr>workerThread := True\<rparr> else st1)
        in case status st2 of
             DISCONNECTED \<Rightarrow> st2\<lparr>remoteIP := ip, remotePort := port, status := CONNECTING, lastStatus := CONNECTING\<rparr>
           | CONNECTING \<Rightarrow> st2
           | CONNECTED \<Rightarrow> st2)"

definition reset :: "env \<Rightarrow> int \<Rightarrow> client_socket \<Rightarrow> error + client_socket" where
  "reset E fd st =
     bindE (ba_truncate E 0 (readerBuffer st)) (\<lambda>rb.
     bindE (ba_truncate E 0 (writerBuffer st)) (\<lambda>wb.
     Inr (st\<lparr>sockfd := fd, readerBuffer := rb, writerBuffer := wb\<rparr>)))"

datatype callback = OnConnected | OnClosed | OnReceived bytes

text \<open>
  \<^verbatim>\<open>update\<close> and the callbacks it calls. \<open>consume\<close> is what \<^verbatim>\<open>onReceived\<close> does to the
  buffer it is handed.
\<close>

definition notify_status :: "env \<Rightarrow> int \<Rightarrow> client_socket \<Rightarrow> error + callback list \<times> client_socket" where
  "notify_status E fd st =
     (if lastStatus st \<noteq> status st then
        let st1 = st\<lparr>lastStatus := status st\<rparr> in
        case status st of
          DISCONNECTED \<Rightarrow> bindE (reset E fd st1) (\<lambda>st2. Inr ([OnClosed], st2))
        | CONNECTED \<Rightarrow> Inr ([OnConnected], st1)
        | CONNECTING \<Rightarrow> Inr ([], st1)
      else Inr ([], st))"

definition deliver ::
    "env \<Rightarrow> (byte_array \<Rightarrow> byte_array) \<Rightarrow> client_socket \<Rightarrow> error + callback list \<times> client_socket" where
  "deliver E consume st =
     (if status st = CONNECTED then
        let rb = readerBuffer st;
            rb1 = (if readAvailable rb \<noteq> 0 then consume rb else rb)
        in bindE (cutHead E (ba_readPos rb1) False rb1) (\<lambda>(_, rb2).
             Inr (if readAvailable rb \<noteq> 0 then [OnReceived (ba_unread rb)] else [],
                  st\<lparr>readerBuffer := rb2\<rparr>))
      else Inr ([], st))"

definition update ::
    "env \<Rightarrow> (byte_array \<Rightarrow> byte_array) \<Rightarrow> int \<Rightarrow> client_socket
      \<Rightarrow> error + callback list \<times> client_socket" where
  "update E consume fd st =
     bindE (notify_status E fd st) (\<lambda>(cs, st1).
     bindE (deliver E consume st1) (\<lambda>(ds, st2). Inr (cs @ ds, st2)))"

definition client_send :: "env \<Rightarrow> bytes \<Rightarrow> client_socket \<Rightarrow> error + client_socket" where
  "client_send E xs st =
     bindE (ba_writeData E (Some xs) (length xs) (writerBuffer st)) (\<lambda>wb. Inr (st\<lparr>writerBuffer := wb\<rparr>))"

definition client_send_packet :: "env \<Rightarrow> byte_array \<Rightarrow> client_socket \<Rightarrow> error + client_socket" where
  "client_send_packet E packet st =
     bindE (ba_shl_array E packet (writerBuffer st)) (\<lambda>wb. Inr (st\<lparr>writerBuffer := wb\<rparr>))"

lemma client_send_packet_eq:
  "ba_inv packet \<Longrightarrow> client_send_packet E packet st = client_send E (contents packet) st"
  using writeData_contents [of packet] by (simp add: client_send_packet_def client_send_def ba_shl_array_def)

text \<open>On Windows: the result of \<^verbatim>\<open>WSAStartup\<close> and the version it reports, low byte and high byte; the
  answer, and whether the library is given back.\<close>

definition client_initWinsock :: "int \<Rightarrow> nat \<times> nat \<Rightarrow> bool \<times> bool" where
  "client_initWinsock err version =
     (if err \<noteq> 0 then (False, False) else if version \<noteq> (2, 2) then (False, True) else (True, False))"

definition isConnected :: "client_socket \<Rightarrow> bool" where
  "isConnected st \<longleftrightarrow> status st = CONNECTED"

definition client_close :: "client_socket \<Rightarrow> client_socket" where
  "client_close st = (if isConnected st then st\<lparr>status := DISCONNECTED\<rparr> else st)"

text \<open>The destructor ends the worker.\<close>

definition client_destroy :: "client_socket \<Rightarrow> client_socket" where
  "client_destroy st = st\<lparr>isExit := True, workerThread := False\<rparr>"

section \<open>The transfer loops\<close>

lemma tryToRecv_ok:
  "ba_open rb \<Longrightarrow> tryToRecv E rs rb = Inr (ok, rb') \<Longrightarrow>
     ba_open rb' \<and> ba_readPos rb' = ba_readPos rb
     \<and> (\<exists>qs qs'. rs = qs @ qs' \<and> ba_unread rb' = ba_unread rb @ received qs
          \<and> (ok \<longleftrightarrow> (\<forall>r\<in>set qs. \<exists>xs. r = Received xs)))"
proof (induction E rs rb arbitrary: rb'
    rule: tryToRecv.induct [case_names Idle Bytes Stream_end Block Error])
  case (Idle E rb)
  then show ?case by auto
next
  case (Bytes E xs rs rb)
  from Bytes.prems(2) obtain rb1 where w: "ba_put E xs rb = Inr rb1"
    and r: "(if length xs < BUFFER_SIZE then Inr (True, rb1) else tryToRecv E rs rb1) = Inr (ok, rb')"
    by (auto simp: bindE_eq_Inr ba_put_def)
  note p = put_open [OF Bytes.prems(1) w]
  show ?case
  proof (cases "length xs < BUFFER_SIZE")
    case True
    with r p show ?thesis by (intro conjI exI [of _ "[Received xs]"] exI [of _ rs]) auto
  next
    case False
    with r have "tryToRecv E rs rb1 = Inr (ok, rb')" by simp
    with Bytes.IH [OF False p(1)] obtain qs qs' where q: "ba_open rb'"
      "ba_readPos rb' = ba_readPos rb1" "rs = qs @ qs'" "ba_unread rb' = ba_unread rb1 @ received qs"
      "ok \<longleftrightarrow> (\<forall>r\<in>set qs. \<exists>xs. r = Received xs)"
      by blast
    with p show ?thesis by (intro conjI exI [of _ "Received xs # qs"] exI [of _ qs']) auto
  qed
next
  case (Stream_end E rs rb)
  then show ?case by (intro conjI exI [of _ "[End_of_stream]"] exI [of _ rs]) auto
next
  case (Block E rs rb)
  then show ?case by (intro conjI exI [of _ "[Recv_would_block]"] exI [of _ rs]) auto
next
  case (Error E rs rb)
  then show ?case by (intro conjI exI [of _ "[Recv_error]"] exI [of _ rs]) auto
qed

text \<open>The bytes that the loop reads and puts back again.\<close>

lemma readData_chunk:
  assumes "ba_inv b"
  defines "n \<equiv> min BUFFER_SIZE (readAvailable b)"
  shows "ba_readData True BUFFER_SIZE b = Inr (take n (ba_unread b), b\<lparr>ba_readPos := ba_readPos b + n\<rparr>)"
proof -
  have "(if BUFFER_SIZE = 0 \<or> readAvailable b < BUFFER_SIZE then readAvailable b else BUFFER_SIZE) = n"
    by (auto simp: n_def BUFFER_SIZE_def)
  moreover have "n \<le> readAvailable b" by (simp add: n_def)
  ultimately show ?thesis
    using peek_unread [OF assms(1), of n] advance_read(1) [OF assms(1), of n]
    by (simp add: ba_readData_def Let_def)
qed

lemma send_step:
  assumes b: "ba_inv wb" "ba_writePos wb < 2 ^ 63"
    and m: "readAvailable wb \<le> m" "m < size_mod" "m \<noteq> 0"
  defines "n \<equiv> min BUFFER_SIZE (readAvailable wb)"
  shows "send_loop (Sent k # rs) m wb sent
      = send_loop rs (m - min k n) (wb\<lparr>ba_readPos := ba_readPos wb + min k n\<rparr>)
          (sent @ take (min k n) (ba_unread wb))"
    and "r \<in> {Send_would_block, Send_error} \<Longrightarrow>
      send_loop (r # rs) m wb sent = Inr (False, wb\<lparr>ba_readPos := ba_readPos wb + n\<rparr>, sent)"
    and "ba_inv (wb\<lparr>ba_readPos := ba_readPos wb + min k n\<rparr>)"
    and "readAvailable (wb\<lparr>ba_readPos := ba_readPos wb + min k n\<rparr>) = readAvailable wb - min k n"
    and "ba_unread (wb\<lparr>ba_readPos := ba_readPos wb + min k n\<rparr>) = drop (min k n) (ba_unread wb)"
    and "ba_inv (wb\<lparr>ba_readPos := ba_readPos wb + n\<rparr>)"
proof -
  let ?j = "min k n"
  obtain l where l: "m = Suc l" using m(3) by (cases m) auto
  have na: "n \<le> readAvailable wb" and n31: "n < 2 ^ 31" and ja: "?j \<le> readAvailable wb"
    by (simp_all add: n_def BUFFER_SIZE_def)
  have ln: "length (take n (ba_unread wb)) = n" using length_ba_unread [OF b(1)] na by simp
  have rd: "ba_readData True BUFFER_SIZE wb
      = Inr (take n (ba_unread wb), wb\<lparr>ba_readPos := ba_readPos wb + n\<rparr>)"
    unfolding n_def by (rule readData_chunk [OF b(1)])
  have stepped: "(if ?j < n then seek (int ?j - int n) (wb\<lparr>ba_readPos := ba_readPos wb + n\<rparr>)
      else wb\<lparr>ba_readPos := ba_readPos wb + n\<rparr>) = wb\<lparr>ba_readPos := ba_readPos wb + ?j\<rparr>"
    by (rule unsent_back [OF b na _ n31]) simp
  have "?j \<le> m" using ja m(1) by linarith
  then have sz: "sz_sub m ?j = m - ?j" using m(2) by simp
  show "send_loop (Sent k # rs) m wb sent
      = send_loop rs (m - ?j) (wb\<lparr>ba_readPos := ba_readPos wb + ?j\<rparr>) (sent @ take ?j (ba_unread wb))"
    unfolding l send_loop.simps rd bindE_Inr prod.case Let_def ln stepped sz [unfolded l]
    by (simp add: min.assoc)
  show "r \<in> {Send_would_block, Send_error} \<Longrightarrow>
      send_loop (r # rs) m wb sent = Inr (False, wb\<lparr>ba_readPos := ba_readPos wb + n\<rparr>, sent)"
    using rd unfolding l by auto
  note j = advance_read [OF b(1) ja]
  show i: "ba_inv (wb\<lparr>ba_readPos := ba_readPos wb + ?j\<rparr>)" by (rule j(2))
  show "readAvailable (wb\<lparr>ba_readPos := ba_readPos wb + ?j\<rparr>) = readAvailable wb - ?j"
    using readAvailable_eq [OF i] readAvailable_eq [OF b(1)] by simp
  show "ba_unread (wb\<lparr>ba_readPos := ba_readPos wb + ?j\<rparr>) = drop ?j (ba_unread wb)" by (rule j(3))
  show "ba_inv (wb\<lparr>ba_readPos := ba_readPos wb + n\<rparr>)" by (rule advance_read(2) [OF b(1) na])
qed

lemma readAvailable_less: "ba_inv b \<Longrightarrow> readAvailable b < size_mod"
  using readAvailable_eq [of b] unfolding ba_inv_def by linarith

definition gave_up :: "send_result list \<Rightarrow> bool" where
  "gave_up rs \<longleftrightarrow> Send_would_block \<in> set rs \<or> Send_error \<in> set rs"

lemma send_loop_ok:
  "ba_inv wb \<Longrightarrow> ba_writePos wb < 2 ^ 63 \<Longrightarrow>
   send_loop rs (readAvailable wb) wb sent = Inr (ok, wb', sent') \<Longrightarrow>
     ba_inv wb' \<and> (\<exists>xs ys. ba_unread wb = xs @ ys \<and> sent' = sent @ xs \<and> (ok \<longleftrightarrow> ys = []) \<and> (\<not> ok \<longrightarrow> gave_up rs))"
proof (induction rs arbitrary: wb sent)
  case Nil
  then have "readAvailable wb = 0" by (cases "readAvailable wb") simp_all
  with Nil length_ba_unread [of wb] show ?case by auto
next
  case (Cons r rs)
  show ?case
  proof (cases "readAvailable wb = 0")
    case True
    with Cons.prems length_ba_unread [of wb] show ?thesis by auto
  next
    case False
    note st = send_step [OF Cons.prems(1,2) le_refl readAvailable_less [OF Cons.prems(1)] False]
    have ne: "ba_unread wb \<noteq> []" using False length_ba_unread [OF Cons.prems(1)] by auto
    show ?thesis
    proof (cases "\<exists>k. r = Sent k")
      case True
      then obtain k where k: "r = Sent k" by blast
      let ?j = "min k (min BUFFER_SIZE (readAvailable wb))"
      let ?wb = "wb\<lparr>ba_readPos := ba_readPos wb + ?j\<rparr>"
      have "send_loop rs (readAvailable ?wb) ?wb (sent @ take ?j (ba_unread wb)) = Inr (ok, wb', sent')"
        using Cons.prems(3) unfolding k st(1) st(4) .
      from Cons.IH [OF st(3) _ this] Cons.prems(2) obtain xs ys where "ba_inv wb'"
        "drop ?j (ba_unread wb) = xs @ ys" "sent' = (sent @ take ?j (ba_unread wb)) @ xs" "ok \<longleftrightarrow> ys = []"
        "\<not> ok \<longrightarrow> gave_up rs"
        unfolding st(5) by auto
      moreover from this(2) have "ba_unread wb = (take ?j (ba_unread wb) @ xs) @ ys"
        by (metis append.assoc append_take_drop_id)
      ultimately show ?thesis
        unfolding gave_up_def by (metis append.assoc list.set_intros(2))
    next
      case False
      then have r: "r \<in> {Send_would_block, Send_error}" by (cases r) auto
      with Cons.prems(3) st(2) have "ok = False" "sent' = sent" "ba_inv wb'" using st(6) by auto
      with ne r show ?thesis
        by (intro conjI exI [of _ "[]"] exI [of _ "ba_unread wb"]) (auto simp: gave_up_def)
    qed
  qed
qed

lemma send_loop_total:
  "ba_inv wb \<Longrightarrow> ba_writePos wb < 2 ^ 63 \<Longrightarrow> readAvailable wb \<le> length rs \<Longrightarrow>
   \<forall>k. Sent k \<in> set rs \<longrightarrow> 0 < k \<Longrightarrow>
   \<exists>ok wb' sent'. send_loop rs (readAvailable wb) wb sent = Inr (ok, wb', sent')"
proof (induction rs arbitrary: wb sent)
  case Nil
  then have "send_loop [] (readAvailable wb) wb sent = Inr (True, wb, sent)" by simp
  then show ?case by blast
next
  case (Cons r rs)
  show ?case
  proof (cases "readAvailable wb = 0")
    case True
    then have "send_loop (r # rs) (readAvailable wb) wb sent = Inr (True, wb, sent)" by simp
    then show ?thesis by blast
  next
    case False
    note st = send_step [OF Cons.prems(1,2) le_refl readAvailable_less [OF Cons.prems(1)] False]
    show ?thesis
    proof (cases "\<exists>k. r = Sent k")
      case True
      then obtain k where k: "r = Sent k" by blast
      let ?j = "min k (min BUFFER_SIZE (readAvailable wb))"
      have "0 < k" using Cons.prems(4) k by simp
      then have "0 < ?j" using False by (simp add: BUFFER_SIZE_def)
      then have "readAvailable wb - ?j \<le> length rs" using Cons.prems(3) False by auto
      with Cons.IH [OF st(3), of k] Cons.prems(2,4) show ?thesis
        unfolding k st(1) st(4) by simp
    next
      case f: False
      then have "r \<in> {Send_would_block, Send_error}" by (cases r) auto
      with st(2) show ?thesis by blast
    qed
  qed
qed

text \<open>When more is to be sent than there is to read, the loop does not end.\<close>

lemma send_loop_stuck:
  "ba_inv wb \<Longrightarrow> ba_writePos wb < 2 ^ 63 \<Longrightarrow> readAvailable wb < m \<Longrightarrow> m < size_mod \<Longrightarrow>
   \<forall>r\<in>set rs. \<exists>k. r = Sent k \<Longrightarrow> send_loop rs m wb sent = Inl Diverges"
proof (induction rs arbitrary: wb m sent)
  case Nil
  then show ?case by (cases m) simp_all
next
  case (Cons r rs)
  from Cons.prems(5) obtain k where k: "r = Sent k" by auto
  have m: "readAvailable wb \<le> m" "m \<noteq> 0" using Cons.prems(3) by linarith+
  note st = send_step [OF Cons.prems(1,2) m(1) Cons.prems(4) m(2)]
  let ?j = "min k (min BUFFER_SIZE (readAvailable wb))"
  have "readAvailable wb - ?j < m - ?j" "m - ?j < size_mod" using Cons.prems(3,4) by linarith+
  with Cons.IH [OF st(3), of k "m - ?j"] Cons.prems(2,5) show ?case
    unfolding k st(1) st(4) by simp
qed

section \<open>Runs of a client\<close>

text \<open>A lost connection that \<^verbatim>\<open>update\<close> has not reported yet.\<close>

definition unreported :: "client_socket \<Rightarrow> bool" where
  "unreported st \<longleftrightarrow> lastStatus st = CONNECTED \<and> status st = DISCONNECTED"

inductive client_step :: "env \<Rightarrow> client_socket \<times> callback list \<Rightarrow> client_socket \<times> callback list \<Rightarrow> bool"
  for E where
  Work: "worker_turn E now connects recvs sends st = Inr (st', sent) \<Longrightarrow>
      client_step E (st, log) (st', log)"
| Update: "update E consume fd st = Inr (cs, st') \<Longrightarrow> client_step E (st, log) (st', log @ cs)"
| Connect: "\<not> unreported st \<Longrightarrow> client_step E (st, log) (connect r fd ip port st, log)"
| Send: "client_send E xs st = Inr st' \<Longrightarrow> client_step E (st, log) (st', log)"
| Close: "client_step E (st, log) (client_close st, log)"
| Destroy: "client_step E (st, log) (client_destroy st, log)"

inductive_cases client_stepE [consumes 1, case_names Work Update Connect Send Close Destroy]:
  "client_step E (st, log) (st', log')"

text \<open>\<open>up\<close>: the last status that was reported is a connection.\<close>

fun well_paired :: "bool \<Rightarrow> callback list \<Rightarrow> bool" where
  "well_paired up [] = True"
| "well_paired up (OnConnected # cs) = (\<not> up \<and> well_paired True cs)"
| "well_paired up (OnClosed # cs) = well_paired False cs"
| "well_paired up (OnReceived xs # cs) = (up \<and> well_paired up cs)"

fun up_after :: "bool \<Rightarrow> callback list \<Rightarrow> bool" where
  "up_after up [] = up"
| "up_after up (OnConnected # cs) = up_after True cs"
| "up_after up (OnClosed # cs) = up_after False cs"
| "up_after up (OnReceived xs # cs) = up_after up cs"

lemma well_paired_append: "well_paired up (cs @ ds) \<longleftrightarrow> well_paired up cs \<and> well_paired (up_after up cs) ds"
  by (induction up cs rule: well_paired.induct) auto

lemma up_after_append: "up_after up (cs @ ds) = up_after (up_after up cs) ds"
  by (induction up cs rule: well_paired.induct) auto

definition log_inv :: "client_socket \<times> callback list \<Rightarrow> bool" where
  "log_inv s \<longleftrightarrow> (case s of (st, log) \<Rightarrow> well_paired False log
     \<and> (up_after False log \<longleftrightarrow> lastStatus st = CONNECTED)
     \<and> (status st = CONNECTING \<longrightarrow> lastStatus st = CONNECTING))"

lemma notify_status_log:
  assumes "status st = CONNECTING \<longrightarrow> lastStatus st = CONNECTING" and "notify_status E fd st = Inr (cs, st')"
  shows "well_paired (lastStatus st = CONNECTED) cs \<and> status st' = status st \<and> lastStatus st' = status st
    \<and> (up_after (lastStatus st = CONNECTED) cs \<longleftrightarrow> lastStatus st' = CONNECTED)"
  using assms
  by (cases "status st"; cases "lastStatus st")
    (auto simp: notify_status_def reset_def bindE_eq_Inr Let_def split: if_splits)

lemma deliver_log:
  assumes "deliver E consume st = Inr (ds, st')"
  shows "status st' = status st \<and> lastStatus st' = lastStatus st
    \<and> well_paired (status st = CONNECTED) ds \<and> up_after up ds = up"
  using assms by (auto simp: deliver_def bindE_eq_Inr Let_def split: if_splits)

lemma worker_turn_status:
  assumes "worker_turn E now c rs ss st = Inr (st', sent)"
  shows "lastStatus st' = lastStatus st \<and> (status st' = CONNECTING \<longrightarrow> status st = CONNECTING)"
  using assms
  by (auto simp: worker_turn_def bindE_eq_Inr split: if_splits socket_status.splits)

lemma client_step_log: "client_step E s s' \<Longrightarrow> log_inv s \<Longrightarrow> log_inv s'"
proof (induction rule: client_step.induct)
  case (Work now connects recvs sends st st' sent log)
  with worker_turn_status [OF Work(1)] show ?case by (auto simp: log_inv_def)
next
  case (Update consume fd st cs st' log)
  then obtain ds st1 es where n: "notify_status E fd st = Inr (ds, st1)"
    and d: "deliver E consume st1 = Inr (es, st')" and cs: "cs = ds @ es"
    by (auto simp: update_def bindE_eq_Inr)
  have i: "well_paired False log" "up_after False log \<longleftrightarrow> lastStatus st = CONNECTED"
    "status st = CONNECTING \<longrightarrow> lastStatus st = CONNECTING" using Update(2) by (auto simp: log_inv_def)
  from notify_status_log [OF i(3) n] deliver_log [OF d] i show ?case
    by (auto simp: log_inv_def cs well_paired_append up_after_append)
next
  case (Connect st log r fd ip port)
  then show ?case
    by (auto simp: log_inv_def connect_def unreported_def Let_def split: socket_status.splits)
qed (auto simp: log_inv_def client_send_def client_close_def client_destroy_def bindE_eq_Inr)

section \<open>Properties\<close>



text \<open>\<^verbatim>\<open>tryToRecv\<close> appends to the reader's buffer exactly the bytes of the calls
  that it made, in order, and fails exactly when one of them met the end of the stream or an error;
  what was received before is kept in that case too.\<close>

theorem client_receives_all:
  assumes "ba_open rb" and "tryToRecv E rs rb = Inr (ok, rb')"
  shows "\<exists>qs qs'. rs = qs @ qs' \<and> ba_unread rb' = ba_unread rb @ received qs
    \<and> (ok \<longleftrightarrow> (\<forall>r\<in>set qs. \<exists>xs. r = Received xs)) \<and> ba_open rb'"
  using tryToRecv_ok [OF assms] by blast

theorem client_receives_all_witness:
  "\<exists>rb' qs qs'. tryToRecv small_env [Received [5, 6], Recv_error] tiny_buffer = Inr (True, rb')
     \<and> [Received [5, 6], Recv_error] = qs @ qs' \<and> ba_unread rb' = [1, 2, 3] @ received qs"
proof -
  have "map_sum id fst (tryToRecv small_env [Received [5, 6], Recv_error] tiny_buffer) = Inr True"
    by code_simp
  then obtain rb' where r: "tryToRecv small_env [Received [5, 6], Recv_error] tiny_buffer = Inr (True, rb')"
    by (cases "tryToRecv small_env [Received [5, 6], Recv_error] tiny_buffer") auto
  from client_receives_all [OF tiny_buffer_open(1) r] r tiny_buffer_open(3) show ?thesis by auto
qed



section \<open>Corner cases\<close>

text \<open>
  With the proviso dropped, \<^verbatim>\<open>connect\<close> after a lost connection hides it: the descriptor and
  the buffers of the old connection stay in use and nothing is reported.
\<close>

lemma reconnect_hides_loss:
  assumes "unreported st" and "sockfd st \<noteq> 0" and "st1 = connect True fd ip port st"
  shows "sockfd st1 = sockfd st \<and> readerBuffer st1 = readerBuffer st \<and> writerBuffer st1 = writerBuffer st
    \<and> lastStatus st1 = status st1 \<and> (\<exists>st2. update E consume fd st1 = Inr ([], st2))"
  using assms by (simp add: connect_def unreported_def update_def notify_status_def deliver_def Let_def)

text \<open>
  A failed \<^verbatim>\<open>send\<close> leaves the read position behind the bytes it did not send. If the buffer
  is used again, \<^verbatim>\<open>tryToSend\<close> counts from its start and never returns, as long as the socket
  takes what it is given.
\<close>

lemma tryToSend_stuck:
  assumes "ba_inv wb" and "ba_writePos wb < 2 ^ 63" and "0 < ba_readPos wb"
    and "\<forall>r\<in>set rs. \<exists>k. r = Sent k"
  shows "tryToSend E rs wb = Inl Diverges"
proof -
  have "readAvailable wb < ba_writePos wb" using assms(1,3) by (auto simp: readAvailable_eq ba_inv_def)
  moreover have "ba_writePos wb < size_mod" using assms(2) by (simp add: size_mod_def)
  ultimately show ?thesis
    using send_loop_stuck [OF assms(1,2) _ _ assms(4)] by (simp add: tryToSend_def)
qed

end
