(* ===== verification/Server_Socket.thy ===== *)
theory Server_Socket
  imports Socket_Io
begin

text \<open>
  Model of \<^verbatim>\<open>ws::network::ServerSocket\<close> (include/ws/network/ServerSocket.h,
  wsNetwork/src/ServerSocket.cpp), in its Linux version, with the parts that all platforms share.

  A \<^verbatim>\<open>Client*\<close> is an address in a heap of clients. The shared pointers of
  \<^verbatim>\<open>addingClients\<close> and \<^verbatim>\<open>allClients\<close> keep a client alive; an event for a client that
  neither of them holds any more is a use after free. \<^verbatim>\<open>allClients\<close> is the list of its
  entries; the order in which the hash map is walked is a parameter. What the operating
  system does is given with the events: the sockets that \<^verbatim>\<open>accept4\<close> returns, the results
  of \<^verbatim>\<open>recv\<close> and \<^verbatim>\<open>send\<close>, which would block when their list is at its end. The
  log records the callbacks and the closing of descriptors.

  An event of the event thread and a call of the main thread are atomic steps, as their
  mutexes make the accesses to a buffer and to \<^verbatim>\<open>addingClients\<close>.
\<close>

section \<open>State\<close>

record net_client =
  c_id :: u16
  lastActiveTime :: u64
  c_socket :: int
  c_server :: bool
  c_reader :: byte_array
  c_writer :: byte_array
  isClosing :: bool
  hasNewData :: bool

datatype srv_event =
  Client_connected nat | Client_received nat | Client_destroyed nat | Client_disconnected nat
| Closed_fd int

record server =
  srv_heap :: "nat \<Rightarrow> net_client"
  next_ptr :: nat
  allClients :: "(u16 \<times> nat) list"
  addingClients :: "nat list"
  numClients :: u16
  nextID :: u16
  maxConnection :: u16
  kickTime :: u64
  listenSocket :: int
  pipe_fd :: "int \<times> int"
  epfd :: int
  isRunning :: bool
  srv_log :: "srv_event list"

definition client_init :: "byte_array \<Rightarrow> byte_array \<Rightarrow> net_client" where
  "client_init rb wb = \<lparr>c_id = 0, lastActiveTime = 0, c_socket = 0, c_server = False,
     c_reader = rb, c_writer = wb, isClosing = False, hasNewData = False\<rparr>"

definition server_new :: "(nat \<Rightarrow> net_client) \<Rightarrow> server" where
  "server_new h = \<lparr>srv_heap = h, next_ptr = 0, allClients = [], addingClients = [], numClients = 0,
     nextID = 0, maxConnection = 0, kickTime = 0, listenSocket = 0, pipe_fd = (0, 0), epfd = 0,
     isRunning = False, srv_log = []\<rparr>"

definition log :: "srv_event list \<Rightarrow> server \<Rightarrow> server" where
  "log es s = s\<lparr>srv_log := srv_log s @ es\<rparr>"

definition set_client :: "nat \<Rightarrow> net_client \<Rightarrow> server \<Rightarrow> server" where
  "set_client p c s = s\<lparr>srv_heap := (srv_heap s)(p := c)\<rparr>"

definition alive :: "server \<Rightarrow> nat \<Rightarrow> bool" where
  "alive s p \<longleftrightarrow> p \<in> set (addingClients s) \<or> p \<in> snd ` set (allClients s)"

section \<open>Set-up\<close>

definition srv_init :: "bool \<Rightarrow> u16 \<Rightarrow> u64 \<Rightarrow> server \<Rightarrow> bool \<times> server" where
  "srv_init hasCreate mx kick s =
     (if \<not> hasCreate then (False, s)
      else (True, s\<lparr>maxConnection := (if mx = 0 then 5000 else mx), kickTime := kick\<rparr>))"

text \<open>The results of the calls that \<^verbatim>\<open>startListen\<close> makes.\<close>

record listen_results =
  r_socket :: int
  r_setsockopt :: int
  r_bind :: int
  r_listen :: int
  r_epoll :: int
  r_pipe :: "(int \<times> int) option"

definition startListen :: "listen_results \<Rightarrow> server \<Rightarrow> bool \<times> server" where
  "startListen r s =
     (let s1 = s\<lparr>listenSocket := r_socket r\<rparr>; s2 = s1\<lparr>epfd := r_epoll r\<rparr> in
      if r_socket r < 0 then (False, s1)
      else if r_setsockopt r \<noteq> 0 then (False, s1)
      else if r_bind r < 0 then (False, s1)
      else if r_listen r < 0 then (False, s1)
      else if r_epoll r < 0 then (False, s2)
      else case r_pipe r of
             None \<Rightarrow> (False, s2)
           | Some fds \<Rightarrow> (True, s2\<lparr>pipe_fd := fds, isRunning := True\<rparr>))"

section \<open>The event thread\<close>

definition addClient :: "net_client \<Rightarrow> u64 \<Rightarrow> int \<Rightarrow> server \<Rightarrow> server" where
  "addClient c0 now sock s =
     (let p = next_ptr s in
      (set_client p (c0\<lparr>c_server := True, lastActiveTime := now, c_socket := sock\<rparr>) s)
        \<lparr>next_ptr := Suc p, addingClients := addingClients s @ [p]\<rparr>)"

definition accept_one :: "net_client \<Rightarrow> u64 \<Rightarrow> int \<Rightarrow> server \<Rightarrow> server" where
  "accept_one c0 now sock s =
     (if numClients s < maxConnection s then addClient c0 now sock s else log [Closed_fd sock] s)"

definition writeClientBuffer :: "env \<Rightarrow> bytes \<Rightarrow> net_client \<Rightarrow> error + net_client" where
  "writeClientBuffer E xs c =
     bindE (ba_writeData E (Some xs) (length xs) (c_reader c)) (\<lambda>rb. Inr (c\<lparr>c_reader := rb\<rparr>))"

fun read_loop :: "env \<Rightarrow> recv_result list \<Rightarrow> net_client \<Rightarrow> error + net_client" where
  "read_loop E [] c = Inr c"
| "read_loop E (Recv_would_block # rs) c = Inr c"
| "read_loop E (Received xs # rs) c =
     bindE (writeClientBuffer E xs c) (\<lambda>c1.
       if length xs < BUFFER_SIZE then Inr c1 else read_loop E rs c1)"
| "read_loop E (r # rs) c = Inr (c\<lparr>isClosing := True\<rparr>)"

definition readIntoBuffer :: "env \<Rightarrow> recv_result list \<Rightarrow> net_client \<Rightarrow> error + net_client" where
  "readIntoBuffer E rs c =
     (if isClosing c then Inr c
      else if rs \<noteq> [] \<and> hd rs \<in> {End_of_stream, Recv_error} then Inr (c\<lparr>isClosing := True\<rparr>)
      else bindE (read_loop E rs c) (\<lambda>c1. Inr (c1\<lparr>hasNewData := True\<rparr>)))"

text \<open>The loop of \<^verbatim>\<open>writeFromBuffer\<close>, with what it has sent so far.\<close>

fun flush_loop :: "send_result list \<Rightarrow> bytes \<Rightarrow> net_client \<Rightarrow> error + bytes \<times> net_client" where
  "flush_loop [] sent c = Inr (sent, c)"
| "flush_loop (r # rs) sent c =
     (let b = c_writer c; available = readAvailable b mod 2 ^ 32 in
      if available = 0 then Inr (sent, c)
      else let len = (if BUFFER_SIZE < available then BUFFER_SIZE else available) in
           bindE (peek (ba_data b) (ba_readPos b) len) (\<lambda>xs.
             case r of
               Sent k \<Rightarrow>
                 let sentLength = min k len; c1 = c\<lparr>c_writer := seek (int sentLength) b\<rparr> in
                 if sentLength < len then Inr (sent @ take sentLength xs, c1)
                 else flush_loop rs (sent @ take sentLength xs) c1
             | Send_would_block \<Rightarrow> Inr (sent, c)
             | Send_error \<Rightarrow> Inr (sent, c\<lparr>isClosing := True\<rparr>)))"

definition writeFromBuffer :: "env \<Rightarrow> send_result list \<Rightarrow> net_client \<Rightarrow> error + bytes \<times> net_client" where
  "writeFromBuffer E rs c =
     (if readAvailable (c_writer c) mod 2 ^ 32 = 0 then Inr ([], c)
      else bindE (flush_loop rs [] c) (\<lambda>(sent, c1).
             bindE (cutHead E (ba_readPos (c_writer c1)) False (c_writer c1)) (\<lambda>(_, b).
               Inr (sent, c1\<lparr>c_writer := b\<rparr>))))"

datatype ep_source = Listen_socket | Pipe_end | Client_ptr nat

record ep_event =
  e_source :: ep_source
  EPOLLIN :: bool
  EPOLLOUT :: bool
  EPOLLRDHUP :: bool
  e_accepted :: "int list"
  e_recvs :: "recv_result list"
  e_sends :: "send_result list"

text \<open>\<open>f\<close> on the client an event points to.\<close>

definition on_client ::
    "(net_client \<Rightarrow> error + net_client) \<Rightarrow> ep_source \<Rightarrow> server \<Rightarrow> error + server" where
  "on_client f src s =
     (case src of
        Client_ptr p \<Rightarrow>
          if alive s p then bindE (f (srv_heap s p)) (\<lambda>c. Inr (set_client p c s))
          else Inl Undefined_behaviour
      | _ \<Rightarrow> Inl Undefined_behaviour)"

definition process_event ::
    "env \<Rightarrow> net_client \<Rightarrow> u64 \<Rightarrow> ep_event \<Rightarrow> server \<Rightarrow> error + server" where
  "process_event E c0 now evt s =
     bindE (if EPOLLIN evt then
              case e_source evt of
                Listen_socket \<Rightarrow> Inr (fold (accept_one c0 now) (e_accepted evt) s)
              | Pipe_end \<Rightarrow> Inr s
              | Client_ptr p \<Rightarrow> on_client (readIntoBuffer E (e_recvs evt)) (e_source evt) s
            else Inr s) (\<lambda>s1.
     bindE (if EPOLLOUT evt
            then on_client (\<lambda>c. bindE (writeFromBuffer E (e_sends evt) c) (\<lambda>(_, c1). Inr c1)) (e_source evt) s1
            else Inr s1) (\<lambda>s2.
     if EPOLLRDHUP evt then on_client (\<lambda>c. Inr (c\<lparr>isClosing := True\<rparr>)) (e_source evt) s2
     else Inr s2))"

text \<open>What \<^verbatim>\<open>epoll_wait\<close> returns, call after call; the thread waits at the end of the list.\<close>

datatype wait_result = Events "ep_event list" | Interrupted | Wait_failed

fun processEventThread ::
    "env \<Rightarrow> net_client \<Rightarrow> u64 \<Rightarrow> wait_result list \<Rightarrow> server \<Rightarrow> error + int option \<times> server" where
  "processEventThread E c0 now [] s = Inr (if isRunning s then None else Some 0, s)"
| "processEventThread E c0 now (r # rs) s =
     (if \<not> isRunning s then Inr (Some 0, s)
      else case r of
             Interrupted \<Rightarrow> processEventThread E c0 now rs s
           | Wait_failed \<Rightarrow> Inr (Some (- 1), s)
           | Events evts \<Rightarrow>
               bindE (runE (process_event E c0 now) evts s) (processEventThread E c0 now rs))"

section \<open>The main thread\<close>

definition getClient :: "u16 \<Rightarrow> server \<Rightarrow> nat option" where
  "getClient i s = map_of (allClients s) i"

definition kickClient :: "u16 \<Rightarrow> server \<Rightarrow> bool \<times> server" where
  "kickClient i s =
     (case getClient i s of
        None \<Rightarrow> (False, s)
      | Some p \<Rightarrow> (True, set_client p ((srv_heap s p)\<lparr>isClosing := True\<rparr>) s))"

definition srv_send :: "env \<Rightarrow> nat \<Rightarrow> bytes \<Rightarrow> server \<Rightarrow> error + server" where
  "srv_send E p xs s =
     bindE (ba_writeData E (Some xs) (length xs) (c_writer (srv_heap s p))) (\<lambda>b.
       Inr (set_client p ((srv_heap s p)\<lparr>c_writer := b\<rparr>) s))"

definition srv_send_packet :: "env \<Rightarrow> nat \<Rightarrow> byte_array \<Rightarrow> server \<Rightarrow> error + server" where
  "srv_send_packet E p packet s =
     bindE (ba_shl_array E packet (c_writer (srv_heap s p))) (\<lambda>b.
       Inr (set_client p ((srv_heap s p)\<lparr>c_writer := b\<rparr>) s))"

partial_function (option) next_id :: "(u16 \<times> nat) list \<Rightarrow> u16 \<Rightarrow> u16 option" where
  "next_id cs i = (let i1 = i + 1 in if map_of cs i1 \<noteq> None then next_id cs i1 else Some i1)"

declare next_id.simps [code]

definition getNextClientID :: "server \<Rightarrow> error + u16 \<times> server" where
  "getNextClientID s =
     (case next_id (allClients s) (nextID s) of
        None \<Rightarrow> Inl Diverges | Some i \<Rightarrow> Inr (i, s\<lparr>nextID := i\<rparr>))"

text \<open>The callbacks of the user, on the address of the client.\<close>

record callbacks =
  onClientConnected :: "nat \<Rightarrow> server \<Rightarrow> server"
  onRecv :: "nat \<Rightarrow> server \<Rightarrow> server"
  onClientDestroyed :: "nat \<Rightarrow> server \<Rightarrow> server"
  onDisconnected :: "nat \<Rightarrow> server \<Rightarrow> server"

text \<open>\<^verbatim>\<open>insert\<close> leaves a map that has the key as it is.\<close>

definition admit :: "callbacks \<Rightarrow> nat \<Rightarrow> server \<Rightarrow> error + server" where
  "admit cb p s =
     bindE (getNextClientID s) (\<lambda>(i, s1).
       let s2 = set_client p ((srv_heap s1 p)\<lparr>c_id := i\<rparr>) s1;
           s3 = onClientConnected cb p (log [Client_connected p] s2);
           i3 = c_id (srv_heap s3 p)
       in Inr (if map_of (allClients s3) i3 = None
               then s3\<lparr>allClients := (i3, p) # allClients s3\<rparr> else s3))"

definition destroyClient :: "callbacks \<Rightarrow> nat \<Rightarrow> server \<Rightarrow> server" where
  "destroyClient cb p s =
     (let s1 = log [Closed_fd (c_socket (srv_heap s p))] s;
          s2 = onClientDestroyed cb p (log [Client_destroyed p] s1);
          s3 = onDisconnected cb p (log [Client_disconnected p] s2)
      in set_client p ((srv_heap s3 p)\<lparr>c_server := False\<rparr>) s3)"

text \<open>
  The turn of one client in the second loop of \<^verbatim>\<open>update\<close>: what comes before and after
  flushing, which is the same on every platform.
\<close>

definition serve_news :: "callbacks \<Rightarrow> u64 \<Rightarrow> nat \<Rightarrow> server \<Rightarrow> server" where
  "serve_news cb now p s =
     (let c = srv_heap s p in
      if hasNewData c
      then onRecv cb p (log [Client_received p]
             (set_client p (c\<lparr>hasNewData := False, lastActiveTime := now\<rparr>) s))
      else if kickTime s \<noteq> 0 \<and> kickTime s < now - lastActiveTime c
      then set_client p (c\<lparr>isClosing := True\<rparr>) s
      else s)"

definition serve_end :: "callbacks \<Rightarrow> u16 \<times> nat \<Rightarrow> server \<Rightarrow> server" where
  "serve_end cb ip s =
     (let (i, p) = ip in
      if isClosing (srv_heap s p)
      then let s1 = destroyClient cb p s in
           s1\<lparr>allClients := filter (\<lambda>(j, q). j \<noteq> i) (allClients s1)\<rparr>
      else s)"

definition serve ::
    "env \<Rightarrow> callbacks \<Rightarrow> u64 \<Rightarrow> (nat \<Rightarrow> send_result list) \<Rightarrow> u16 \<times> nat \<Rightarrow> server \<Rightarrow> error + server" where
  "serve E cb now sends ip s =
     (let p = snd ip; s1 = serve_news cb now p s in
      bindE (writeFromBuffer E (sends p) (srv_heap s1 p)) (\<lambda>(_, c2).
        Inr (serve_end cb ip (set_client p c2 s1))))"

definition srv_update ::
    "env \<Rightarrow> callbacks \<Rightarrow> ((u16 \<times> nat) list \<Rightarrow> (u16 \<times> nat) list) \<Rightarrow> u64 \<Rightarrow> (nat \<Rightarrow> send_result list)
      \<Rightarrow> server \<Rightarrow> error + server" where
  "srv_update E cb shuffle now sends s =
     bindE (runE (admit cb) (addingClients s) s) (\<lambda>s1.
     let s2 = s1\<lparr>addingClients := []\<rparr> in
     bindE (runE (serve E cb now sends) (shuffle (allClients s2)) s2) (\<lambda>s3.
       Inr (s3\<lparr>numClients := word_of_nat (length (allClients s3))\<rparr>)))"

text \<open>\<^verbatim>\<open>cleanup\<close>, which the destructor calls too; the event thread has come to its end.\<close>

definition cleanup :: "callbacks \<Rightarrow> ((u16 \<times> nat) list \<Rightarrow> (u16 \<times> nat) list) \<Rightarrow> server \<Rightarrow> server" where
  "cleanup cb shuffle s =
     (let s1 = log [Closed_fd (fst (pipe_fd s)), Closed_fd (snd (pipe_fd s))] (s\<lparr>isRunning := False\<rparr>);
          s2 = fold (\<lambda>(i, p) t. destroyClient cb p (set_client p ((srv_heap t p)\<lparr>isClosing := True\<rparr>) t))
                 (shuffle (allClients s1)) s1
      in log [Closed_fd (listenSocket s2)] (s2\<lparr>allClients := [], numClients := 0\<rparr>))"

end
