(* ===== verification/Server_Life.thy ===== *)
theory Server_Life
  imports Server_Socket
begin

text \<open>
  What the server promises: ids are unique among the clients it knows, the bytes of a client
  are sent in order and none is lost, and every client lives through the same life: it is
  announced once, then receives, then is destroyed once and never touched again.
\<close>

section \<open>Ids\<close>

lemma next_id_found:
  "map_of cs (i + 1 + word_of_nat k) = None \<Longrightarrow> \<exists>j. next_id cs i = Some j \<and> map_of cs j = None"
proof (induction k arbitrary: i)
  case 0
  then show ?case by (simp add: next_id.simps Let_def)
next
  case (Suc k)
  show ?case
  proof (cases "map_of cs (i + 1) = None")
    case True
    then show ?thesis by (simp add: next_id.simps Let_def)
  next
    case False
    have "map_of cs ((i + 1) + 1 + word_of_nat k) = None" using Suc.prems by (simp add: ac_simps)
    from Suc.IH [OF this] False show ?thesis by (subst next_id.simps) (simp add: Let_def)
  qed
qed

lemma next_id_free:
  assumes "map_of cs j = None"
  shows "\<exists>j. next_id cs i = Some j \<and> map_of cs j = None"
  by (rule next_id_found [of _ _ "unat (j - i - 1)"]) (simp add: assms)

lemma next_id_unused:
  assumes "next_id cs i = Some j"
  shows "map_of cs j = None"
  using assms
  by (rule next_id.raw_induct [where P = "\<lambda>cs i j. map_of cs j = None", rotated])
    (auto simp: Let_def split: if_splits)

section \<open>What the operations leave alone\<close>

text \<open>A client that has only been used: same id and socket, no new data, not reopened.\<close>

definition calm :: "net_client \<Rightarrow> net_client \<Rightarrow> bool" where
  "calm c c' \<longleftrightarrow> c_id c' = c_id c \<and> c_socket c' = c_socket c \<and> hasNewData c' = hasNewData c
     \<and> lastActiveTime c' = lastActiveTime c \<and> (isClosing c \<longrightarrow> isClosing c')"

lemma calm_refl [simp]: "calm c c"
  by (simp add: calm_def)

lemma calm_trans: "calm a b \<Longrightarrow> calm b c \<Longrightarrow> calm a c"
  by (simp add: calm_def)

lemma calm_writer [simp]: "calm c (c\<lparr>c_writer := b\<rparr>)" "calm c (c\<lparr>isClosing := True\<rparr>)"
  by (simp_all add: calm_def)

text \<open>Callbacks may use the buffers and kick clients, nothing else.\<close>

definition tame :: "(nat \<Rightarrow> server \<Rightarrow> server) \<Rightarrow> bool" where
  "tame f \<longleftrightarrow> (\<forall>p s. \<exists>h. f p s = s\<lparr>srv_heap := h\<rparr> \<and> (\<forall>q. calm (srv_heap s q) (h q)))"

definition tame_callbacks :: "callbacks \<Rightarrow> bool" where
  "tame_callbacks cb \<longleftrightarrow> tame (onClientConnected cb) \<and> tame (onRecv cb)
     \<and> tame (onClientDestroyed cb) \<and> tame (onDisconnected cb)"

lemma tameE:
  assumes "tame f"
  obtains h where "f p s = s\<lparr>srv_heap := h\<rparr>" and "\<forall>q. calm (srv_heap s q) (h q)"
  using assms unfolding tame_def by blast

lemma flush_calm: "flush_loop rs sent c = Inr (sent', c') \<Longrightarrow> calm c c'"
proof (induction rs arbitrary: sent c)
  case Nil
  then show ?case by simp
next
  case (Cons r rs)
  show ?case
  proof (cases "readAvailable (c_writer c) mod 2 ^ 32 = 0")
    case True
    with Cons.prems show ?thesis by (simp add: Let_def)
  next
    case False
    show ?thesis
    proof (cases r)
      case (Sent k)
      with Cons.prems False obtain j xs where
        "c' = c\<lparr>c_writer := seek (int j) (c_writer c)\<rparr>
         \<or> flush_loop rs xs (c\<lparr>c_writer := seek (int j) (c_writer c)\<rparr>) = Inr (sent', c')"
        by (auto simp: Let_def bindE_eq_Inr split: if_splits)
      with Cons.IH calm_trans [OF calm_writer(1)] calm_writer(1) show ?thesis by blast
    qed (use Cons.prems False in \<open>auto simp: Let_def bindE_eq_Inr split: if_splits\<close>)
  qed
qed

lemma writeFromBuffer_calm: "writeFromBuffer E rs c = Inr (sent, c') \<Longrightarrow> calm c c'"
  using flush_calm calm_trans calm_writer(1)
  by (fastforce simp: writeFromBuffer_def bindE_eq_Inr split: if_splits)

lemma read_loop_id: "read_loop E rs c = Inr c' \<Longrightarrow> c_id c' = c_id c"
  by (induction E rs c rule: read_loop.induct)
    (auto simp: bindE_eq_Inr writeClientBuffer_def split: if_splits)

lemma readIntoBuffer_id: "readIntoBuffer E rs c = Inr c' \<Longrightarrow> c_id c' = c_id c"
  by (auto simp: readIntoBuffer_def bindE_eq_Inr dest: read_loop_id split: if_splits)

section \<open>The bytes\<close>

lemma flush_loop_ok:
  "ba_inv (c_writer c) \<Longrightarrow> ba_writePos (c_writer c) < 2 ^ 31 \<Longrightarrow>
   \<exists>xs c'. flush_loop rs sent c = Inr (sent @ xs, c') \<and> ba_inv (c_writer c')
     \<and> ba_unread (c_writer c) = xs @ ba_unread (c_writer c')
     \<and> c_reader c' = c_reader c \<and> (isClosing c' \<longrightarrow> isClosing c \<or> Send_error \<in> set rs)
     \<and> ((\<forall>r\<in>set rs. \<exists>k. r = Sent k \<and> BUFFER_SIZE \<le> k)
          \<longrightarrow> length (ba_unread (c_writer c)) \<le> length rs * BUFFER_SIZE \<longrightarrow> ba_unread (c_writer c') = [])"
proof (induction rs arbitrary: sent c)
  case Nil
  then show ?case by simp
next
  case (Cons r rs)
  let ?b = "c_writer c"
  note inv = Cons.prems(1)
  have av: "readAvailable ?b mod 2 ^ 32 = readAvailable ?b"
    using Cons.prems by (simp add: readAvailable_eq)
  have lu: "length (ba_unread ?b) = readAvailable ?b" by (rule length_ba_unread [OF inv])
  show ?case
  proof (cases "readAvailable ?b = 0")
    case True
    with lu inv show ?thesis by (simp add: Let_def)
  next
    case False
    define len where "len = (if BUFFER_SIZE < readAvailable ?b then BUFFER_SIZE else readAvailable ?b)"
    have len: "len \<le> readAvailable ?b" "len \<le> BUFFER_SIZE" "0 < len" "len < 2 ^ 31"
      using False by (auto simp: len_def BUFFER_SIZE_def)
    note pk = peek_unread [OF inv len(1)]
    have step: "flush_loop (r # rs) sent c = (case r of
          Sent k \<Rightarrow> let j = min k len; c1 = c\<lparr>c_writer := seek (int j) ?b\<rparr> in
            if j < len then Inr (sent @ take j (take len (ba_unread ?b)), c1)
            else flush_loop rs (sent @ take j (take len (ba_unread ?b))) c1
        | Send_would_block \<Rightarrow> Inr (sent, c)
        | Send_error \<Rightarrow> Inr (sent, c\<lparr>isClosing := True\<rparr>))"
      unfolding flush_loop.simps Let_def av len_def [symmetric] using False pk by simp
    show ?thesis
    proof (cases r)
      case (Sent k)
      define j where "j = min k len"
      have j: "j \<le> readAvailable ?b" "j < 2 ^ 31" using len by (auto simp: j_def)
      have "ba_readPos (seek (int j) ?b) = ba_readPos ?b + j"
        using seek_forward [OF inv, of "int j"] j Cons.prems(2) inv
        by (simp add: readAvailable_eq ba_inv_def min_def) linarith
      then have sk: "seek (int j) ?b = ?b\<lparr>ba_readPos := ba_readPos ?b + j\<rparr>"
        by (auto simp: seek_def set_readPosition_def)
      note a = advance_read [OF inv j(1), folded sk]
      have tj: "take j (take len (ba_unread ?b)) = take j (ba_unread ?b)" by (simp add: j_def)
      let ?c = "c\<lparr>c_writer := seek (int j) ?b\<rparr>"
      show ?thesis
      proof (cases "j < len")
        case True
        then have "flush_loop (r # rs) sent c = Inr (sent @ take j (ba_unread ?b), ?c)"
          by (subst step) (simp add: Sent Let_def tj flip: j_def)
        moreover have "\<not> BUFFER_SIZE \<le> k" using True len(2) by (auto simp: j_def)
        ultimately show ?thesis using a Sent
          by (intro exI [of _ "take j (ba_unread ?b)"] exI [of _ ?c]) auto
      next
        case False
        have jl: "j = len" using False by (auto simp: j_def)
        then have fl: "flush_loop (r # rs) sent c = flush_loop rs (sent @ take j (ba_unread ?b)) ?c"
          by (subst step) (simp add: Sent Let_def flip: j_def)
        have "ba_inv (c_writer ?c)" "ba_writePos (c_writer ?c) < 2 ^ 31"
          using a(2) Cons.prems(2) by (simp_all add: sk)
        from Cons.IH [OF this, of "sent @ take j (ba_unread ?b)"] obtain xs c' where
          r: "flush_loop rs (sent @ take j (ba_unread ?b)) ?c = Inr ((sent @ take j (ba_unread ?b)) @ xs, c')"
          "ba_inv (c_writer c')" "drop j (ba_unread ?b) = xs @ ba_unread (c_writer c')"
          "c_reader c' = c_reader c" "isClosing c' \<longrightarrow> isClosing c \<or> Send_error \<in> set rs"
          "(\<forall>r\<in>set rs. \<exists>k. r = Sent k \<and> BUFFER_SIZE \<le> k)
             \<longrightarrow> length (drop j (ba_unread ?b)) \<le> length rs * BUFFER_SIZE \<longrightarrow> ba_unread (c_writer c') = []"
          using a(3) by (auto simp del: length_drop)
        have u: "ba_unread ?b = (take j (ba_unread ?b) @ xs) @ ba_unread (c_writer c')"
          using r(3) by (metis append.assoc append_take_drop_id)
        have "length (ba_unread ?b) \<le> length (r # rs) * BUFFER_SIZE \<longrightarrow>
            length (drop j (ba_unread ?b)) \<le> length rs * BUFFER_SIZE"
          unfolding jl using lu by (auto simp: len_def)
        with r u show ?thesis unfolding fl
          by (intro exI [of _ "take j (ba_unread ?b) @ xs"] exI [of _ c']) auto
      qed
    next
      case Send_would_block
      then have "flush_loop (r # rs) sent c = Inr (sent @ [], c)" unfolding step by simp
      with inv Send_would_block show ?thesis by (intro exI [of _ "[]"] exI [of _ c]) auto
    next
      case Send_error
      then have "flush_loop (r # rs) sent c = Inr (sent @ [], c\<lparr>isClosing := True\<rparr>)" unfolding step by simp
      with inv Send_error show ?thesis
        by (intro exI [of _ "[]"] exI [of _ "c\<lparr>isClosing := True\<rparr>"]) auto
    qed
  qed
qed

section \<open>The life of a client\<close>

datatype life_phase = Unseen | Up | Leaving | Gone | Bad

fun life :: "nat \<Rightarrow> life_phase \<Rightarrow> srv_event \<Rightarrow> life_phase" where
  "life p ph (Client_connected q) = (if q \<noteq> p then ph else if ph = Unseen then Up else Bad)"
| "life p ph (Client_received q) = (if q \<noteq> p then ph else if ph = Up then Up else Bad)"
| "life p ph (Client_destroyed q) = (if q \<noteq> p then ph else if ph = Up then Leaving else Bad)"
| "life p ph (Client_disconnected q) = (if q \<noteq> p then ph else if ph = Leaving then Gone else Bad)"
| "life p ph (Closed_fd fd) = ph"

definition phase_of :: "server \<Rightarrow> nat \<Rightarrow> life_phase" where
  "phase_of s p = foldl (life p) Unseen (srv_log s)"

lemma phase_log [simp]: "phase_of (log es s) p = foldl (life p) (phase_of s p) es"
  by (simp add: phase_of_def log_def)

lemma phase_cong: "srv_log s' = srv_log s \<Longrightarrow> phase_of s' p = phase_of s p"
  by (simp add: phase_of_def)

text \<open>\<open>ps\<close> are the clients that wait to be admitted.\<close>

definition life_inv :: "nat list \<Rightarrow> server \<Rightarrow> bool" where
  "life_inv ps s \<longleftrightarrow> distinct (map fst (allClients s)) \<and> distinct (map snd (allClients s) @ ps)
     \<and> (\<forall>(i, p)\<in>set (allClients s). c_id (srv_heap s p) = i)
     \<and> (\<forall>p. if p \<in> snd ` set (allClients s) then p < next_ptr s \<and> phase_of s p = Up
            else if p \<in> set ps then p < next_ptr s \<and> phase_of s p = Unseen
            else phase_of s p = (if p < next_ptr s then Gone else Unseen))"

lemma life_inv_cong:
  assumes "allClients s' = allClients s" and "next_ptr s' = next_ptr s" and "srv_log s' = srv_log s"
    and "\<And>p. p \<in> snd ` set (allClients s) \<Longrightarrow> c_id (srv_heap s' p) = c_id (srv_heap s p)"
  shows "life_inv ps s \<Longrightarrow> life_inv ps s'"
  using assms(4) unfolding life_inv_def assms(1,2) phase_cong [OF assms(3)]
  by (elim conjE, intro conjI) force+

text \<open>Closing descriptors is no event of a client's life.\<close>

definition only_closes :: "server \<Rightarrow> server \<Rightarrow> bool" where
  "only_closes s s' \<longleftrightarrow> (\<exists>fds. s' = s\<lparr>srv_log := srv_log s @ map Closed_fd fds\<rparr>)"

lemma only_closes_refl [simp]: "only_closes s s"
  unfolding only_closes_def by (rule exI [of _ "[]"]) simp

lemma only_closes_log: "only_closes s (log [Closed_fd fd] s)"
  unfolding only_closes_def log_def by (rule exI [of _ "[fd]"]) simp

lemma only_closes_trans: "only_closes s t \<Longrightarrow> only_closes t u \<Longrightarrow> only_closes s u"
proof -
  assume "only_closes s t" and "only_closes t u"
  then obtain xs ys where "t = s\<lparr>srv_log := srv_log s @ map Closed_fd xs\<rparr>" "u = t\<lparr>srv_log := srv_log t @ map Closed_fd ys\<rparr>"
    by (auto simp: only_closes_def)
  then show ?thesis unfolding only_closes_def by (intro exI [of _ "xs @ ys"]) simp
qed

lemma only_closes_life:
  assumes "only_closes s s'"
  shows "life_inv ps s' = life_inv ps s" "addingClients s' = addingClients s" "alive s' = alive s"
proof -
  from assms obtain fds where s': "s' = s\<lparr>srv_log := srv_log s @ map Closed_fd fds\<rparr>" by (auto simp: only_closes_def)
  have "foldl (life p) ph (map Closed_fd fds) = ph" for p ph by (induction fds arbitrary: ph) simp_all
  then have "phase_of s' p = phase_of s p" for p by (simp add: s' phase_of_def)
  then show "life_inv ps s' = life_inv ps s" unfolding life_inv_def by (simp add: s')
  show "addingClients s' = addingClients s" "alive s' = alive s" by (simp_all add: s' alive_def fun_eq_iff)
qed

lemma life_inv_new: "life_inv [] (server_new h)"
  by (simp add: life_inv_def server_new_def phase_of_def)

lemma addClient_life:
  assumes "life_inv (addingClients s) s"
  shows "life_inv (addingClients (addClient c0 now sock s)) (addClient c0 now sock s)"
proof -
  let ?s = "addClient c0 now sock s" and ?p = "next_ptr s"
  have q: "allClients ?s = allClients s" "addingClients ?s = addingClients s @ [?p]"
    "next_ptr ?s = Suc ?p" "srv_log ?s = srv_log s"
    "\<And>q. q \<noteq> ?p \<Longrightarrow> srv_heap ?s q = srv_heap s q"
    by (simp_all add: addClient_def set_client_def Let_def)
  have n: "?p \<notin> snd ` set (allClients s)" "?p \<notin> set (addingClients s)"
    using assms by (auto simp: life_inv_def split: if_splits)
  then have h: "c_id (srv_heap ?s p) = i" if "(i, p) \<in> set (allClients s)" for i p
    using assms that q(5) [of p] by (force simp: life_inv_def)
  have ph: "phase_of ?s p = phase_of s p" for p by (rule phase_cong [OF q(4)])
  show ?thesis
    using assms n h unfolding life_inv_def q(1-3) ph
    by (auto simp: less_Suc_eq)
qed

lemma accept_life:
  assumes "life_inv (addingClients s) s"
  shows "life_inv (addingClients (fold (accept_one c0 now) socks s)) (fold (accept_one c0 now) socks s)"
  using assms
proof (induction socks arbitrary: s)
  case Nil
  then show ?case by simp
next
  case (Cons sock socks)
  have "life_inv (addingClients s) (log [Closed_fd sock] s)"
    using Cons.prems unfolding life_inv_def phase_log by (simp add: log_def)
  then have "life_inv (addingClients (accept_one c0 now sock s)) (accept_one c0 now sock s)"
    using addClient_life [OF Cons.prems] by (simp add: accept_one_def log_def)
  with Cons.IH show ?case by simp
qed

lemma on_client_life:
  assumes "life_inv (addingClients s) s" and "on_client f src s = Inr s'"
    and "\<And>c c'. f c = Inr c' \<Longrightarrow> c_id c' = c_id c"
  shows "life_inv (addingClients s') s' \<and> addingClients s' = addingClients s"
proof -
  from assms(2) obtain p c where "f (srv_heap s p) = Inr c" and s': "s' = set_client p c s"
    by (auto simp: on_client_def bindE_eq_Inr split: ep_source.splits if_splits)
  with assms(3) have "c_id c = c_id (srv_heap s p)" by blast
  with assms(1) show ?thesis
    using life_inv_cong [of s' s "addingClients s"] by (simp add: s' set_client_def)
qed

lemma process_event_life:
  assumes "life_inv (addingClients s) s" and "process_event E c0 now evt s = Inr s'"
  shows "life_inv (addingClients s') s'"
proof -
  from assms(2) obtain s1 s2 where
    1: "(if EPOLLIN evt then case e_source evt of
            Listen_socket \<Rightarrow> Inr (fold (accept_one c0 now) (e_accepted evt) s)
          | Pipe_end \<Rightarrow> Inr s
          | Client_ptr p \<Rightarrow> on_client (readIntoBuffer E (e_recvs evt)) (e_source evt) s
        else Inr s) = Inr s1"
    and 2: "(if EPOLLOUT evt then on_client
          (\<lambda>c. bindE (writeFromBuffer E (e_sends evt) c) (\<lambda>(_, c1). Inr c1)) (e_source evt) s1
        else Inr s1) = Inr s2"
    and 3: "(if EPOLLRDHUP evt then on_client (\<lambda>c. Inr (c\<lparr>isClosing := True\<rparr>)) (e_source evt) s2
        else Inr s2) = Inr s'"
    unfolding process_event_def by (auto simp: bindE_eq_Inr)
  have "life_inv (addingClients s1) s1"
  proof (cases "EPOLLIN evt \<and> (\<exists>p. e_source evt = Client_ptr p)")
    case True
    then have "on_client (readIntoBuffer E (e_recvs evt)) (e_source evt) s = Inr s1" using 1 by auto
    from on_client_life [OF assms(1) this] readIntoBuffer_id show ?thesis by blast
  next
    case False
    then have "s1 = s \<or> (\<exists>xs. s1 = fold (accept_one c0 now) xs s)"
      using 1 by (cases "e_source evt") (auto split: if_splits)
    with assms(1) accept_life [OF assms(1)] show ?thesis by auto
  qed
  then have "life_inv (addingClients s2) s2"
  proof (cases "EPOLLOUT evt")
    case True
    with 2 have "on_client (\<lambda>c. bindE (writeFromBuffer E (e_sends evt) c) (\<lambda>(_, c1). Inr c1)) (e_source evt) s1
        = Inr s2" by simp
    from on_client_life [OF \<open>life_inv (addingClients s1) s1\<close> this] writeFromBuffer_calm show ?thesis
      by (fastforce simp: bindE_eq_Inr calm_def)
  qed (use 2 in simp)
  then show ?thesis
  proof (cases "EPOLLRDHUP evt")
    case True
    with 3 have "on_client (\<lambda>c. Inr (c\<lparr>isClosing := True\<rparr>)) (e_source evt) s2 = Inr s'" by simp
    from on_client_life [OF \<open>life_inv (addingClients s2) s2\<close> this] show ?thesis by auto
  qed (use 3 in simp)
qed

lemma admit_eq:
  assumes cb: "tame_callbacks cb" and a: "admit cb p s = Inr s'"
  shows "\<exists>i h. map_of (allClients s) i = None
    \<and> (\<forall>q. calm (((srv_heap s)(p := (srv_heap s p)\<lparr>c_id := i\<rparr>)) q) (h q))
    \<and> s' = s\<lparr>nextID := i, srv_heap := h, srv_log := srv_log s @ [Client_connected p],
             allClients := (i, p) # allClients s\<rparr>"
proof -
  from a obtain i s1 where g: "getNextClientID s = Inr (i, s1)" by (auto simp: admit_def bindE_eq_Inr)
  then have i: "map_of (allClients s) i = None" and s1: "s1 = s\<lparr>nextID := i\<rparr>"
    by (auto simp: getNextClientID_def dest: next_id_unused split: option.splits)
  define s2 where "s2 = log [Client_connected p] (set_client p ((srv_heap s1 p)\<lparr>c_id := i\<rparr>) s1)"
  obtain h where c: "onClientConnected cb p s2 = s2\<lparr>srv_heap := h\<rparr>" "\<forall>q. calm (srv_heap s2 q) (h q)"
    using cb tameE unfolding tame_callbacks_def by metis
  have h2: "srv_heap s2 = (srv_heap s)(p := (srv_heap s p)\<lparr>c_id := i\<rparr>)"
    by (simp add: s2_def s1 log_def set_client_def)
  then have hp: "c_id (h p) = i" using c(2) by (auto simp: calm_def)
  have a2: "allClients s2 = allClients s" by (simp add: s2_def s1 log_def set_client_def)
  have "s' = s2\<lparr>srv_heap := h, allClients := (i, p) # allClients s\<rparr>"
    using a g i hp a2 by (simp add: admit_def Let_def c(1) flip: s2_def)
  then have "s' = s\<lparr>nextID := i, srv_heap := h, srv_log := srv_log s @ [Client_connected p],
             allClients := (i, p) # allClients s\<rparr>"
    by (simp add: s2_def s1 log_def set_client_def)
  with i c(2) h2 show ?thesis by metis
qed

lemma admit_life:
  assumes inv: "life_inv (p # ps) s" and cb: "tame_callbacks cb" and a: "admit cb p s = Inr s'"
  shows "life_inv ps s'"
proof -
  from admit_eq [OF cb a] obtain i h where i: "map_of (allClients s) i = None"
    and h: "\<forall>q. calm (((srv_heap s)(p := (srv_heap s p)\<lparr>c_id := i\<rparr>)) q) (h q)"
    and s': "s' = s\<lparr>nextID := i, srv_heap := h, srv_log := srv_log s @ [Client_connected p],
             allClients := (i, p) # allClients s\<rparr>" by blast
  have hid: "c_id (h p) = i" "c_id (h q) = c_id (srv_heap s q)" if "q \<noteq> p" for q
    using h [rule_format, of p] h [rule_format, of q] that by (simp_all add: calm_def)
  have hp: "c_id (h p) = i" using h [rule_format, of p] by (simp add: calm_def)
  have q: "allClients s' = (i, p) # allClients s" "next_ptr s' = next_ptr s" "srv_heap s' = h"
    "\<And>q. phase_of s' q = life q (phase_of s q) (Client_connected p)"
    by (simp_all add: s' phase_of_def)
  have "i \<notin> fst ` set (allClients s)" using i by (simp add: map_of_eq_None_iff)
  moreover have np: "p \<notin> snd ` set (allClients s)" "p \<notin> set ps" using inv by (auto simp: life_inv_def)
  moreover have "c_id (h q) = j" if "(j, q) \<in> set (allClients s)" for j q
    using that hid(2) [of q] np inv by (force simp: life_inv_def)
  moreover have "phase_of s p = Unseen" "p < next_ptr s" using inv np by (auto simp: life_inv_def split: if_splits)
  ultimately show ?thesis
    using inv hp unfolding life_inv_def q by auto
qed

text \<open>One turn of a client in \<^verbatim>\<open>update\<close>: what it changes, and what it must do.\<close>

definition idle :: "u64 \<Rightarrow> server \<Rightarrow> nat \<Rightarrow> bool" where
  "idle now s p \<longleftrightarrow> \<not> hasNewData (srv_heap s p) \<and> kickTime s \<noteq> 0
     \<and> kickTime s < now - lastActiveTime (srv_heap s p)"

definition serve_log :: "server \<Rightarrow> nat \<Rightarrow> int \<Rightarrow> bool \<Rightarrow> srv_event list" where
  "serve_log s p fd closed = (if hasNewData (srv_heap s p) then [Client_received p] else [])
     @ (if closed then [Closed_fd fd, Client_destroyed p, Client_disconnected p] else [])"

lemma destroyClient_eq:
  assumes "tame_callbacks cb"
  shows "\<exists>h. destroyClient cb p s = s\<lparr>srv_heap := h,
      srv_log := srv_log s @ [Closed_fd (c_socket (srv_heap s p)), Client_destroyed p, Client_disconnected p]\<rparr>
    \<and> (\<forall>q. calm (srv_heap s q) (h q))"
proof -
  let ?s1 = "log [Client_destroyed p] (log [Closed_fd (c_socket (srv_heap s p))] s)"
  obtain h1 where 1: "onClientDestroyed cb p ?s1 = ?s1\<lparr>srv_heap := h1\<rparr>" "\<forall>q. calm (srv_heap ?s1 q) (h1 q)"
    using assms tameE unfolding tame_callbacks_def by metis
  let ?s2 = "log [Client_disconnected p] (?s1\<lparr>srv_heap := h1\<rparr>)"
  obtain h2 where 2: "onDisconnected cb p ?s2 = ?s2\<lparr>srv_heap := h2\<rparr>" "\<forall>q. calm (srv_heap ?s2 q) (h2 q)"
    using assms tameE unfolding tame_callbacks_def by metis
  have c: "calm (srv_heap s q) (h2 q)" for q
    using 1(2) 2(2) calm_trans by (fastforce simp: log_def)
  then have "calm (srv_heap s q) ((h2(p := (h2 p)\<lparr>c_server := False\<rparr>)) q)" for q by (simp add: calm_def)
  moreover have "destroyClient cb p s = s\<lparr>srv_heap := h2(p := (h2 p)\<lparr>c_server := False\<rparr>),
      srv_log := srv_log s @ [Closed_fd (c_socket (srv_heap s p)), Client_destroyed p, Client_disconnected p]\<rparr>"
    unfolding destroyClient_def Let_def 1(1) 2(1) by (simp add: set_client_def log_def)
  ultimately show ?thesis by blast
qed

lemma serve_news_eq:
  assumes cb: "tame_callbacks cb"
  shows "\<exists>h. serve_news cb now p s = s\<lparr>srv_heap := h, srv_log := srv_log s @ serve_log s p 0 False\<rparr>
    \<and> (\<forall>q. c_id (h q) = c_id (srv_heap s q)) \<and> (\<forall>q. q \<noteq> p \<longrightarrow> calm (srv_heap s q) (h q))
    \<and> (isClosing (srv_heap s p) \<or> idle now s p \<longrightarrow> isClosing (h p))"
proof (cases "hasNewData (srv_heap s p)")
  case True
  let ?c = "srv_heap s p"
  let ?s = "log [Client_received p] (set_client p (?c\<lparr>hasNewData := False, lastActiveTime := now\<rparr>) s)"
  obtain h where h: "onRecv cb p ?s = ?s\<lparr>srv_heap := h\<rparr>" "\<forall>q. calm (srv_heap ?s q) (h q)"
    using cb tameE unfolding tame_callbacks_def by metis
  have "serve_news cb now p s = s\<lparr>srv_heap := h, srv_log := srv_log s @ serve_log s p 0 False\<rparr>"
    using True h(1) by (simp add: serve_news_def serve_log_def log_def set_client_def)
  moreover have "c_id (h q) = c_id (srv_heap s q)" "q \<noteq> p \<Longrightarrow> calm (srv_heap s q) (h q)"
    "isClosing ?c \<Longrightarrow> isClosing (h p)" for q
    using h(2) [rule_format, of q] h(2) [rule_format, of p]
    by (auto simp: calm_def log_def set_client_def split: if_splits)
  ultimately show ?thesis using True by (intro exI [of _ h]) (auto simp: idle_def)
next
  case False
  define h where "h = (if kickTime s \<noteq> 0 \<and> kickTime s < now - lastActiveTime (srv_heap s p)
    then (srv_heap s)(p := (srv_heap s p)\<lparr>isClosing := True\<rparr>) else srv_heap s)"
  have "serve_news cb now p s = s\<lparr>srv_heap := h, srv_log := srv_log s @ serve_log s p 0 False\<rparr>"
    using False by (auto simp: serve_news_def serve_log_def set_client_def h_def)
  with False show ?thesis by (intro exI [of _ h]) (auto simp: h_def idle_def)
qed

lemma serve_end_eq:
  assumes cb: "tame_callbacks cb"
  shows "\<exists>h fd. serve_end cb (i, p) s = s\<lparr>srv_heap := h,
        srv_log := srv_log s @ (if isClosing (srv_heap s p)
          then [Closed_fd fd, Client_destroyed p, Client_disconnected p] else []),
        allClients := (if isClosing (srv_heap s p) then filter (\<lambda>(j, q). j \<noteq> i) (allClients s) else allClients s)\<rparr>
    \<and> (\<forall>q. calm (srv_heap s q) (h q))"
proof (cases "isClosing (srv_heap s p)")
  case True
  obtain h where d: "destroyClient cb p s = s\<lparr>srv_heap := h,
      srv_log := srv_log s @ [Closed_fd (c_socket (srv_heap s p)), Client_destroyed p, Client_disconnected p]\<rparr>"
    "\<forall>q. calm (srv_heap s q) (h q)"
    using destroyClient_eq [OF cb] by blast
  then show ?thesis using True
    by (intro exI [of _ h] exI [of _ "c_socket (srv_heap s p)"]) (simp add: serve_end_def Let_def)
next
  case False
  then show ?thesis by (intro exI [of _ "srv_heap s"]) (simp add: serve_end_def)
qed

text \<open>A whole turn, whatever flushing does to the client as long as it is calm.\<close>

definition turn :: "u64 \<Rightarrow> u16 \<times> nat \<Rightarrow> server \<Rightarrow> server \<Rightarrow> bool" where
  "turn now ip s s' \<longleftrightarrow> (let (i, p) = ip in
     \<exists>h fd closed. s' = s\<lparr>srv_heap := h, srv_log := srv_log s @ serve_log s p fd closed,
        allClients := (if closed then filter (\<lambda>(j, q). j \<noteq> i) (allClients s) else allClients s)\<rparr>
    \<and> (\<forall>q. c_id (h q) = c_id (srv_heap s q)) \<and> (\<forall>q. q \<noteq> p \<longrightarrow> calm (srv_heap s q) (h q))
    \<and> (isClosing (srv_heap s p) \<or> idle now s p \<longrightarrow> closed))"

inductive turns :: "u64 \<Rightarrow> (u16 \<times> nat) list \<Rightarrow> server \<Rightarrow> server \<Rightarrow> bool" for now where
  No_turn: "turns now [] s s"
| Next_turn: "turn now ip s t \<Longrightarrow> turns now L t s' \<Longrightarrow> turns now (ip # L) s s'"

inductive_cases turns_NilE: "turns now [] s s'"
inductive_cases turns_ConsE: "turns now (ip # L) s s'"

lemma turn_eq:
  assumes cb: "tame_callbacks cb" and c2: "calm (srv_heap (serve_news cb now p s) p) c2"
    and s': "s' = serve_end cb (i, p) (set_client p c2 (serve_news cb now p s))"
  shows "turn now (i, p) s s'"
proof -
  obtain h1 where n: "serve_news cb now p s = s\<lparr>srv_heap := h1, srv_log := srv_log s @ serve_log s p 0 False\<rparr>"
    and h1: "\<forall>q. c_id (h1 q) = c_id (srv_heap s q)" "\<forall>q. q \<noteq> p \<longrightarrow> calm (srv_heap s q) (h1 q)"
      "isClosing (srv_heap s p) \<or> idle now s p \<longrightarrow> isClosing (h1 p)"
    using serve_news_eq [OF cb] by blast
  let ?s2 = "set_client p c2 (serve_news cb now p s)"
  have s2: "srv_heap ?s2 = h1(p := c2)" "allClients ?s2 = allClients s"
    "srv_log ?s2 = srv_log s @ serve_log s p 0 False" by (simp_all add: n set_client_def)
  have c: "calm (h1 p) c2" using c2 by (simp add: n)
  from serve_end_eq [OF cb, of i p ?s2, folded s', unfolded s2 fun_upd_same]
  obtain h fd where e: "s' = ?s2\<lparr>srv_heap := h,
        srv_log := (srv_log s @ serve_log s p 0 False)
          @ (if isClosing c2 then [Closed_fd fd, Client_destroyed p, Client_disconnected p] else []),
        allClients := (if isClosing c2 then filter (\<lambda>(j, q). j \<noteq> i) (allClients s) else allClients s)\<rparr>"
    and h: "\<forall>q. calm ((h1(p := c2)) q) (h q)" by blast
  have "s' = s\<lparr>srv_heap := h, srv_log := srv_log s @ serve_log s p fd (isClosing c2),
        allClients := (if isClosing c2 then filter (\<lambda>(j, q). j \<noteq> i) (allClients s) else allClients s)\<rparr>"
    unfolding e by (simp add: n set_client_def serve_log_def)
  moreover have "c_id (h q) = c_id (srv_heap s q)" for q
    using h [rule_format, of q] h1(1) c by (cases "q = p") (simp_all add: calm_def)
  moreover have "calm (srv_heap s q) (h q)" if "q \<noteq> p" for q
    using h [rule_format, of q] h1(2) calm_trans that by auto
  moreover have "isClosing (srv_heap s p) \<or> idle now s p \<longrightarrow> isClosing c2"
    using h1(3) c by (auto simp: calm_def)
  ultimately show ?thesis unfolding turn_def prod.case Let_def by blast
qed

lemma serve_turn:
  assumes cb: "tame_callbacks cb" and sv: "serve E cb now sends (i, p) s = Inr s'"
  shows "turn now (i, p) s s'"
proof -
  from sv obtain snt c2 where w: "writeFromBuffer E (sends p) (srv_heap (serve_news cb now p s) p) = Inr (snt, c2)"
    and s': "s' = serve_end cb (i, p) (set_client p c2 (serve_news cb now p s))"
    by (auto simp: serve_def Let_def bindE_eq_Inr)
  from turn_eq [OF cb writeFromBuffer_calm [OF w] s'] show ?thesis .
qed

lemma life_inv_alive:
  assumes "life_inv ps s" and "(i, p) \<in> set (allClients s)"
  shows "phase_of s p = Up" and "p < next_ptr s" and "c_id (srv_heap s p) = i"
proof -
  have "p \<in> snd ` set (allClients s)" using assms(2) by force
  then show "phase_of s p = Up" and "p < next_ptr s" using assms(1) by (auto simp: life_inv_def)
  show "c_id (srv_heap s p) = i" using assms by (auto simp: life_inv_def)
qed

lemma turn_life:
  assumes inv: "life_inv [] s" and ip: "(i, p) \<in> set (allClients s)" and t: "turn now (i, p) s s'"
  shows "life_inv [] s'"
proof -
  from t obtain h fd closed where
    s': "s' = s\<lparr>srv_heap := h, srv_log := srv_log s @ serve_log s p fd closed,
        allClients := (if closed then filter (\<lambda>(j, q). j \<noteq> i) (allClients s) else allClients s)\<rparr>"
    and id: "\<forall>q. c_id (h q) = c_id (srv_heap s q)" by (auto simp: turn_def)
  note up = life_inv_alive(1,2) [OF inv ip]
  have pm: "p \<in> snd ` set (allClients s)" using ip by force
  have ph: "phase_of s' q = (if q = p then if closed then Gone else Up else phase_of s q)" for q
    using up by (simp add: s' phase_of_def serve_log_def)
  have only: "q = p \<longleftrightarrow> j = i" if "(j, q) \<in> set (allClients s)" for j q
  proof
    show "q = p \<Longrightarrow> j = i" using life_inv_alive(3) [OF inv that] life_inv_alive(3) [OF inv ip] by simp
    have "distinct (map fst (allClients s))" using inv by (simp add: life_inv_def)
    then show "j = i \<Longrightarrow> q = p" using that ip by (auto dest: eq_key_imp_eq_value)
  qed
  show ?thesis
  proof (cases closed)
    case False
    then have "allClients s' = allClients s" "next_ptr s' = next_ptr s" "srv_heap s' = h" by (simp_all add: s')
    with inv id ph up pm False show ?thesis unfolding life_inv_def by auto
  next
    case True
    let ?all = "filter (\<lambda>(j, q). j \<noteq> i) (allClients s)"
    have q: "allClients s' = ?all" "next_ptr s' = next_ptr s" "srv_heap s' = h" using True by (simp_all add: s')
    have mem: "x \<in> snd ` set ?all \<longleftrightarrow> x \<in> snd ` set (allClients s) \<and> x \<noteq> p" for x
      using only by force
    have "distinct (map fst ?all)" "distinct (map snd ?all)"
      using inv by (auto simp: life_inv_def distinct_map_filter)
    then show ?thesis
      using inv id up True unfolding life_inv_def q ph mem by auto
  qed
qed

lemma turns_ok:
  "turns now L s s' \<Longrightarrow> life_inv [] s \<Longrightarrow> distinct (map fst L) \<Longrightarrow>
    distinct (map snd L) \<Longrightarrow> set L \<subseteq> set (allClients s) \<Longrightarrow>
    life_inv [] s' \<and> addingClients s' = addingClients s \<and> set (allClients s') \<subseteq> set (allClients s)
    \<and> (\<exists>es. srv_log s' = srv_log s @ es
         \<and> (\<forall>(i, p)\<in>set L. (hasNewData (srv_heap s p) \<longrightarrow> Client_received p \<in> set es)
              \<and> (isClosing (srv_heap s p) \<or> idle now s p
                    \<longrightarrow> Client_disconnected p \<in> set es \<and> (i, p) \<notin> set (allClients s'))))"
proof (induction L arbitrary: s)
  case Nil
  then show ?case by (auto elim: turns_NilE)
next
  case (Cons ip L)
  obtain i p where ip: "ip = (i, p)" by fastforce
  from Cons.prems(1) obtain s1 where sv: "turn now (i, p) s s1" and r: "turns now L s1 s'"
    by (auto simp: ip elim: turns_ConsE)
  have m: "(i, p) \<in> set (allClients s)" using Cons.prems(5) ip by simp
  from sv obtain h fd closed where
    s1: "s1 = s\<lparr>srv_heap := h, srv_log := srv_log s @ serve_log s p fd closed,
        allClients := (if closed then filter (\<lambda>(j, q). j \<noteq> i) (allClients s) else allClients s)\<rparr>"
    and h: "\<forall>q. q \<noteq> p \<longrightarrow> calm (srv_heap s q) (h q)"
    and must: "isClosing (srv_heap s p) \<or> idle now s p \<longrightarrow> closed" by (auto simp: turn_def)
  have i1: "life_inv [] s1" by (rule turn_life [OF Cons.prems(2) m sv])
  have sub: "set (allClients s1) \<subseteq> set (allClients s)" by (auto simp: s1)
  have "set L \<subseteq> set (allClients s1)" using Cons.prems(3,5) by (force simp: s1 ip)
  with Cons.IH [OF r i1] Cons.prems(3,4) obtain es where
    IH: "life_inv [] s'" "addingClients s' = addingClients s1" "set (allClients s') \<subseteq> set (allClients s1)"
      "srv_log s' = srv_log s1 @ es"
      "\<forall>(j, q)\<in>set L. (hasNewData (srv_heap s1 q) \<longrightarrow> Client_received q \<in> set es)
         \<and> (isClosing (srv_heap s1 q) \<or> idle now s1 q
               \<longrightarrow> Client_disconnected q \<in> set es \<and> (j, q) \<notin> set (allClients s'))" by auto
  have same: "hasNewData (srv_heap s1 q) = hasNewData (srv_heap s q)"
    "isClosing (srv_heap s q) \<Longrightarrow> isClosing (srv_heap s1 q)" "idle now s1 q = idle now s q"
    if "(j, q) \<in> set L" for j q
  proof -
    have "q \<noteq> p" using that Cons.prems(4) ip by force
    with h show "hasNewData (srv_heap s1 q) = hasNewData (srv_heap s q)"
      "isClosing (srv_heap s q) \<Longrightarrow> isClosing (srv_heap s1 q)" "idle now s1 q = idle now s q"
      by (auto simp: s1 calm_def idle_def)
  qed
  let ?es = "serve_log s p fd closed @ es"
  have others: "(hasNewData (srv_heap s q) \<longrightarrow> Client_received q \<in> set ?es)
      \<and> (isClosing (srv_heap s q) \<or> idle now s q \<longrightarrow> Client_disconnected q \<in> set ?es \<and> (j, q) \<notin> set (allClients s'))"
    if "(j, q) \<in> set L" for j q
  proof -
    have "(hasNewData (srv_heap s1 q) \<longrightarrow> Client_received q \<in> set es)
         \<and> (isClosing (srv_heap s1 q) \<or> idle now s1 q
               \<longrightarrow> Client_disconnected q \<in> set es \<and> (j, q) \<notin> set (allClients s'))"
      using IH(5) that by blast
    then show ?thesis using same [OF that] by auto
  qed
  have first: "(hasNewData (srv_heap s p) \<longrightarrow> Client_received p \<in> set ?es) \<and> (isClosing (srv_heap s p) \<or> idle now s p
      \<longrightarrow> Client_disconnected p \<in> set ?es \<and> (i, p) \<notin> set (allClients s'))"
    using must IH(3) by (auto simp: serve_log_def s1)
  have "srv_log s' = srv_log s @ ?es" "addingClients s' = addingClients s" using IH(2,4) by (simp_all add: s1)
  moreover have "\<forall>(j, q)\<in>set (ip # L). (hasNewData (srv_heap s q) \<longrightarrow> Client_received q \<in> set ?es)
      \<and> (isClosing (srv_heap s q) \<or> idle now s q \<longrightarrow> Client_disconnected q \<in> set ?es \<and> (j, q) \<notin> set (allClients s'))"
    unfolding ip using first others by (auto simp del: set_append)
  ultimately show ?case using IH(1) subset_trans [OF IH(3) sub] by blast
qed

lemma serves_turns:
  assumes cb: "tame_callbacks cb"
  shows "runE (serve E cb now sends) L s = Inr s' \<Longrightarrow> turns now L s s'"
proof (induction L arbitrary: s)
  case Nil
  then show ?case by (auto intro: No_turn)
next
  case (Cons ip L)
  obtain i p where ip: "ip = (i, p)" by fastforce
  with Cons.prems obtain t where "serve E cb now sends (i, p) s = Inr t"
    and "runE (serve E cb now sends) L t = Inr s'" by (auto simp: bindE_eq_Inr)
  with Cons.IH serve_turn [OF cb] show ?case unfolding ip by (meson Next_turn)
qed

lemma admits_life:
  assumes cb: "tame_callbacks cb"
  shows "life_inv (ps @ qs) s \<Longrightarrow> runE (admit cb) ps s = Inr s' \<Longrightarrow> life_inv qs s'"
proof (induction ps arbitrary: s)
  case Nil
  then show ?case by simp
next
  case (Cons p ps)
  then obtain s1 where 1: "admit cb p s = Inr s1" and r: "runE (admit cb) ps s1 = Inr s'"
    by (auto simp: bindE_eq_Inr)
  have "life_inv (ps @ qs) s1" using admit_life [OF _ cb 1] Cons.prems(1) by simp
  with r Cons.IH show ?case by blast
qed

text \<open>Admitting the waiting clients changes nothing for those that are there.\<close>

lemma admit_old:
  assumes cb: "tame_callbacks cb" and a: "admit cb p s = Inr s'" and q: "q \<noteq> p"
  shows "calm (srv_heap s q) (srv_heap s' q)" and "set (allClients s) \<subseteq> set (allClients s')"
    and "kickTime s' = kickTime s" and "\<exists>es. srv_log s' = srv_log s @ es" and "addingClients s' = addingClients s"
proof -
  from admit_eq [OF cb a] obtain i h where
    h: "\<forall>q. calm (((srv_heap s)(p := (srv_heap s p)\<lparr>c_id := i\<rparr>)) q) (h q)"
    and s': "s' = s\<lparr>nextID := i, srv_heap := h, srv_log := srv_log s @ [Client_connected p],
             allClients := (i, p) # allClients s\<rparr>" by blast
  show "calm (srv_heap s q) (srv_heap s' q)" using h [rule_format, of q] q by (simp add: s')
  show "set (allClients s) \<subseteq> set (allClients s')" "kickTime s' = kickTime s"
    "\<exists>es. srv_log s' = srv_log s @ es" "addingClients s' = addingClients s"
    by (auto simp: s')
qed

lemma admits_old:
  assumes cb: "tame_callbacks cb"
  shows "runE (admit cb) ps s = Inr s' \<Longrightarrow>
    (\<forall>q. q \<notin> set ps \<longrightarrow> calm (srv_heap s q) (srv_heap s' q)) \<and> set (allClients s) \<subseteq> set (allClients s')
    \<and> kickTime s' = kickTime s \<and> (\<exists>es. srv_log s' = srv_log s @ es) \<and> addingClients s' = addingClients s"
proof (induction ps arbitrary: s)
  case Nil
  then show ?case by simp
next
  case (Cons p ps)
  then obtain s1 where a: "admit cb p s = Inr s1" and r: "runE (admit cb) ps s1 = Inr s'"
    by (auto simp: bindE_eq_Inr)
  note IH = Cons.IH [OF r] and o = admit_old(2-) [OF cb a, of "Suc p", simplified]
  have "calm (srv_heap s q) (srv_heap s' q)" if "q \<notin> set (p # ps)" for q
    using calm_trans [OF admit_old(1) [OF cb a, of q]] IH that by auto
  moreover have "set (allClients s) \<subseteq> set (allClients s')" using IH o(1) by blast
  moreover have "kickTime s' = kickTime s" "addingClients s' = addingClients s" using IH o(2,4) by simp_all
  moreover have "\<exists>es. srv_log s' = srv_log s @ es" using IH o(3) by auto
  ultimately show ?case by blast
qed

lemma update_turns:
  assumes cb: "tame_callbacks cb" and inv: "life_inv (addingClients s) s"
    and sh: "\<forall>xs. mset (shuffle xs) = mset xs" and a: "runE (admit cb) (addingClients s) s = Inr s1"
    and r: "turns now (shuffle (allClients s1)) (s1\<lparr>addingClients := []\<rparr>) s3"
    and s': "s' = s3\<lparr>numClients := word_of_nat (length (allClients s3))\<rparr>"
  shows "life_inv (addingClients s') s' \<and> addingClients s' = []
    \<and> numClients s' = word_of_nat (length (allClients s'))
    \<and> (\<exists>es. srv_log s' = srv_log s @ es
         \<and> (\<forall>(i, p)\<in>set (allClients s). (hasNewData (srv_heap s p) \<longrightarrow> Client_received p \<in> set es)
              \<and> (isClosing (srv_heap s p) \<or> idle now s p
                    \<longrightarrow> Client_disconnected p \<in> set es \<and> (i, p) \<notin> set (allClients s'))))"
proof -
  let ?s2 = "s1\<lparr>addingClients := []\<rparr>"
  have i1: "life_inv [] s1" using admits_life [OF cb, of "addingClients s" "[]" s s1] inv a by simp
  then have i2: "life_inv [] ?s2" by (rule life_inv_cong [rotated 4]) simp_all
  note old = admits_old [OF cb a]
  have st: "set (shuffle (allClients s1)) = set (allClients s1)"
    using arg_cong [OF sh [rule_format, of "allClients s1"], of set_mset] by simp
  have d: "distinct (map fst (shuffle (allClients s1)))" "distinct (map snd (shuffle (allClients s1)))"
  proof -
    have "mset (map f (shuffle (allClients s1))) = mset (map f (allClients s1))"
      for f :: "u16 \<times> nat \<Rightarrow> 'x" using sh by simp
    then have "distinct (map f (shuffle (allClients s1))) \<longleftrightarrow> distinct (map f (allClients s1))"
      for f :: "u16 \<times> nat \<Rightarrow> 'x" by (rule mset_eq_imp_distinct_iff)
    with i1 show "distinct (map fst (shuffle (allClients s1)))" "distinct (map snd (shuffle (allClients s1)))"
      by (simp_all add: life_inv_def sh mset_eq_imp_distinct_iff [of "map _ (shuffle _)" "map _ (allClients s1)"])
  qed
  have "set (shuffle (allClients s1)) \<subseteq> set (allClients ?s2)" using st by simp
  from turns_ok [OF r i2 d this] obtain es where
    3: "life_inv [] s3" "addingClients s3 = []" "srv_log s3 = srv_log s1 @ es"
    "\<forall>(i, p)\<in>set (allClients s1). (hasNewData (srv_heap s1 p) \<longrightarrow> Client_received p \<in> set es)
       \<and> (isClosing (srv_heap s1 p) \<or> idle now ?s2 p
             \<longrightarrow> Client_disconnected p \<in> set es \<and> (i, p) \<notin> set (allClients s3))"
    unfolding st by auto
  from old obtain es0 where l: "srv_log s1 = srv_log s @ es0" by blast
  have "life_inv [] s'" using 3(1) by (rule life_inv_cong [rotated 4]) (simp_all add: s')
  moreover have "(hasNewData (srv_heap s p) \<longrightarrow> Client_received p \<in> set (es0 @ es))
      \<and> (isClosing (srv_heap s p) \<or> idle now s p
            \<longrightarrow> Client_disconnected p \<in> set (es0 @ es) \<and> (i, p) \<notin> set (allClients s'))"
    if m: "(i, p) \<in> set (allClients s)" for i p
  proof -
    have "p \<notin> set (addingClients s)" using inv m by (force simp: life_inv_def)
    then have c: "calm (srv_heap s p) (srv_heap s1 p)" using old by blast
    then have "idle now ?s2 p = idle now s p" using old by (auto simp: idle_def calm_def)
    with c 3(4) old m show ?thesis by (auto simp: calm_def s')
  qed
  moreover have "srv_log s' = srv_log s @ (es0 @ es)" using l 3(3) by (simp add: s')
  ultimately show ?thesis using 3(2) by (auto simp: s')
qed

lemma update_parts:
  assumes cb: "tame_callbacks cb" and inv: "life_inv (addingClients s) s"
    and sh: "\<forall>xs. mset (shuffle xs) = mset xs" and u: "srv_update E cb shuffle now sends s = Inr s'"
  shows "life_inv (addingClients s') s' \<and> addingClients s' = []
    \<and> numClients s' = word_of_nat (length (allClients s'))
    \<and> (\<exists>es. srv_log s' = srv_log s @ es
         \<and> (\<forall>(i, p)\<in>set (allClients s). (hasNewData (srv_heap s p) \<longrightarrow> Client_received p \<in> set es)
              \<and> (isClosing (srv_heap s p) \<or> idle now s p
                    \<longrightarrow> Client_disconnected p \<in> set es \<and> (i, p) \<notin> set (allClients s'))))"
proof -
  from u obtain s1 s3 where a: "runE (admit cb) (addingClients s) s = Inr s1"
    and r: "runE (serve E cb now sends) (shuffle (allClients s1)) (s1\<lparr>addingClients := []\<rparr>) = Inr s3"
    and s': "s' = s3\<lparr>numClients := word_of_nat (length (allClients s3))\<rparr>"
    unfolding srv_update_def by (auto simp: bindE_eq_Inr Let_def)
  from update_turns [OF cb inv sh a serves_turns [OF cb r] s'] show ?thesis .
qed

section \<open>Runs of a server\<close>

inductive srv_step :: "env \<Rightarrow> callbacks \<Rightarrow> server \<Rightarrow> server \<Rightarrow> bool" for E cb where
  Init: "srv_step E cb s (snd (srv_init hasCreate mx kick s))"
| Listen: "srv_step E cb s (snd (startListen r s))"
| Event: "process_event E c0 now evt s = Inr s' \<Longrightarrow> srv_step E cb s s'"
| Update: "\<forall>xs. mset (shuffle xs) = mset xs \<Longrightarrow> srv_update E cb shuffle now sends s = Inr s' \<Longrightarrow>
    srv_step E cb s s'"
| Kick: "srv_step E cb s (snd (kickClient i s))"
| Send: "srv_send E p xs s = Inr s' \<Longrightarrow> srv_step E cb s s'"

lemma srv_step_life:
  assumes cb: "tame_callbacks cb"
  shows "srv_step E cb s s' \<Longrightarrow> life_inv (addingClients s) s \<Longrightarrow> life_inv (addingClients s') s'"
proof (induction rule: srv_step.induct)
  case (Init s hasCreate mx kick)
  then show ?case
    using life_inv_cong [of "snd (srv_init hasCreate mx kick s)" s] by (auto simp: srv_init_def)
next
  case (Listen s r)
  then show ?case
    using life_inv_cong [of "snd (startListen r s)" s]
    by (auto simp: startListen_def Let_def split: option.splits)
next
  case (Event c0 now evt s s')
  then show ?case using process_event_life by blast
next
  case (Update shuffle now sends s s')
  then show ?case using update_parts [OF cb] by blast
next
  case (Kick s i)
  then show ?case
    using life_inv_cong [of "snd (kickClient i s)" s]
    by (auto simp: kickClient_def set_client_def split: option.splits)
next
  case (Send p xs s s')
  then show ?case
    using life_inv_cong [of s' s] by (auto simp: srv_send_def set_client_def bindE_eq_Inr)
qed

lemma reachable_life:
  assumes "tame_callbacks cb" and "(srv_step E cb)\<^sup>*\<^sup>* (server_new h) s"
  shows "life_inv (addingClients s) s"
  using assms(2)
proof (induction rule: rtranclp_induct)
  case base
  show ?case using life_inv_new by (simp add: server_new_def)
next
  case (step s s')
  with srv_step_life [OF assms(1)] show ?case by blast
qed

text \<open>What the invariant says of one client.\<close>

lemma life_inv_lives:
  assumes inv: "life_inv (addingClients s) s"
  shows "phase_of s p \<in> {Unseen, Up, Gone} \<and> (phase_of s p = Up \<longleftrightarrow> p \<in> snd ` set (allClients s))
    \<and> (p \<in> set (addingClients s) \<longrightarrow> phase_of s p = Unseen)
    \<and> ((i, p) \<in> set (allClients s) \<longrightarrow> c_id (srv_heap s p) = i \<and> getClient i s = Some p)"
proof -
  have d: "distinct (map fst (allClients s))" and dis: "set (map snd (allClients s)) \<inter> set (addingClients s) = {}"
    and ph: "if p \<in> snd ` set (allClients s) then p < next_ptr s \<and> phase_of s p = Up
            else if p \<in> set (addingClients s) then p < next_ptr s \<and> phase_of s p = Unseen
            else phase_of s p = (if p < next_ptr s then Gone else Unseen)"
    using inv by (auto simp: life_inv_def)
  have "(i, p) \<in> set (allClients s) \<longrightarrow> c_id (srv_heap s p) = i \<and> getClient i s = Some p"
    using life_inv_alive(3) [OF inv] d by (auto simp: getClient_def)
  with ph dis show ?thesis by (auto split: if_splits)
qed

section \<open>Properties\<close>

text \<open>C22. In every run of a server, whatever the network does and whichever clients the
  callbacks kick, each client is announced once, receives only afterwards and before it is destroyed,
  and is destroyed and reported as disconnected once; the clients in that middle phase are exactly
  those in the map, each under its own id, and no two of them share an id.\<close>

theorem srv_client_life:
  assumes "tame_callbacks cb" and "(srv_step E cb)\<^sup>*\<^sup>* (server_new h) s"
  shows "phase_of s p \<in> {Unseen, Up, Gone} \<and> (phase_of s p = Up \<longleftrightarrow> p \<in> snd ` set (allClients s))
    \<and> (p \<in> set (addingClients s) \<longrightarrow> phase_of s p = Unseen)
    \<and> ((i, p) \<in> set (allClients s) \<longrightarrow> c_id (srv_heap s p) = i \<and> getClient i s = Some p)"
  using life_inv_lives [OF reachable_life [OF assms]] by blast

text \<open>A run for the witnesses: one client is accepted and admitted, with callbacks that do nothing.\<close>

definition no_callbacks :: callbacks where
  "no_callbacks = \<lparr>onClientConnected = \<lambda>p s. s, onRecv = \<lambda>p s. s, onClientDestroyed = \<lambda>p s. s,
                   onDisconnected = \<lambda>p s. s\<rparr>"

lemma no_callbacks_tame: "tame_callbacks no_callbacks"
proof -
  have "tame (\<lambda>p s. s)"
    unfolding tame_def
  proof (intro allI)
    fix s :: server
    show "\<exists>h. s = s\<lparr>srv_heap := h\<rparr> \<and> (\<forall>q. calm (srv_heap s q) (h q))"
      by (rule exI [of _ "srv_heap s"]) simp
  qed
  then show ?thesis by (simp add: tame_callbacks_def no_callbacks_def)
qed

abbreviation fresh_client :: net_client where
  "fresh_client \<equiv> client_init tiny_buffer tiny_buffer"

definition accepted_server :: server where
  "accepted_server = accept_one fresh_client 5 7 (snd (srv_init True 10 100 (server_new (\<lambda>p. fresh_client))))"

definition admitted :: server where
  "admitted = accepted_server\<lparr>nextID := 1, numClients := 1, allClients := [(1, 0)], addingClients := [],
     srv_heap := (\<lambda>p. fresh_client)(0 := fresh_client\<lparr>c_id := 1, c_server := True, lastActiveTime := 5,
       c_socket := 7\<rparr>), srv_log := [Client_connected 0]\<rparr>"

lemma tiny_flush: "writeFromBuffer E [] c = Inr ([], c)" if "c_writer c = tiny_buffer"
  using that by (simp add: writeFromBuffer_def cutHead_def tiny_buffer_def)

lemma admitted_next: "next_id [] 0 = Some 1"
  by (simp add: next_id.simps)

lemma admitted_update: "srv_update E no_callbacks (\<lambda>xs. xs) 5 (\<lambda>p. []) accepted_server = Inr admitted"
  by (simp add: srv_update_def admit_def serve_def serve_news_def serve_end_def accepted_server_def accept_one_def addClient_def
      srv_init_def server_new_def getNextClientID_def admitted_next no_callbacks_def log_def
      set_client_def client_init_def tiny_flush admitted_def Let_def)

lemma admitted_reachable:
  "(srv_step E no_callbacks)\<^sup>*\<^sup>* (server_new (\<lambda>p. fresh_client)) admitted"
proof -
  let ?h = "\<lambda>p :: nat. fresh_client"
  let ?s1 = "snd (srv_init True 10 100 (server_new ?h))"
  have 1: "srv_step E no_callbacks (server_new ?h) ?s1" by (rule Init)
  have "process_event E fresh_client 5 \<lparr>e_source = Listen_socket, EPOLLIN = True, EPOLLOUT = False,
      EPOLLRDHUP = False, e_accepted = [7], e_recvs = [], e_sends = []\<rparr> ?s1 = Inr accepted_server"
    by (simp add: process_event_def accepted_server_def)
  then have 2: "srv_step E no_callbacks ?s1 accepted_server" by (rule Event)
  have 3: "srv_step E no_callbacks accepted_server admitted"
    by (rule Update [OF _ admitted_update]) simp
  from 1 2 3 show ?thesis by (meson converse_rtranclp_into_rtranclp rtranclp.rtrancl_refl)
qed

theorem srv_client_life_witness:
  "\<exists>s. (srv_step small_env no_callbacks)\<^sup>*\<^sup>* (server_new (\<lambda>p. fresh_client)) s
     \<and> phase_of s 0 = Up \<and> c_id (srv_heap s 0) = 1 \<and> getClient 1 s = Some 0"
proof -
  have "allClients admitted = [(1, 0)]" by (simp add: admitted_def)
  with srv_client_life [OF no_callbacks_tame admitted_reachable, of 0 1] admitted_reachable show ?thesis
    by auto
qed



text \<open>C38. As long as fewer than 2^16 clients are connected, \<^verbatim>\<open>getNextClientID\<close>
  returns, with an id that no connected client has; with all 2^16 ids in use it never returns.\<close>

theorem srv_next_id:
  assumes "distinct (map fst (allClients s))"
  shows "if length (allClients s) < 2 ^ 16
    then \<exists>i. getNextClientID s = Inr (i, s\<lparr>nextID := i\<rparr>) \<and> getClient i s = None
    else getNextClientID s = Inl Diverges"
proof (cases "length (allClients s) < 2 ^ 16")
  case True
  have "card (fst ` set (allClients s)) \<le> length (allClients s)"
    by (metis card_length length_map list.set_map)
  moreover have "card (UNIV :: u16 set) = 2 ^ 16" by (simp add: card_word)
  ultimately have "fst ` set (allClients s) \<noteq> UNIV" using True by auto
  then obtain j where "map_of (allClients s) j = None" by (auto simp: map_of_eq_None_iff)
  from next_id_free [OF this, of "nextID s"] True show ?thesis
    by (auto simp: getNextClientID_def getClient_def)
next
  case False
  have "card (fst ` set (allClients s)) = length (allClients s)"
    using distinct_card [OF assms] by simp
  moreover have "card (UNIV :: u16 set) = 2 ^ 16" by (simp add: card_word)
  ultimately have "fst ` set (allClients s) = UNIV"
    using False card_mono [OF finite, of "fst ` set (allClients s)" "UNIV :: u16 set"]
    by (intro card_subset_eq) auto
  then have "map_of (allClients s) j \<noteq> None" for j by (simp add: map_of_eq_None_iff)
  then have "next_id (allClients s) (nextID s) \<noteq> Some j" for j
    using next_id_unused [of "allClients s" "nextID s" j] by metis
  then have "next_id (allClients s) (nextID s) = None" by (metis not_None_eq)
  with False show ?thesis by (simp add: getNextClientID_def)
qed

theorem srv_next_id_witness:
  "\<exists>i. getNextClientID ((server_new (\<lambda>p. fresh_client))\<lparr>allClients := [(1, 5)]\<rparr>)
     = Inr (i, (server_new (\<lambda>p. fresh_client))\<lparr>allClients := [(1, 5)], nextID := i\<rparr>) \<and> i \<noteq> 1"
proof -
  let ?s = "(server_new (\<lambda>p. fresh_client))\<lparr>allClients := [(1, 5)]\<rparr>"
  have "distinct (map fst (allClients ?s))" by simp
  from srv_next_id [OF this] obtain i where
    "getNextClientID ?s = Inr (i, ?s\<lparr>nextID := i\<rparr>)" "getClient i ?s = None" by auto
  then show ?thesis by (auto simp: getClient_def split: if_splits)
qed

text \<open>C32. \<^verbatim>\<open>writeFromBuffer\<close>, which both threads call, sends a front part of the bytes
  that wait and keeps exactly the others; it empties the buffer when the socket takes all that it is
  offered, and marks the client as closing only for an error of the socket.\<close>

theorem srv_flush_conserves:
  assumes "ba_inv (c_writer c)" and "ba_writePos (c_writer c) < 2 ^ 31"
  shows "\<exists>sent c'. writeFromBuffer E rs c = Inr (sent, c') \<and> ba_inv (c_writer c')
    \<and> ba_unread (c_writer c) = sent @ ba_unread (c_writer c') \<and> c_reader c' = c_reader c
    \<and> (isClosing c' \<longrightarrow> isClosing c \<or> Send_error \<in> set rs)
    \<and> ((\<forall>r\<in>set rs. \<exists>k. r = Sent k \<and> BUFFER_SIZE \<le> k)
         \<and> length (ba_unread (c_writer c)) \<le> length rs * BUFFER_SIZE \<longrightarrow> ba_unread (c_writer c') = [])"
proof (cases "readAvailable (c_writer c) mod 2 ^ 32 = 0")
  case True
  then have "readAvailable (c_writer c) = 0" using assms by (simp add: readAvailable_eq)
  then have "ba_unread (c_writer c) = []" using length_ba_unread [OF assms(1)] by simp
  with True assms(1) show ?thesis
    by (intro exI [of _ "[]"] exI [of _ c]) (simp add: writeFromBuffer_def)
next
  case False
  from flush_loop_ok [OF assms, of rs "[]"] obtain xs c1 where
    f: "flush_loop rs [] c = Inr (xs, c1)" "ba_inv (c_writer c1)"
      "ba_unread (c_writer c) = xs @ ba_unread (c_writer c1)" "c_reader c1 = c_reader c"
      "isClosing c1 \<longrightarrow> isClosing c \<or> Send_error \<in> set rs"
      "(\<forall>r\<in>set rs. \<exists>k. r = Sent k \<and> BUFFER_SIZE \<le> k)
         \<longrightarrow> length (ba_unread (c_writer c)) \<le> length rs * BUFFER_SIZE \<longrightarrow> ba_unread (c_writer c1) = []"
    by auto
  from cutHead_read_part [OF f(2), of E False] obtain b where
    b: "cutHead E (ba_readPos (c_writer c1)) False (c_writer c1) = Inr ([], b)" "ba_inv b"
      "ba_unread b = ba_unread (c_writer c1)" by auto
  have "writeFromBuffer E rs c = Inr (xs, c1\<lparr>c_writer := b\<rparr>)"
    using False f(1) b(1) by (simp add: writeFromBuffer_def)
  with f b show ?thesis by (intro exI [of _ xs] exI [of _ "c1\<lparr>c_writer := b\<rparr>"]) auto
qed

theorem srv_flush_conserves_witness:
  "\<exists>c'. writeFromBuffer small_env [Sent 5000] fresh_client = Inr ([1, 2, 3], c') \<and> ba_unread (c_writer c') = []"
proof -
  have b: "c_writer fresh_client = tiny_buffer" by (simp add: client_init_def)
  have "ba_inv (c_writer fresh_client)" "ba_writePos (c_writer fresh_client) < 2 ^ 31"
    unfolding b using tiny_buffer_open(2) by (simp_all add: tiny_buffer_def)
  from srv_flush_conserves [OF this, of small_env "[Sent 5000]"] show ?thesis
    unfolding b tiny_buffer_open(3) by (auto simp: BUFFER_SIZE_def)
qed

section \<open>Corner cases\<close>

text \<open>An event for a client that \<^verbatim>\<open>update\<close> has destroyed since \<^verbatim>\<open>epoll_wait\<close>
  returned it is handled all the same.\<close>

lemma stale_event:
  assumes "e_source evt = Client_ptr p" and "EPOLLIN evt" and "\<not> alive s p"
  shows "process_event E c0 now evt s = Inl Undefined_behaviour"
  using assms by (simp add: process_event_def on_client_def)

text \<open>The count that limits the connections is brought up to date by \<^verbatim>\<open>update\<close> only.\<close>

lemma accept_burst:
  "numClients s < maxConnection s \<Longrightarrow>
     length (addingClients (fold (accept_one c0 now) socks s)) = length (addingClients s) + length socks"
proof (induction socks arbitrary: s)
  case Nil
  then show ?case by simp
next
  case (Cons sock socks)
  then have a: "accept_one c0 now sock s = addClient c0 now sock s" by (simp add: accept_one_def)
  have "numClients (addClient c0 now sock s) < maxConnection (addClient c0 now sock s)"
    using Cons.prems by (simp add: addClient_def set_client_def Let_def)
  from Cons.IH [OF this] show ?case by (simp add: a) (simp add: addClient_def set_client_def Let_def)
qed

text \<open>A server that was never started closes descriptor 0 three times.\<close>

lemma cleanup_unstarted:
  "shuffle [] = [] \<Longrightarrow> srv_log (cleanup cb shuffle (server_new h)) = [Closed_fd 0, Closed_fd 0, Closed_fd 0]"
  by (simp add: cleanup_def server_new_def log_def Let_def)

text \<open>Sending an array is sending its content.\<close>

lemma srv_send_packet_eq:
  assumes "ba_inv packet"
  shows "srv_send_packet E p packet s = srv_send E p (contents packet) s"
  using writeData_contents [OF assms] by (simp add: srv_send_packet_def srv_send_def ba_shl_array_def)

text \<open>A turn without data marks the client as having some.\<close>

lemma read_nothing:
  "\<not> isClosing c \<Longrightarrow> readIntoBuffer E [Recv_would_block] c = Inr (c\<lparr>hasNewData := True\<rparr>)"
  by (simp add: readIntoBuffer_def)

text \<open>When a listening socket cannot be bound, its descriptor stays open.\<close>

lemma listen_leaks:
  assumes "0 \<le> r_socket r" and "r_setsockopt r = 0" and "r_bind r < 0"
  shows "startListen r s = (False, s\<lparr>listenSocket := r_socket r\<rparr>)"
  using assms by (simp add: startListen_def Let_def)

end
