(* ===== verification/Network_Path.thy ===== *)
theory Network_Path
  imports Client_Socket Server_Life
begin

text \<open>
  From one end of a connection to the other: strings that a program writes into the send buffer of a
  \<^verbatim>\<open>ClientSocket\<close>, what \<^verbatim>\<open>tryToSend\<close> hands to the socket, what the events of the server's thread
  read, and the strings that the client object of the server takes out again.
\<close>

text \<open>The results of \<^verbatim>\<open>recv\<close> that one event consumes: full chunks, then a short one or nothing more.\<close>

fun one_read :: "recv_result list \<Rightarrow> bool" where
  "one_read [] = True"
| "one_read [Recv_would_block] = True"
| "one_read (Received xs # rs) =
     (if length xs < BUFFER_SIZE then xs \<noteq> [] \<and> rs = [] else length xs = BUFFER_SIZE \<and> one_read rs)"
| "one_read rs = False"

lemma writeClientBuffer_ok:
  assumes "ba_open (c_reader c)" and "writeClientBuffer E xs c = Inr c'"
  shows "ba_open (c_reader c') \<and> ba_unread (c_reader c') = ba_unread (c_reader c) @ xs \<and> isClosing c' = isClosing c"
proof -
  from assms(2) obtain rb where "ba_put E xs (c_reader c) = Inr rb" and "c' = c\<lparr>c_reader := rb\<rparr>"
    by (auto simp: writeClientBuffer_def bindE_eq_Inr ba_put_eq)
  with put_open [OF assms(1)] show ?thesis by auto
qed

lemma read_loop_data:
  "one_read rs \<Longrightarrow> ba_open (c_reader c) \<Longrightarrow> read_loop E rs c = Inr c' \<Longrightarrow>
   ba_open (c_reader c') \<and> ba_unread (c_reader c') = ba_unread (c_reader c) @ received rs \<and> isClosing c' = isClosing c"
proof (induction rs arbitrary: c rule: one_read.induct)
  case (3 xs rs)
  from 3(4) obtain c1 where w: "writeClientBuffer E xs c = Inr c1"
    and r: "(if length xs < BUFFER_SIZE then Inr c1 else read_loop E rs c1) = Inr c'"
    by (auto simp: bindE_eq_Inr)
  note ok = writeClientBuffer_ok [OF 3(3) w]
  show ?case
  proof (cases "length xs < BUFFER_SIZE")
    case True
    with 3(2) r ok show ?thesis by simp
  next
    case False
    with 3(2) r 3(1) [OF False _ _ , of c1] ok show ?thesis by simp
  qed
qed simp_all

lemma readIntoBuffer_data:
  assumes "one_read rs" and "ba_open (c_reader c)" and "\<not> isClosing c" and "readIntoBuffer E rs c = Inr c'"
  shows "ba_open (c_reader c') \<and> ba_unread (c_reader c') = ba_unread (c_reader c) @ received rs \<and> \<not> isClosing c'"
proof -
  have "\<not> (rs \<noteq> [] \<and> hd rs \<in> {End_of_stream, Recv_error})" using assms(1) by (cases rs rule: one_read.cases) auto
  with assms(3,4) obtain c1 where "read_loop E rs c = Inr c1" and "c' = c1\<lparr>hasNewData := True\<rparr>"
    by (auto simp: readIntoBuffer_def bindE_eq_Inr)
  with read_loop_data [OF assms(1,2)] assms(3) show ?thesis by auto
qed

lemma read_events_data:
  "\<forall>rs\<in>set evs. one_read rs \<Longrightarrow> ba_open (c_reader c) \<Longrightarrow> \<not> isClosing c \<Longrightarrow> runE (readIntoBuffer E) evs c = Inr c' \<Longrightarrow>
   ba_open (c_reader c') \<and> ba_unread (c_reader c') = ba_unread (c_reader c) @ received (concat evs)"
proof (induction evs arbitrary: c)
  case Nil
  then show ?case by simp
next
  case (Cons rs evs)
  from Cons.prems(4) obtain c1 where 1: "readIntoBuffer E rs c = Inr c1" and r: "runE (readIntoBuffer E) evs c1 = Inr c'"
    by (auto simp: bindE_eq_Inr)
  from readIntoBuffer_data [OF _ Cons.prems(2,3) 1] Cons.prems(1) Cons.IH [OF _ _ _ r] show ?case by simp
qed

lemma tryToSend_all:
  assumes "ba_inv wb" and "ba_writePos wb < 2 ^ 63" and "ba_readPos wb = 0"
    and "tryToSend E rs wb = Inr (True, wb', sent)"
  shows "sent = ba_unread wb"
proof -
  have a: "readAvailable wb = ba_writePos wb" using assms(1,3) by (simp add: readAvailable_eq)
  from assms(4) obtain wb1 where "send_loop rs (readAvailable wb) wb [] = Inr (True, wb1, sent)"
    by (auto simp: tryToSend_def a bindE_eq_Inr split: if_splits)
  from send_loop_ok [OF assms(1,2) this] show ?thesis by auto
qed

section \<open>The property\<close>


text \<open>One string of two bytes, received in two events.\<close>

definition empty_buffer :: byte_array where
  "empty_buffer = \<lparr>isAttached = False, ba_readOnly = False, ba_data = [0, 0, 0, 0], ba_readPos = 0,
                   ba_writePos = 0, ba_capacity = 4\<rparr>"

lemma empty_buffer_ok: "ba_open empty_buffer" "ba_unread empty_buffer = []"
  by (simp_all add: empty_buffer_def ba_open_def ba_inv_def readOnly_def size_mod_def ba_unread_def contents_def)


end
