(* ===== verification/Server_Windows.thy ===== *)
theory Server_Windows
  imports Server_Life Event_Dispatch
begin

text \<open>
  The Windows version of \<^verbatim>\<open>ServerSocket\<close>: completion ports. The part that all platforms share is
  the record \<open>w_base\<close>. An \<^verbatim>\<open>OverlappedData\<close> has an address; it is in the pool, among the posted ones,
  or destroyed. A completion, as \<^verbatim>\<open>GetQueuedCompletionStatus\<close> returns it, says what the system has
  transferred; the results of \<^verbatim>\<open>WSARecv\<close> and \<^verbatim>\<open>WSASend\<close> are ignored by the code.
\<close>

section \<open>State\<close>

datatype socket_operation = ACCEPT | RECEIVE | SEND | CLOSE_SERVER

record overlapped =
  od_ptr :: nat
  od_buffer :: bytes
  od_len :: nat
  od_operation :: socket_operation
  od_accept :: int

record win_server =
  w_base :: server
  ioDataPool :: "overlapped option list"
  ioDataPosted :: "overlapped list"
  next_od :: nat
  eventThreads :: nat
  completionPort :: "int option"

definition od_new :: "nat \<Rightarrow> overlapped" where
  "od_new a = \<lparr>od_ptr = a, od_buffer = replicate BUFFER_SIZE 0, od_len = 0, od_operation = ACCEPT, od_accept = 0\<rparr>"

text \<open>The pool is filled with 200 objects.\<close>

definition win_new :: "(nat \<Rightarrow> net_client) \<Rightarrow> win_server" where
  "win_new h = \<lparr>w_base = server_new h, ioDataPool = pool_new od_new 200, ioDataPosted = [],
     next_od = 200, eventThreads = 0, completionPort = None\<rparr>"

definition on_base :: "(server \<Rightarrow> server) \<Rightarrow> win_server \<Rightarrow> win_server" where
  "on_base f w = w\<lparr>w_base := f (w_base w)\<rparr>"

text \<open>Writing through a pointer to a posted object.\<close>

definition set_posted :: "nat \<Rightarrow> (overlapped \<Rightarrow> overlapped) \<Rightarrow> win_server \<Rightarrow> win_server" where
  "set_posted a f w = w\<lparr>ioDataPosted := map (\<lambda>d. if od_ptr d = a then f d else d) (ioDataPosted w)\<rparr>"

definition posted :: "nat \<Rightarrow> win_server \<Rightarrow> overlapped option" where
  "posted a w = find (\<lambda>d. od_ptr d = a) (ioDataPosted w)"

section \<open>Overlapped data\<close>

definition initOverlappedData :: "socket_operation \<Rightarrow> nat \<Rightarrow> int \<Rightarrow> overlapped \<Rightarrow> overlapped" where
  "initOverlappedData op sz sock d =
     d\<lparr>od_buffer := replicate BUFFER_SIZE 0, od_len := sz, od_operation := op, od_accept := sock\<rparr>"

definition createOverlappedData ::
    "socket_operation \<Rightarrow> nat \<Rightarrow> int \<Rightarrow> win_server \<Rightarrow> error + nat \<times> win_server" where
  "createOverlappedData op sz sock w =
     (let (obj, pool) = pool_alloc (od_new (next_od w)) (ioDataPool w);
          w1 = (if ioDataPool w = [] then w\<lparr>next_od := Suc (next_od w)\<rparr> else w)
      in case obj of
           None \<Rightarrow> Inl Undefined_behaviour
         | Some d \<Rightarrow> Inr (od_ptr d, w1\<lparr>ioDataPool := pool,
                          ioDataPosted := ioDataPosted w @ [initOverlappedData op sz sock d]\<rparr>))"

text \<open>The destructor closes the socket of the object.\<close>

definition od_destroy :: "overlapped \<Rightarrow> server \<Rightarrow> server" where
  "od_destroy d s = (if od_accept d \<noteq> 0 then log [Closed_fd (od_accept d)] s else s)"

definition releaseOverlappedData :: "nat \<Rightarrow> win_server \<Rightarrow> win_server" where
  "releaseOverlappedData a w =
     (case posted a w of
        None \<Rightarrow> w
      | Some d \<Rightarrow>
          let (left, pool) = pool_free 2000 (Some d) (ioDataPool w);
              w1 = w\<lparr>ioDataPool := pool, ioDataPosted := remove1 d (ioDataPosted w)\<rparr>
          in case left of None \<Rightarrow> w1 | Some d1 \<Rightarrow> on_base (od_destroy d1) w1)"

text \<open>The new socket, and whether \<^verbatim>\<open>AcceptEx\<close> takes it.\<close>

definition postAcceptEx :: "int \<times> bool \<Rightarrow> win_server \<Rightarrow> error + int \<times> win_server" where
  "postAcceptEx r w =
     bindE (createOverlappedData ACCEPT BUFFER_SIZE (fst r) w) (\<lambda>(a, w1).
       Inr (if snd r then 0 else - 1, w1))"

definition postCloseServer :: "win_server \<Rightarrow> error + nat \<times> win_server" where
  "postCloseServer w = createOverlappedData CLOSE_SERVER BUFFER_SIZE 0 w"

text \<open>
  The result of \<^verbatim>\<open>WSAIoctl\<close>, the peer's address that \<^verbatim>\<open>GetAcceptExSockAddrs\<close> finds in the buffer, and
  the structure that it is copied to; a longer address is written past its end.
\<close>

definition getAcceptedSocketAddress :: "int \<Rightarrow> bytes option \<Rightarrow> bytes \<Rightarrow> error + int \<times> bytes" where
  "getAcceptedSocketAddress result remoteAddr addr =
     (if result = 0
      then (case remoteAddr of
          None \<Rightarrow> Inr (0, addr)
        | Some r \<Rightarrow> bindE (poke addr 0 r) (\<lambda>addr1. Inr (0, addr1)))
      else Inr (- 1, addr))"

text \<open>The caller ignores the result, and its structure is not initialised: whatever was there becomes the
  address of the client.\<close>

lemma unknown_address: "result \<noteq> 0 \<Longrightarrow> getAcceptedSocketAddress result r garbage = Inr (- 1, garbage)"
  by (simp add: getAcceptedSocketAddress_def)

lemma known_address:
  assumes "length r = length garbage"
  shows "getAcceptedSocketAddress 0 (Some r) garbage = Inr (0, r)"
  using assms by (simp add: getAcceptedSocketAddress_def poke_ok)

section \<open>The event threads\<close>

definition ERROR_NETNAME_DELETED :: nat where "ERROR_NETNAME_DELETED = 64"
definition ERROR_CONNECTION_ABORTED :: nat where "ERROR_CONNECTION_ABORTED = 1236"

record completion =
  co_ok :: bool
  co_error :: nat
  co_bytes :: bytes
  co_client :: "nat option"
  co_data :: "nat option"
  co_accept :: "int \<times> bool"

definition deref_client ::
    "(net_client \<Rightarrow> error + net_client) \<Rightarrow> nat option \<Rightarrow> win_server \<Rightarrow> error + win_server" where
  "deref_client f p w =
     (case p of
        None \<Rightarrow> Inl Undefined_behaviour
      | Some q \<Rightarrow> bindE (on_client f (Client_ptr q) (w_base w)) (\<lambda>s. Inr (w\<lparr>w_base := s\<rparr>)))"

definition close_client :: "nat option \<Rightarrow> win_server \<Rightarrow> error + win_server" where
  "close_client = deref_client (\<lambda>c. Inr (c\<lparr>isClosing := True\<rparr>))"

definition win_accepted :: "net_client \<Rightarrow> u64 \<Rightarrow> completion \<Rightarrow> overlapped \<Rightarrow> win_server \<Rightarrow> error + win_server" where
  "win_accepted c0 now co d w =
     bindE (Inr (if numClients (w_base w) < maxConnection (w_base w)
        then set_posted (od_ptr d) (initOverlappedData RECEIVE BUFFER_SIZE 0)
               (on_base (addClient c0 now (od_accept d)) w)
        else releaseOverlappedData (od_ptr d) (on_base (log [Closed_fd (od_accept d)]) w))) (\<lambda>w1.
     bindE (postAcceptEx (co_accept co) w1) (\<lambda>(r, w2). Inr w2))"

definition win_received :: "env \<Rightarrow> completion \<Rightarrow> overlapped \<Rightarrow> win_server \<Rightarrow> error + win_server" where
  "win_received E co d w =
     (if co_bytes co = []
      then bindE (close_client (co_client co) w) (\<lambda>w1. Inr (releaseOverlappedData (od_ptr d) w1))
      else case co_client co of
             None \<Rightarrow> Inl Undefined_behaviour
           | Some p \<Rightarrow>
               if \<not> alive (w_base w) p then Inl Undefined_behaviour
               else if isClosing (srv_heap (w_base w) p) then Inr (releaseOverlappedData (od_ptr d) w)
               else bindE (deref_client (\<lambda>c. bindE (writeClientBuffer E (co_bytes co) c) (\<lambda>c1.
                             Inr (c1\<lparr>hasNewData := True\<rparr>))) (Some p) w) (\<lambda>w1.
                      Inr (set_posted (od_ptr d) (initOverlappedData RECEIVE BUFFER_SIZE 0) w1)))"

definition win_sent :: "completion \<Rightarrow> overlapped \<Rightarrow> win_server \<Rightarrow> error + win_server" where
  "win_sent co d w =
     (if co_bytes co = []
      then bindE (close_client (co_client co) w) (\<lambda>w1. Inr (releaseOverlappedData (od_ptr d) w1))
      else Inr (releaseOverlappedData (od_ptr d) w))"

text \<open>One turn of the loop: whether the thread returns, and the state after.\<close>

definition win_completion ::
    "env \<Rightarrow> net_client \<Rightarrow> u64 \<Rightarrow> completion \<Rightarrow> win_server \<Rightarrow> error + bool \<times> win_server" where
  "win_completion E c0 now co w =
     (if \<not> co_ok co
      then case co_data co of
             None \<Rightarrow> Inr (False, w)
           | Some a \<Rightarrow>
               bindE (if co_error co \<noteq> ERROR_CONNECTION_ABORTED then close_client (co_client co) w else Inr w)
                 (\<lambda>w1. Inr (False, releaseOverlappedData a w1))
      else case co_data co of
             None \<Rightarrow> Inl Undefined_behaviour
           | Some a \<Rightarrow>
               (case posted a w of
                  None \<Rightarrow> Inl Undefined_behaviour
                | Some d \<Rightarrow>
                    (case od_operation d of
                       ACCEPT \<Rightarrow> bindE (win_accepted c0 now co d w) (\<lambda>w1. Inr (False, w1))
                     | RECEIVE \<Rightarrow> bindE (win_received E co d w) (\<lambda>w1. Inr (False, w1))
                     | SEND \<Rightarrow> bindE (win_sent co d w) (\<lambda>w1. Inr (False, w1))
                     | CLOSE_SERVER \<Rightarrow> Inr (True, releaseOverlappedData a w))))"

text \<open>A thread on a list of completions; it waits at the end of the list.\<close>

fun win_event_thread ::
    "env \<Rightarrow> net_client \<Rightarrow> u64 \<Rightarrow> completion list \<Rightarrow> win_server \<Rightarrow> error + int option \<times> win_server" where
  "win_event_thread E c0 now [] w = Inr (None, w)"
| "win_event_thread E c0 now (co # cos) w =
     bindE (win_completion E c0 now co w) (\<lambda>(stop, w1).
       if stop then Inr (Some 0, w1) else win_event_thread E c0 now cos w1)"

section \<open>The main thread\<close>

text \<open>
  The loop of \<^verbatim>\<open>flushClient\<close>: every round reads at least one byte, so that the number of waiting
  bytes is enough fuel.
\<close>

fun win_send_loop :: "nat \<Rightarrow> nat \<Rightarrow> byte_array \<Rightarrow> win_server \<Rightarrow> error + byte_array \<times> win_server" where
  "win_send_loop 0 remain b w = Inl Diverges"
| "win_send_loop (Suc fuel) remain b w =
     (if remain = 0 then Inr (b, w)
      else bindE (createOverlappedData SEND BUFFER_SIZE 0 w) (\<lambda>(a, w1).
           bindE (ba_readData True BUFFER_SIZE b) (\<lambda>(xs, b1).
             let w2 = set_posted a (\<lambda>d. d\<lparr>od_buffer := xs @ drop (length xs) (od_buffer d), od_len := length xs\<rparr>) w1
             in if remain \<le> length xs then Inr (b1, w2)
                else win_send_loop fuel (readAvailable b1) b1 w2)))"

definition win_flushClient :: "env \<Rightarrow> nat \<Rightarrow> win_server \<Rightarrow> error + win_server" where
  "win_flushClient E p w =
     (let c = srv_heap (w_base w) p; b = set_readPosition 0 (c_writer c); remain = ba_writePos b in
      if remain = 0 then Inr (on_base (set_client p (c\<lparr>c_writer := b\<rparr>)) w)
      else bindE (win_send_loop (Suc remain) remain b w) (\<lambda>(b1, w1).
           bindE (ba_truncate E 0 b1) (\<lambda>b2.
             Inr (on_base (set_client p (c\<lparr>c_writer := b2\<rparr>)) w1))))"

definition win_serve ::
    "env \<Rightarrow> callbacks \<Rightarrow> u64 \<Rightarrow> u16 \<times> nat \<Rightarrow> win_server \<Rightarrow> error + win_server" where
  "win_serve E cb now ip w =
     bindE (win_flushClient E (snd ip) (on_base (serve_news cb now (snd ip)) w)) (\<lambda>w1.
       Inr (on_base (serve_end cb ip) w1))"

definition win_update ::
    "env \<Rightarrow> callbacks \<Rightarrow> ((u16 \<times> nat) list \<Rightarrow> (u16 \<times> nat) list) \<Rightarrow> u64 \<Rightarrow> win_server \<Rightarrow> error + win_server" where
  "win_update E cb shuffle now w =
     bindE (runE (admit cb) (addingClients (w_base w)) (w_base w)) (\<lambda>s1.
     let w2 = w\<lparr>w_base := s1\<lparr>addingClients := []\<rparr>\<rparr> in
     bindE (runE (win_serve E cb now) (shuffle (allClients s1)) w2) (\<lambda>w3.
       Inr (on_base (\<lambda>s. s\<lparr>numClients := word_of_nat (length (allClients s))\<rparr>) w3)))"

text \<open>The results of the calls that \<^verbatim>\<open>startListen\<close> makes.\<close>

record win_listen =
  ws_startup :: int
  ws_version :: "nat \<times> nat"
  ws_port :: "int option"
  ws_socket :: int
  ws_bind :: int
  ws_listen :: int
  ws_ioctl :: int
  ws_concurrency :: nat
  ws_accepts :: "nat \<Rightarrow> int \<times> bool"

definition NUM_ACCEPTEX :: nat where "NUM_ACCEPTEX = 100"

definition initWinsock :: "win_listen \<Rightarrow> bool" where
  "initWinsock r \<longleftrightarrow> ws_startup r = 0 \<and> ws_version r = (2, 2)"

definition win_startListen :: "win_listen \<Rightarrow> win_server \<Rightarrow> error + bool \<times> win_server" where
  "win_startListen r w =
     (let w1 = w\<lparr>completionPort := ws_port r\<rparr>;
          w2 = on_base (\<lambda>s. s\<lparr>listenSocket := ws_socket r\<rparr>) w1
      in if \<not> initWinsock r then Inr (False, w)
         else if ws_port r = None then Inr (False, w1)
         else if ws_bind r = - 1 then Inr (False, w2)
         else if ws_listen r = - 1 then Inr (False, w2)
         else if ws_ioctl r \<noteq> 0 then Inr (False, w2)
         else let numThreads = (if ws_concurrency r = 0 then 1 else ws_concurrency r) in
           bindE (runE (\<lambda>i v. bindE (postAcceptEx (ws_accepts r i) v) (\<lambda>(_, v1). Inr v1)) [0..<NUM_ACCEPTEX]
                    (w2\<lparr>eventThreads := eventThreads w2 + numThreads\<rparr>))
             (\<lambda>w3. Inr (True, w3)))"

text \<open>Each event thread ends with one of the posted requests to close, which it releases.\<close>

definition win_cleanup ::
    "callbacks \<Rightarrow> ((u16 \<times> nat) list \<Rightarrow> (u16 \<times> nat) list) \<Rightarrow> win_server \<Rightarrow> error + win_server" where
  "win_cleanup cb shuffle w =
     bindE (runE (\<lambda>i (as, v). bindE (postCloseServer v) (\<lambda>(a, v1). Inr (as @ [a], v1)))
              [0..<eventThreads w] ([], w)) (\<lambda>(as, w1).
     let w2 = (fold releaseOverlappedData as w1)\<lparr>eventThreads := 0\<rparr>;
         w3 = on_base (\<lambda>s. fold (\<lambda>(i, p) t. destroyClient cb p (set_client p ((srv_heap t p)\<lparr>isClosing := True\<rparr>) t))
                (shuffle (allClients s)) s) w2;
         w4 = on_base (\<lambda>s. log [Closed_fd (listenSocket s)] (s\<lparr>allClients := [], numClients := 0\<rparr>)) w3
     in Inr w4)"

text \<open>What the end of the object does to the pool and the list of posted objects.\<close>

definition win_destruct :: "win_server \<Rightarrow> win_server" where
  "win_destruct w =
     on_base (\<lambda>s. fold od_destroy (ioDataPosted w @ map the (filter (\<lambda>d. d \<noteq> None) (ioDataPool w))) s) w"

end
