(* ===== verification/Server_Windows_Life.thy ===== *)
theory Server_Windows_Life
  imports Server_Windows
begin

text \<open>
  What the Windows server promises: the same life of a client as on Linux, every overlapped object in
  one place, and that flushing posts the waiting bytes in order.
\<close>

section \<open>Overlapped objects\<close>

definition od_ptrs :: "win_server \<Rightarrow> nat list" where
  "od_ptrs w = map od_ptr (ioDataPosted w) @ map (\<lambda>d. od_ptr (the d)) (ioDataPool w)"

definition od_inv :: "win_server \<Rightarrow> bool" where
  "od_inv w \<longleftrightarrow> distinct (od_ptrs w) \<and> (\<forall>a\<in>set (od_ptrs w). a < next_od w) \<and> None \<notin> set (ioDataPool w)
     \<and> length (ioDataPool w) \<le> 2000"

lemma od_inv_cong:
  "ioDataPool v = ioDataPool w \<Longrightarrow> next_od v = next_od w \<Longrightarrow> map od_ptr (ioDataPosted v) = map od_ptr (ioDataPosted w)
     \<Longrightarrow> od_inv v \<longleftrightarrow> od_inv w"
  by (simp add: od_inv_def od_ptrs_def)

lemma on_base_od [simp]: "od_inv (on_base f w) = od_inv w" "od_inv (w\<lparr>w_base := s\<rparr>) = od_inv w"
  by (rule od_inv_cong; simp add: on_base_def)+

lemma w_base_on_base [simp]: "w_base (on_base f w) = f (w_base w)" "posted a (on_base f w) = posted a w"
  by (simp_all add: on_base_def posted_def)

lemma set_posted_od:
  assumes "\<And>d. od_ptr (f d) = od_ptr d"
  shows "od_inv (set_posted a f w) = od_inv w" "w_base (set_posted a f w) = w_base w"
proof -
  have "map od_ptr (map (\<lambda>d. if od_ptr d = a then f d else d) ds) = map od_ptr ds" for ds
    using assms by (induction ds) auto
  then show "od_inv (set_posted a f w) = od_inv w" by (intro od_inv_cong) (simp_all add: set_posted_def)
qed (simp add: set_posted_def)

lemma init_ptr [simp]: "od_ptr (initOverlappedData op sz sock d) = od_ptr d"
  by (simp add: initOverlappedData_def)

lemma od_new_ptr [simp]: "od_ptr (od_new a) = a"
  by (simp add: od_new_def)

lemma create_ok:
  assumes inv: "od_inv w"
  obtains d w1 where "createOverlappedData op sz sock w = Inr (od_ptr d, w1)" and "od_inv w1"
    and "w_base w1 = w_base w" and "ioDataPosted w1 = ioDataPosted w @ [initOverlappedData op sz sock d]"
    and "od_ptr d \<notin> set (map od_ptr (ioDataPosted w))"
proof (cases "ioDataPool w = []")
  case True
  let ?d = "od_new (next_od w)"
  have "next_od w \<notin> set (od_ptrs w)" using inv by (auto simp: od_inv_def)
  with True inv show ?thesis
    by (intro that [of ?d "w\<lparr>next_od := Suc (next_od w), ioDataPosted := ioDataPosted w @ [initOverlappedData op sz sock ?d]\<rparr>"])
      (auto simp: createOverlappedData_def pool_alloc_def od_inv_def od_ptrs_def less_Suc_eq)
next
  case False
  then obtain ps x where ps: "ioDataPool w = ps @ [x]" by (cases "ioDataPool w" rule: rev_cases) auto
  with inv obtain d where d: "x = Some d" by (cases x) (auto simp: od_inv_def)
  with ps inv show ?thesis
    by (intro that [of d "w\<lparr>ioDataPool := ps, ioDataPosted := ioDataPosted w @ [initOverlappedData op sz sock d]\<rparr>"])
      (auto simp: createOverlappedData_def pool_alloc_def od_inv_def od_ptrs_def)
qed

lemma create_inv:
  assumes "od_inv w" and "createOverlappedData op sz sock w = Inr (a, w1)"
  shows "od_inv w1 \<and> w_base w1 = w_base w"
  using create_ok [OF assms(1), of op sz sock] assms(2) by (metis Inr_inject prod.inject)

text \<open>Releasing an object changes the base only by closing a socket.\<close>

lemma release_ok:
  assumes inv: "od_inv w"
  shows "od_inv (releaseOverlappedData a w) \<and> only_closes (w_base w) (w_base (releaseOverlappedData a w))"
proof (cases "posted a w")
  case None
  with inv show ?thesis by (simp add: releaseOverlappedData_def)
next
  case (Some d)
  then have d: "d \<in> set (ioDataPosted w)" by (auto simp: posted_def find_Some_iff)
  have m: "mset (map od_ptr (remove1 d (ioDataPosted w))) = mset (map od_ptr (ioDataPosted w)) - {#od_ptr d#}"
    using d by (simp add: image_mset_Diff)
  define w1 where "w1 = w\<lparr>ioDataPosted := remove1 d (ioDataPosted w)\<rparr>"
  have "distinct (map od_ptr (remove1 d (ioDataPosted w)))"
    using inv by (auto simp: od_inv_def od_ptrs_def distinct_map dest: inj_on_subset [OF _ set_remove1_subset])
  moreover have "od_ptr d \<notin> set (map od_ptr (remove1 d (ioDataPosted w)))"
    using inv d by (auto simp: od_inv_def od_ptrs_def distinct_map inj_on_def)
  moreover have sub: "set (map od_ptr (remove1 d (ioDataPosted w))) \<subseteq> set (map od_ptr (ioDataPosted w))"
    using set_remove1_subset [of d "ioDataPosted w"] by auto
  ultimately have inv1: "od_inv w1" and new: "od_ptr d \<notin> set (od_ptrs w1)" "od_ptr d < next_od w"
    using inv d by (auto simp: od_inv_def od_ptrs_def w1_def)
  show ?thesis
  proof (cases "length (ioDataPool w) < 2000")
    case True
    then have "releaseOverlappedData a w = w1\<lparr>ioDataPool := ioDataPool w @ [Some d]\<rparr>"
      using Some by (simp add: releaseOverlappedData_def pool_free_def w1_def)
    with True inv1 new show ?thesis by (auto simp: od_inv_def od_ptrs_def w1_def)
  next
    case False
    then have r: "releaseOverlappedData a w = on_base (od_destroy d) w1"
      using Some by (simp add: releaseOverlappedData_def pool_free_def w1_def)
    have "w_base w1 = w_base w" by (simp add: w1_def)
    with inv1 only_closes_log show ?thesis unfolding r by (simp add: od_destroy_def)
  qed
qed

section \<open>The life of a client\<close>

definition win_ok :: "win_server \<Rightarrow> bool" where
  "win_ok w \<longleftrightarrow> od_inv w \<and> life_inv (addingClients (w_base w)) (w_base w)"

lemma win_ok_release: "win_ok w \<Longrightarrow> win_ok (releaseOverlappedData a w)"
  using release_ok [of w a] only_closes_life [of "w_base w" "w_base (releaseOverlappedData a w)"]
  by (simp add: win_ok_def)

lemma win_ok_create: "win_ok w \<Longrightarrow> createOverlappedData op sz sock w = Inr (a, w1) \<Longrightarrow> win_ok w1"
  using create_inv [of w op sz sock a w1] by (simp add: win_ok_def)

lemma win_ok_set_posted:
  "win_ok w \<Longrightarrow> (\<And>d. od_ptr (f d) = od_ptr d) \<Longrightarrow> win_ok (set_posted a f w)"
  by (simp add: win_ok_def set_posted_od)

lemma win_ok_deref:
  assumes "win_ok w" and "deref_client f p w = Inr w1" and "\<And>c c'. f c = Inr c' \<Longrightarrow> c_id c' = c_id c"
  shows "win_ok w1"
proof -
  from assms(2) obtain q s where "on_client f (Client_ptr q) (w_base w) = Inr s" and w1: "w1 = w\<lparr>w_base := s\<rparr>"
    by (auto simp: deref_client_def bindE_eq_Inr split: option.splits)
  with on_client_life [of "w_base w" f "Client_ptr q" s] assms(1,3) have "life_inv (addingClients s) s"
    unfolding win_ok_def by blast
  with assms(1) show ?thesis by (simp add: win_ok_def w1)
qed

lemma win_ok_close: "win_ok w \<Longrightarrow> close_client p w = Inr w1 \<Longrightarrow> win_ok w1"
  unfolding close_client_def by (erule win_ok_deref) auto

lemma win_ok_postAcceptEx: "win_ok w \<Longrightarrow> postAcceptEx r w = Inr (x, w1) \<Longrightarrow> win_ok w1"
  using win_ok_create by (fastforce simp: postAcceptEx_def bindE_eq_Inr)

lemma win_ok_accepted:
  assumes "win_ok w" and "win_accepted c0 now co d w = Inr w1"
  shows "win_ok w1"
proof -
  have "win_ok (on_base (addClient c0 now (od_accept d)) w)"
    using assms(1) addClient_life by (simp add: win_ok_def)
  then have 1: "win_ok (set_posted (od_ptr d) (initOverlappedData RECEIVE BUFFER_SIZE 0)
      (on_base (addClient c0 now (od_accept d)) w))" by (rule win_ok_set_posted) simp
  have "win_ok (on_base (log [Closed_fd (od_accept d)]) w)"
    using assms(1) only_closes_life [OF only_closes_log] by (simp add: win_ok_def)
  then have 2: "win_ok (releaseOverlappedData (od_ptr d) (on_base (log [Closed_fd (od_accept d)]) w))"
    by (rule win_ok_release)
  from assms(2) obtain x where "postAcceptEx (co_accept co) (if numClients (w_base w) < maxConnection (w_base w)
      then set_posted (od_ptr d) (initOverlappedData RECEIVE BUFFER_SIZE 0) (on_base (addClient c0 now (od_accept d)) w)
      else releaseOverlappedData (od_ptr d) (on_base (log [Closed_fd (od_accept d)]) w)) = Inr (x, w1)"
    by (auto simp: win_accepted_def bindE_eq_Inr)
  from win_ok_postAcceptEx [OF _ this] 1 2 show ?thesis by (simp split: if_splits)
qed

lemma win_ok_received:
  assumes "win_ok w" and "win_received E co d w = Inr w1"
  shows "win_ok w1"
proof (cases "co_bytes co = []")
  case True
  with assms win_ok_close win_ok_release show ?thesis by (auto simp: win_received_def bindE_eq_Inr)
next
  case False
  then obtain p where p: "co_client co = Some p" using assms(2) by (auto simp: win_received_def split: option.splits)
  have "c_id c' = c_id c" if "bindE (writeClientBuffer E (co_bytes co) c) (\<lambda>c1. Inr (c1\<lparr>hasNewData := True\<rparr>)) = Inr c'" for c c'
    using that by (auto simp: writeClientBuffer_def bindE_eq_Inr)
  note id = this
  show ?thesis
  proof (cases "isClosing (srv_heap (w_base w) p)")
    case True
    with assms False p win_ok_release show ?thesis by (auto simp: win_received_def split: if_splits)
  next
    case up: False
    with assms(2) False p obtain v where
      v: "deref_client (\<lambda>c. bindE (writeClientBuffer E (co_bytes co) c) (\<lambda>c1. Inr (c1\<lparr>hasNewData := True\<rparr>))) (Some p) w = Inr v"
      and w1: "w1 = set_posted (od_ptr d) (initOverlappedData RECEIVE BUFFER_SIZE 0) v"
      by (auto simp: win_received_def bindE_eq_Inr split: if_splits)
    have "win_ok v" using assms(1) v id by (rule win_ok_deref)
    then show ?thesis unfolding w1 by (rule win_ok_set_posted) simp
  qed
qed

lemma win_ok_completion:
  assumes "win_ok w" and "win_completion E c0 now co w = Inr (stop, w1)"
  shows "win_ok w1"
proof (cases "co_ok co")
  case False
  with assms win_ok_close win_ok_release show ?thesis
    by (auto simp: win_completion_def bindE_eq_Inr split: option.splits if_splits)
next
  case True
  with assms(2) obtain a d where d: "co_data co = Some a" "posted a w = Some d"
    by (auto simp: win_completion_def split: option.splits)
  have sent: "win_ok v" if "win_sent co d w = Inr v" for v
    using that assms(1) win_ok_close win_ok_release by (auto simp: win_sent_def bindE_eq_Inr split: if_splits)
  show ?thesis
    using assms(2) True d sent win_ok_accepted [OF assms(1)] win_ok_received [OF assms(1)] win_ok_release [OF assms(1)]
    by (auto simp: win_completion_def bindE_eq_Inr split: socket_operation.splits)
qed

lemma win_send_base:
  "win_send_loop fuel remain b w = Inr (b', w') \<Longrightarrow> od_inv w \<Longrightarrow> od_inv w' \<and> w_base w' = w_base w"
proof (induction fuel remain b w rule: win_send_loop.induct)
  case (2 fuel remain b w)
  show ?case
  proof (cases "remain = 0")
    case False
    with 2(2) obtain a w1 xs b1 where c: "createOverlappedData SEND BUFFER_SIZE 0 w = Inr (a, w1)"
      and r: "ba_readData True BUFFER_SIZE b = Inr (xs, b1)"
      by (auto simp: bindE_eq_Inr)
    let ?w2 = "set_posted a (\<lambda>d. d\<lparr>od_buffer := xs @ drop (length xs) (od_buffer d), od_len := length xs\<rparr>) w1"
    have w2: "od_inv ?w2" "w_base ?w2 = w_base w"
      using create_inv [OF 2(3) c] by (simp_all add: set_posted_od)
    show ?thesis
    proof (cases "remain \<le> length xs")
      case True
      with 2(2) False c r w2 show ?thesis by simp
    next
      case False
      with 2(2) \<open>remain \<noteq> 0\<close> c r have "win_send_loop fuel (readAvailable b1) b1 ?w2 = Inr (b', w')" by simp
      from "2.IH" [OF \<open>remain \<noteq> 0\<close> refl False this w2(1)] w2(2) show ?thesis by simp
    qed
  qed (use 2 in simp)
qed simp

lemma win_flush_base:
  assumes "od_inv w" and "win_flushClient E p w = Inr w'"
  shows "od_inv w' \<and> (\<exists>c2. calm (srv_heap (w_base w) p) c2 \<and> w_base w' = set_client p c2 (w_base w))"
proof (cases "ba_writePos (set_readPosition 0 (c_writer (srv_heap (w_base w) p))) = 0")
  case True
  with assms have "w' = on_base (set_client p ((srv_heap (w_base w) p)\<lparr>c_writer :=
      set_readPosition 0 (c_writer (srv_heap (w_base w) p))\<rparr>)) w"
    by (simp add: win_flushClient_def Let_def)
  with assms(1) calm_writer(1) show ?thesis by (metis on_base_od(1) w_base_on_base(1))
next
  case False
  with assms(2) obtain b1 w1 b2 where
    l: "win_send_loop (Suc (ba_writePos (set_readPosition 0 (c_writer (srv_heap (w_base w) p)))))
          (ba_writePos (set_readPosition 0 (c_writer (srv_heap (w_base w) p))))
          (set_readPosition 0 (c_writer (srv_heap (w_base w) p))) w = Inr (b1, w1)"
    and w': "w' = on_base (set_client p ((srv_heap (w_base w) p)\<lparr>c_writer := b2\<rparr>)) w1"
    by (auto simp: win_flushClient_def Let_def bindE_eq_Inr)
  from win_send_base [OF l assms(1)] calm_writer(1) show ?thesis
    unfolding w' by (metis on_base_od(1) w_base_on_base(1))
qed

lemma win_serve_turn:
  assumes cb: "tame_callbacks cb" and "od_inv w" and sv: "win_serve E cb now (i, p) w = Inr w'"
  shows "od_inv w' \<and> turn now (i, p) (w_base w) (w_base w')"
proof -
  from sv obtain w1 where f: "win_flushClient E p (on_base (serve_news cb now p) w) = Inr w1"
    and w': "w' = on_base (serve_end cb (i, p)) w1" by (auto simp: win_serve_def bindE_eq_Inr)
  from win_flush_base [OF _ f] assms(2) obtain c2 where
    "od_inv w1" "calm (srv_heap (serve_news cb now p (w_base w)) p) c2"
    "w_base w1 = set_client p c2 (serve_news cb now p (w_base w))" by auto
  with turn_eq [OF cb, of now p "w_base w" c2 "w_base w'" i] show ?thesis by (simp add: w')
qed

lemma win_serves_turns:
  assumes cb: "tame_callbacks cb"
  shows "runE (win_serve E cb now) L w = Inr w' \<Longrightarrow> od_inv w \<Longrightarrow> od_inv w' \<and> turns now L (w_base w) (w_base w')"
proof (induction L arbitrary: w)
  case Nil
  then show ?case by (auto intro: No_turn)
next
  case (Cons ip L)
  obtain i p where ip: "ip = (i, p)" by fastforce
  with Cons.prems obtain v where v: "win_serve E cb now (i, p) w = Inr v" "runE (win_serve E cb now) L v = Inr w'"
    by (auto simp: bindE_eq_Inr)
  from win_serve_turn [OF cb Cons.prems(2) v(1)] Cons.IH [OF v(2)] show ?case
    unfolding ip by (meson Next_turn)
qed

lemma win_update_parts:
  assumes cb: "tame_callbacks cb" and ok: "win_ok w"
    and sh: "\<forall>xs. mset (shuffle xs) = mset xs" and u: "win_update E cb shuffle now w = Inr w'"
  shows "win_ok w' \<and> addingClients (w_base w') = []
    \<and> numClients (w_base w') = word_of_nat (length (allClients (w_base w')))
    \<and> (\<exists>es. srv_log (w_base w') = srv_log (w_base w) @ es
         \<and> (\<forall>(i, p)\<in>set (allClients (w_base w)). (hasNewData (srv_heap (w_base w) p) \<longrightarrow> Client_received p \<in> set es)
              \<and> (isClosing (srv_heap (w_base w) p) \<or> idle now (w_base w) p
                    \<longrightarrow> Client_disconnected p \<in> set es \<and> (i, p) \<notin> set (allClients (w_base w')))))"
proof -
  from u obtain s1 w3 where a: "runE (admit cb) (addingClients (w_base w)) (w_base w) = Inr s1"
    and r: "runE (win_serve E cb now) (shuffle (allClients s1)) (w\<lparr>w_base := s1\<lparr>addingClients := []\<rparr>\<rparr>) = Inr w3"
    and w': "w' = on_base (\<lambda>s. s\<lparr>numClients := word_of_nat (length (allClients s))\<rparr>) w3"
    unfolding win_update_def by (auto simp: bindE_eq_Inr Let_def)
  from win_serves_turns [OF cb r] ok have t: "od_inv w3"
    "turns now (shuffle (allClients s1)) (s1\<lparr>addingClients := []\<rparr>) (w_base w3)" by (simp_all add: win_ok_def)
  have inv: "life_inv (addingClients (w_base w)) (w_base w)" using ok by (simp add: win_ok_def)
  have b: "w_base w' = (w_base w3)\<lparr>numClients := word_of_nat (length (allClients (w_base w3)))\<rparr>" by (simp add: w')
  have "od_inv w'" using t(1) by (simp add: w')
  with update_turns [OF cb inv sh a t(2) b] show ?thesis unfolding win_ok_def by blast
qed

section \<open>Flushing\<close>

definition sent_bytes :: "overlapped list \<Rightarrow> bytes" where
  "sent_bytes ds = concat (map (\<lambda>d. take (od_len d) (od_buffer d)) ds)"

definition send_chunk :: "overlapped \<Rightarrow> bool" where
  "send_chunk d \<longleftrightarrow> od_operation d = SEND \<and> 0 < od_len d \<and> od_len d \<le> BUFFER_SIZE
     \<and> length (od_buffer d) = BUFFER_SIZE"

lemma map_last_only:
  "od_ptr d \<notin> set (map od_ptr ds) \<Longrightarrow>
     map (\<lambda>e. if od_ptr e = od_ptr d then f e else e) (ds @ [d]) = ds @ [f d]"
  by (induction ds) auto

lemma create_filled:
  assumes "od_inv w" and "xs \<noteq> []" and "length xs \<le> BUFFER_SIZE"
  defines "g \<equiv> \<lambda>d. d\<lparr>od_buffer := xs @ drop (length xs) (od_buffer d), od_len := length xs\<rparr>"
  shows "\<exists>a w1 e. createOverlappedData SEND BUFFER_SIZE 0 w = Inr (a, w1) \<and> od_inv (set_posted a g w1)
    \<and> w_base (set_posted a g w1) = w_base w \<and> ioDataPosted (set_posted a g w1) = ioDataPosted w @ [e]
    \<and> send_chunk e \<and> take (od_len e) (od_buffer e) = xs"
proof -
  obtain d w1 where c: "createOverlappedData SEND BUFFER_SIZE 0 w = Inr (od_ptr d, w1)" "od_inv w1"
    "w_base w1 = w_base w" "ioDataPosted w1 = ioDataPosted w @ [initOverlappedData SEND BUFFER_SIZE 0 d]"
    "od_ptr d \<notin> set (map od_ptr (ioDataPosted w))"
    by (rule create_ok [OF assms(1), of SEND BUFFER_SIZE 0])
  have p: "od_ptr (g e) = od_ptr e" for e by (simp add: g_def)
  let ?e = "g (initOverlappedData SEND BUFFER_SIZE 0 d)"
  have "ioDataPosted (set_posted (od_ptr d) g w1) = ioDataPosted w @ [?e]"
    using map_last_only [of "initOverlappedData SEND BUFFER_SIZE 0 d" "ioDataPosted w" g] c(4,5)
    by (simp add: set_posted_def)
  moreover have "send_chunk ?e" "take (od_len ?e) (od_buffer ?e) = xs"
    using assms(2,3) by (simp_all add: send_chunk_def g_def initOverlappedData_def)
  moreover have "od_inv (set_posted (od_ptr d) g w1)" "w_base (set_posted (od_ptr d) g w1) = w_base w"
    using set_posted_od [OF p] c(2,3) by simp_all
  ultimately show ?thesis using c(1)
    by (intro exI [of _ "od_ptr d"] exI [of _ w1] exI [of _ ?e] conjI)
qed

lemma win_send_ok:
  "ba_inv b \<Longrightarrow> od_inv w \<Longrightarrow> readAvailable b < fuel \<Longrightarrow>
   \<exists>b' w' ds. win_send_loop fuel (readAvailable b) b w = Inr (b', w') \<and> od_inv w' \<and> w_base w' = w_base w
     \<and> ioDataPosted w' = ioDataPosted w @ ds \<and> (\<forall>d\<in>set ds. send_chunk d) \<and> sent_bytes ds = ba_unread b"
proof (induction fuel arbitrary: b w)
  case 0
  then show ?case by simp
next
  case (Suc fuel)
  note lu = length_ba_unread [OF Suc.prems(1)]
  show ?case
  proof (cases "readAvailable b = 0")
    case True
    with Suc.prems lu show ?thesis
      by (intro exI [of _ b] exI [of _ w] exI [of _ "[]"]) (simp add: sent_bytes_def)
  next
    case False
    define xs where "xs = take BUFFER_SIZE (ba_unread b)"
    have xs: "xs \<noteq> []" "length xs \<le> BUFFER_SIZE" "length xs = min (readAvailable b) BUFFER_SIZE"
      using False lu by (auto simp: xs_def BUFFER_SIZE_def)
    obtain b1 where r: "ba_readData True BUFFER_SIZE b = Inr (xs, b1)" "ba_inv b1"
        "ba_unread b1 = drop BUFFER_SIZE (ba_unread b)"
      using ba_readData_ok [OF Suc.prems(1), of BUFFER_SIZE]
      by (auto simp: spec_get_def xs_def BUFFER_SIZE_def split: if_splits)
    obtain a w1 e where c: "createOverlappedData SEND BUFFER_SIZE 0 w = Inr (a, w1)"
      and w2: "od_inv (set_posted a (\<lambda>d. d\<lparr>od_buffer := xs @ drop (length xs) (od_buffer d), od_len := length xs\<rparr>) w1)"
        "w_base (set_posted a (\<lambda>d. d\<lparr>od_buffer := xs @ drop (length xs) (od_buffer d), od_len := length xs\<rparr>) w1) = w_base w"
        "ioDataPosted (set_posted a (\<lambda>d. d\<lparr>od_buffer := xs @ drop (length xs) (od_buffer d), od_len := length xs\<rparr>) w1)
          = ioDataPosted w @ [e]"
      and e: "send_chunk e" "take (od_len e) (od_buffer e) = xs"
      using create_filled [OF Suc.prems(2) xs(1,2)] by blast
    let ?w2 = "set_posted a (\<lambda>d. d\<lparr>od_buffer := xs @ drop (length xs) (od_buffer d), od_len := length xs\<rparr>) w1"
    have step: "win_send_loop (Suc fuel) (readAvailable b) b w
        = (if readAvailable b \<le> length xs then Inr (b1, ?w2) else win_send_loop fuel (readAvailable b1) b1 ?w2)"
      using False c r(1) by simp
    show ?thesis
    proof (cases "readAvailable b \<le> length xs")
      case True
      with xs(3) lu have "xs = ba_unread b" by (simp add: xs_def)
      with True step w2 e show ?thesis by (intro exI [of _ b1] exI [of _ ?w2] exI [of _ "[e]"]) (simp add: sent_bytes_def)
    next
      case more: False
      have "readAvailable b1 = readAvailable b - BUFFER_SIZE" using length_ba_unread [OF r(2)] r(3) lu by simp
      then have "readAvailable b1 < fuel" using Suc.prems(3) more xs(3) by (simp add: BUFFER_SIZE_def)
      from Suc.IH [OF r(2) w2(1) this] obtain b' w' ds where
        IH: "win_send_loop fuel (readAvailable b1) b1 ?w2 = Inr (b', w')" "od_inv w'" "w_base w' = w_base w"
          "ioDataPosted w' = ioDataPosted w @ e # ds" "\<forall>d\<in>set ds. send_chunk d" "sent_bytes ds = ba_unread b1"
        by (auto simp: w2)
      have "sent_bytes (e # ds) = ba_unread b" using IH(6) e(2) r(3) by (simp add: sent_bytes_def xs_def)
      with IH step more e(1) show ?thesis
        by (intro exI [of _ b'] exI [of _ w'] exI [of _ "e # ds"]) simp
    qed
  qed
qed

section \<open>Properties\<close>

text \<open>C25. On Windows flushing a client always returns: it posts the bytes that have been written
  for the client, from the first one on, in their order, in non-empty pieces of at most 4096 bytes,
  and leaves the buffer empty; objects are neither lost nor used twice, and nothing else of the server
  changes.\<close>

theorem win_flush_posts:
  assumes "od_inv w" and "ba_inv (c_writer (srv_heap (w_base w) p))"
  shows "\<exists>w' ds b. win_flushClient E p w = Inr w' \<and> od_inv w' \<and> ioDataPosted w' = ioDataPosted w @ ds
    \<and> (\<forall>d\<in>set ds. send_chunk d) \<and> sent_bytes ds = contents (c_writer (srv_heap (w_base w) p))
    \<and> contents b = [] \<and> w_base w' = set_client p ((srv_heap (w_base w) p)\<lparr>c_writer := b\<rparr>) (w_base w)"
proof -
  let ?c = "srv_heap (w_base w) p"
  define b where "b = set_readPosition 0 (c_writer ?c)"
  have inv: "ba_inv b" using assms(2) by (simp add: b_def set_readPosition_inv)
  have u: "ba_unread b = contents (c_writer ?c)" "readAvailable b = ba_writePos b"
    using inv by (simp_all add: b_def set_readPosition_def ba_unread_def contents_def readAvailable_eq)
  show ?thesis
  proof (cases "ba_writePos b = 0")
    case True
    then have "contents b = []" "contents (c_writer ?c) = []" by (simp_all add: contents_def b_def set_readPosition_def)
    with True assms(1) show ?thesis
      by (intro exI [of _ "on_base (set_client p (?c\<lparr>c_writer := b\<rparr>)) w"] exI [of _ "[]"] exI [of _ b])
        (simp add: win_flushClient_def sent_bytes_def Let_def on_base_def flip: b_def)
  next
    case False
    from win_send_ok [OF inv assms(1), of "Suc (ba_writePos b)", unfolded u] obtain b1 w1 ds where
      l: "win_send_loop (Suc (ba_writePos b)) (ba_writePos b) b w = Inr (b1, w1)" "od_inv w1" "w_base w1 = w_base w"
        "ioDataPosted w1 = ioDataPosted w @ ds" "\<forall>d\<in>set ds. send_chunk d" "sent_bytes ds = contents (c_writer ?c)"
      by auto
    let ?b = "b1\<lparr>ba_readPos := 0, ba_writePos := 0\<rparr>"
    have "win_flushClient E p w = Inr (on_base (set_client p (?c\<lparr>c_writer := ?b\<rparr>)) w1)"
      using False l(1) by (simp add: win_flushClient_def Let_def ba_truncate_0 flip: b_def)
    with l show ?thesis
      by (intro exI [of _ "on_base (set_client p (?c\<lparr>c_writer := ?b\<rparr>)) w1"] exI [of _ ds] exI [of _ ?b])
        (simp add: contents_def, simp add: on_base_def)
  qed
qed

text \<open>The Windows server as the witnesses use it: empty, with one client that has three bytes waiting.\<close>

definition win_small :: win_server where
  "win_small = (win_new (\<lambda>p. fresh_client))\<lparr>ioDataPool := []\<rparr>"

lemma win_new_inv: "od_inv (win_new h)"
  by (auto simp: od_inv_def od_ptrs_def win_new_def pool_new_def comp_def)

lemma win_small_inv: "od_inv win_small"
  by (simp add: od_inv_def od_ptrs_def win_small_def win_new_def)

theorem win_flush_posts_witness:
  "\<exists>w' ds. win_flushClient small_env 0 win_small = Inr w' \<and> ioDataPosted w' = ds \<and> sent_bytes ds = [1, 2, 3]"
proof -
  have c: "srv_heap (w_base win_small) 0 = fresh_client" "ioDataPosted win_small = []"
    by (simp_all add: win_small_def win_new_def server_new_def)
  have b: "c_writer fresh_client = tiny_buffer" by (simp add: client_init_def)
  have "ba_inv (c_writer (srv_heap (w_base win_small) 0))" unfolding c b by (rule tiny_buffer_open)
  from win_flush_posts [OF win_small_inv this, of small_env] show ?thesis
    unfolding c b by (auto simp: contents_def tiny_buffer_def)
qed

section \<open>Runs of the Windows server\<close>

inductive win_step :: "env \<Rightarrow> callbacks \<Rightarrow> win_server \<Rightarrow> win_server \<Rightarrow> bool" for E cb where
  Win_init: "win_step E cb w (on_base (\<lambda>s. snd (srv_init hasCreate mx kick s)) w)"
| Win_listen: "win_startListen r w = Inr (ok, w') \<Longrightarrow> win_step E cb w w'"
| Win_completion: "win_completion E c0 now co w = Inr (stop, w') \<Longrightarrow> win_step E cb w w'"
| Win_update: "\<forall>xs. mset (shuffle xs) = mset xs \<Longrightarrow> win_update E cb shuffle now w = Inr w' \<Longrightarrow> win_step E cb w w'"
| Win_kick: "win_step E cb w (on_base (\<lambda>s. snd (kickClient i s)) w)"
| Win_send: "srv_send E p xs (w_base w) = Inr s \<Longrightarrow> win_step E cb w (w\<lparr>w_base := s\<rparr>)"

lemma win_listen_ok:
  assumes "win_ok w" and "win_startListen r w = Inr (ok, w')"
  shows "win_ok w'"
proof -
  have c: "life_inv ps s \<Longrightarrow> life_inv ps (s\<lparr>listenSocket := x\<rparr>)" for ps s x
    by (rule life_inv_cong [rotated 4]) simp_all
  let ?w1 = "w\<lparr>completionPort := ws_port r\<rparr>" and ?g = "\<lambda>s. s\<lparr>listenSocket := ws_socket r\<rparr>"
  have 1: "win_ok ?w1" using assms(1) by (simp add: win_ok_def od_inv_def od_ptrs_def)
  then have 2: "win_ok (on_base ?g ?w1)" using c by (simp add: win_ok_def)
  then have 3: "win_ok ((on_base ?g ?w1)\<lparr>eventThreads := n\<rparr>)" for n
    by (simp add: win_ok_def od_inv_def od_ptrs_def)
  have "win_ok v'" if "win_ok v" "runE (\<lambda>i v. bindE (postAcceptEx (ws_accepts r i) v) (\<lambda>(_, v1). Inr v1)) is v = Inr v'" for "is" v v'
    by (rule runE_invariant [where P = win_ok, OF _ that]) (auto simp: bindE_eq_Inr intro: win_ok_postAcceptEx)
  with assms 1 2 3 show ?thesis
    by (auto simp: win_startListen_def Let_def bindE_eq_Inr split: if_splits)
qed

lemma win_step_ok:
  assumes cb: "tame_callbacks cb"
  shows "win_step E cb w w' \<Longrightarrow> win_ok w \<Longrightarrow> win_ok w'"
proof (induction rule: win_step.induct)
  case (Win_init w hasCreate mx kick)
  then show ?case using srv_step_life [OF cb Init, of "w_base w" hasCreate mx kick] by (simp add: win_ok_def)
next
  case (Win_listen r w ok w')
  then show ?case using win_listen_ok by blast
next
  case (Win_completion c0 now co w stop w')
  then show ?case using win_ok_completion by blast
next
  case (Win_update shuffle now w w')
  then show ?case using win_update_parts [OF cb] by blast
next
  case (Win_kick w i)
  then show ?case using srv_step_life [OF cb Kick, of "w_base w" i] by (simp add: win_ok_def)
next
  case (Win_send p xs w s)
  then show ?case using srv_step_life [OF cb Send, of E p xs "w_base w" s] by (simp add: win_ok_def)
qed

lemma win_reachable_ok:
  assumes "tame_callbacks cb" and "(win_step E cb)\<^sup>*\<^sup>* (win_new h) w"
  shows "win_ok w"
  using assms(2)
proof (induction rule: rtranclp_induct)
  case base
  have "life_inv [] (server_new h)" by (rule life_inv_new)
  then show ?case using win_new_inv by (simp add: win_ok_def win_new_def server_new_def)
next
  case (step w w')
  with win_step_ok [OF assms(1)] show ?case by blast
qed


text \<open>A run: one pending accept is completed, and the client is admitted.\<close>

definition win_listening :: win_server where
  "win_listening = on_base (\<lambda>s. snd (srv_init True 10 100 s)) (win_new (\<lambda>p. fresh_client))"

lemma win_accepts_client:
  assumes "od_inv w" and "posted a w = Some d" and "od_operation d = ACCEPT"
    and "numClients (w_base w) < maxConnection (w_base w)"
  shows "\<exists>w'. win_completion E c0 now \<lparr>co_ok = True, co_error = 0, co_bytes = [], co_client = None,
      co_data = Some a, co_accept = r\<rparr> w = Inr (False, w')
    \<and> addingClients (w_base w') = addingClients (w_base w) @ [next_ptr (w_base w)]"
proof -
  let ?v = "set_posted (od_ptr d) (initOverlappedData RECEIVE BUFFER_SIZE 0) (on_base (addClient c0 now (od_accept d)) w)"
  have v: "od_inv ?v" using assms(1) by (simp add: set_posted_od)
  obtain e :: overlapped and w1 where c: "createOverlappedData ACCEPT BUFFER_SIZE (fst r) ?v = Inr (od_ptr e, w1)" "w_base w1 = w_base ?v"
    using create_ok [OF v, of ACCEPT BUFFER_SIZE "fst r"] by metis
  then have b: "addingClients (w_base w1) = addingClients (w_base w) @ [next_ptr (w_base w)]"
    by (simp add: set_posted_od addClient_def set_client_def Let_def)
  have "win_completion E c0 now \<lparr>co_ok = True, co_error = 0, co_bytes = [], co_client = None,
      co_data = Some a, co_accept = r\<rparr> w = Inr (False, w1)"
    using assms(2-4) c(1) by (simp add: win_completion_def win_accepted_def postAcceptEx_def)
  with b show ?thesis by blast
qed


section \<open>Corner cases\<close>

text \<open>The listening socket has the key 0: a failed accept other than an aborted one writes through a
  null pointer.\<close>

lemma win_failed_accept:
  assumes "\<not> co_ok co" and "co_data co = Some a" and "co_client co = None" and "co_error co = ERROR_NETNAME_DELETED"
  shows "win_completion E c0 now co w = Inl Undefined_behaviour"
  using assms by (simp add: win_completion_def close_client_def deref_client_def ERROR_NETNAME_DELETED_def
      ERROR_CONNECTION_ABORTED_def)

text \<open>A completion without data and without success changes nothing, so that the loop turns on it.\<close>

lemma win_idle_turn: "\<not> co_ok co \<Longrightarrow> co_data co = None \<Longrightarrow> win_completion E c0 now co w = Inr (False, w)"
  by (simp add: win_completion_def)

text \<open>A rejected socket is closed at once, but its number stays in the pooled object.\<close>

lemma win_rejected_pooled:
  assumes "posted a w = Some d" and "length (ioDataPool w) < 2000"
  shows "Some d \<in> set (ioDataPool (releaseOverlappedData a w))"
  using assms by (simp add: releaseOverlappedData_def pool_free_def)

lemma win_closed_twice:
  assumes "Some d \<in> set (ioDataPool w)" and "od_accept d \<noteq> 0"
  shows "\<exists>es fs. srv_log (w_base (win_destruct w)) = srv_log (w_base w) @ es @ [Closed_fd (od_accept d)] @ fs"
proof -
  have run: "\<exists>es. srv_log (fold od_destroy ds s) = srv_log s @ es" for ds s
  proof (induction ds arbitrary: s)
    case (Cons d ds)
    from Cons [of "od_destroy d s"] show ?case by (auto simp: od_destroy_def log_def)
  qed simp
  let ?ds = "ioDataPosted w @ map the (filter (\<lambda>d. d \<noteq> None) (ioDataPool w))"
  have "d \<in> set ?ds" using assms(1) by force
  then obtain xs ys where ds: "?ds = xs @ d # ys" by (meson split_list)
  from run [of xs "w_base w"] obtain es where 1: "srv_log (fold od_destroy xs (w_base w)) = srv_log (w_base w) @ es" ..
  from run [of ys "od_destroy d (fold od_destroy xs (w_base w))"] obtain fs where
    "srv_log (fold od_destroy ys (od_destroy d (fold od_destroy xs (w_base w))))
      = srv_log (od_destroy d (fold od_destroy xs (w_base w))) @ fs" ..
  with 1 assms(2) have "srv_log (fold od_destroy ?ds (w_base w))
      = srv_log (w_base w) @ es @ [Closed_fd (od_accept d)] @ fs"
    unfolding ds by (simp add: od_destroy_def log_def)
  then show ?thesis by (auto simp: win_destruct_def)
qed

text \<open>The limit of connections counts only what the last \<^verbatim>\<open>update\<close> saw, as on Linux; and the sends
  posted for a client are not waited for before its socket is closed.\<close>

lemma win_close_keeps_sends:
  "ioDataPosted (on_base (serve_end cb ip) w) = ioDataPosted w"
  by (simp add: on_base_def)

end
