(* ===== verification/Server_Mac.thy ===== *)
theory Server_Mac
  imports Server_Life
begin

text \<open>
  The macOS version of \<^verbatim>\<open>ServerSocket\<close>: kqueue. An event carries its filter, the descriptor it is
  about, its \<^verbatim>\<open>data\<close>, and what the calls made for it return: the sockets of \<^verbatim>\<open>accept\<close>, \<open>- 1\<close> for
  none, the result of \<^verbatim>\<open>recv\<close> and that of \<^verbatim>\<open>send\<close>. Which filters the kernel watches, \<open>kq_enabled\<close>,
  changes only by calls of \<^verbatim>\<open>kevent\<close>; the macro \<^verbatim>\<open>EV_SET\<close> only fills a structure in.
\<close>

section \<open>State\<close>

datatype kq_filter = EVFILT_EXCEPT | EVFILT_READ | EVFILT_WRITE

record mac_server =
  m_base :: server
  kq_enabled :: "(kq_filter \<times> ep_source) list"

definition mac_new :: "(nat \<Rightarrow> net_client) \<Rightarrow> mac_server" where
  "mac_new h = \<lparr>m_base = server_new h, kq_enabled = []\<rparr>"

definition on_mbase :: "(server \<Rightarrow> server) \<Rightarrow> mac_server \<Rightarrow> mac_server" where
  "on_mbase f m = m\<lparr>m_base := f (m_base m)\<rparr>"

record kq_event =
  k_filter :: kq_filter
  k_source :: ep_source
  k_data :: nat
  k_accepted :: "int list"
  k_recv :: recv_result
  k_send :: send_result

section \<open>The event thread\<close>

text \<open>
  \<^verbatim>\<open>recv\<close> writes to \<^verbatim>\<open>readerPointer\<close>, not to the end of the data; its length, \<open>- 1\<close> for an error,
  is added to the old size.
\<close>

definition mac_readIntoBuffer :: "env \<Rightarrow> u32 \<Rightarrow> recv_result \<Rightarrow> net_client \<Rightarrow> error + net_client" where
  "mac_readIntoBuffer E numBytes r c =
     (if isClosing c then Inr c
      else let oldSize = ba_writePos (c_reader c) in
        bindE (ba_expand E (sz_add oldSize (unat numBytes)) (c_reader c)) (\<lambda>b.
        bindE (case r of
                 Received xs \<Rightarrow>
                   let ys = take (unat numBytes) xs in
                   bindE (poke (ba_data b) (ba_readPos b) ys) (\<lambda>d.
                     Inr (b\<lparr>ba_data := d\<rparr>, sz_add oldSize (length ys)))
               | End_of_stream \<Rightarrow> Inr (b, oldSize)
               | _ \<Rightarrow> Inr (b, sz_sub oldSize 1)) (\<lambda>(b1, pos).
        bindE (set_writePosition E pos b1) (\<lambda>b2.
          Inr (c\<lparr>c_reader := b2, hasNewData := True\<rparr>)))))"

text \<open>The bytes that \<^verbatim>\<open>send\<close> took, and the client; what was offered is cut in any case.\<close>

definition mac_writeFromBuffer :: "env \<Rightarrow> u32 \<Rightarrow> send_result \<Rightarrow> net_client \<Rightarrow> error + bytes \<times> net_client" where
  "mac_writeFromBuffer E limitLength r c =
     (if isClosing c then Inr ([], c)
      else let b = c_writer c; available = readAvailable b mod 2 ^ 32 in
        if available = 0 then Inr ([], c)
        else let available = (if unat limitLength < available then unat limitLength else available) in
          bindE (peek (ba_data b) (ba_readPos b) available) (\<lambda>xs.
          bindE (cutHead E available False b) (\<lambda>(_, b1).
            Inr (case r of Sent k \<Rightarrow> take k xs | _ \<Rightarrow> [], c\<lparr>c_writer := b1\<rparr>))))"

text \<open>A new client is watched for reading and exceptions; the writing filter is added disabled.\<close>

fun mac_accepts :: "net_client \<Rightarrow> u64 \<Rightarrow> int list \<Rightarrow> mac_server \<Rightarrow> mac_server" where
  "mac_accepts c0 now [] m = m"
| "mac_accepts c0 now (sock # socks) m =
     (if sock = - 1 then m
      else mac_accepts c0 now socks
        (if numClients (m_base m) < maxConnection (m_base m)
         then let p = next_ptr (m_base m) in
              (on_mbase (addClient c0 now sock) m)\<lparr>kq_enabled := kq_enabled m
                 @ [(EVFILT_READ, Client_ptr p), (EVFILT_EXCEPT, Client_ptr p)]\<rparr>
         else on_mbase (log [Closed_fd sock]) m))"

definition mac_event ::
    "env \<Rightarrow> net_client \<Rightarrow> u64 \<Rightarrow> kq_event \<Rightarrow> mac_server \<Rightarrow> error + mac_server" where
  "mac_event E c0 now evt m =
     (case k_filter evt of
        EVFILT_EXCEPT \<Rightarrow>
          bindE (on_client (\<lambda>c. Inr (c\<lparr>isClosing := True\<rparr>)) (k_source evt) (m_base m)) (\<lambda>s. Inr (m\<lparr>m_base := s\<rparr>))
      | EVFILT_READ \<Rightarrow>
          if k_source evt = Listen_socket
          then Inr (mac_accepts c0 now (take (k_data evt) (k_accepted evt)) m)
          else bindE (on_client (mac_readIntoBuffer E (of_nat (k_data evt)) (k_recv evt)) (k_source evt) (m_base m))
                 (\<lambda>s. Inr (m\<lparr>m_base := s\<rparr>))
      | EVFILT_WRITE \<Rightarrow>
          bindE (on_client (\<lambda>c. bindE (mac_writeFromBuffer E (of_nat (k_data evt)) (k_send evt) c) (\<lambda>(_, c1). Inr c1))
                   (k_source evt) (m_base m))
            (\<lambda>s. Inr (m\<lparr>m_base := s\<rparr>)))"

text \<open>What \<^verbatim>\<open>kevent\<close> returns, None for an error; the thread waits at the end of the list.\<close>

fun mac_event_thread ::
    "env \<Rightarrow> net_client \<Rightarrow> u64 \<Rightarrow> kq_event list option list \<Rightarrow> mac_server \<Rightarrow> error + int option \<times> mac_server" where
  "mac_event_thread E c0 now [] m = Inr (if isRunning (m_base m) then None else Some 0, m)"
| "mac_event_thread E c0 now (r # rs) m =
     (if \<not> isRunning (m_base m) then Inr (Some 0, m)
      else case r of
             None \<Rightarrow> Inr (Some (- 1), m)
           | Some evts \<Rightarrow> bindE (runE (mac_event E c0 now) evts m) (mac_event_thread E c0 now rs))"

section \<open>The main thread\<close>

text \<open>The results of the calls that \<^verbatim>\<open>startListen\<close> makes; \<^verbatim>\<open>fcntl\<close> is called twice.\<close>

record mac_listen =
  mr_socket :: int
  mr_setsockopt :: int
  mr_getfl :: int
  mr_setfl :: int
  mr_bind :: int
  mr_listen :: int
  mr_kqueue :: int
  mr_add_listen :: int
  mr_pipe :: "(int \<times> int) option"
  mr_add_pipe :: int

definition setNonBlock :: "int \<Rightarrow> int \<Rightarrow> bool" where
  "setNonBlock flags r \<longleftrightarrow> \<not> flags < 0 \<and> \<not> r < 0"

definition mac_startListen :: "mac_listen \<Rightarrow> mac_server \<Rightarrow> bool \<times> mac_server" where
  "mac_startListen r m =
     (let m1 = on_mbase (\<lambda>s. s\<lparr>listenSocket := mr_socket r\<rparr>) m;
          m2 = on_mbase (\<lambda>s. s\<lparr>epfd := mr_kqueue r\<rparr>) m1;
          m3 = m2\<lparr>kq_enabled := [(EVFILT_READ, Listen_socket)]\<rparr>
      in if mr_socket r < 0 then (False, m1)
         else if mr_setsockopt r \<noteq> 0 then (False, m1)
         else if \<not> setNonBlock (mr_getfl r) (mr_setfl r) then (False, m1)
         else if mr_bind r < 0 then (False, m1)
         else if mr_listen r < 0 then (False, m1)
         else if mr_kqueue r < 0 then (False, m2)
         else if mr_add_listen r < 0 then (False, m2)
         else case mr_pipe r of
                None \<Rightarrow> (False, m3)
              | Some fds \<Rightarrow>
                  let m4 = on_mbase (\<lambda>s. s\<lparr>pipe_fd := fds\<rparr>) m3 in
                  if mr_add_pipe r < 0 then (False, m4)
                  else (True, on_mbase (\<lambda>s. s\<lparr>isRunning := True\<rparr>)
                                (m4\<lparr>kq_enabled := kq_enabled m4 @ [(EVFILT_READ, Pipe_end)]\<rparr>)))"

text \<open>\<^verbatim>\<open>EV_SET\<close> fills in a structure that is never handed to \<^verbatim>\<open>kevent\<close>.\<close>

definition mac_flushClient :: "nat \<Rightarrow> mac_server \<Rightarrow> mac_server" where
  "mac_flushClient p m =
     (if ba_writePos (c_writer (srv_heap (m_base m) p)) \<noteq> 0
      then let evt = (EVFILT_WRITE, Client_ptr p) in m
      else m)"

definition mac_serve :: "callbacks \<Rightarrow> u64 \<Rightarrow> u16 \<times> nat \<Rightarrow> mac_server \<Rightarrow> mac_server" where
  "mac_serve cb now ip m =
     on_mbase (serve_end cb ip) (mac_flushClient (snd ip) (on_mbase (serve_news cb now (snd ip)) m))"

definition mac_update ::
    "callbacks \<Rightarrow> ((u16 \<times> nat) list \<Rightarrow> (u16 \<times> nat) list) \<Rightarrow> u64 \<Rightarrow> mac_server \<Rightarrow> error + mac_server" where
  "mac_update cb shuffle now m =
     bindE (runE (admit cb) (addingClients (m_base m)) (m_base m)) (\<lambda>s1.
       let m3 = fold (mac_serve cb now) (shuffle (allClients s1)) (m\<lparr>m_base := s1\<lparr>addingClients := []\<rparr>\<rparr>)
       in Inr (on_mbase (\<lambda>s. s\<lparr>numClients := word_of_nat (length (allClients s))\<rparr>) m3))"

text \<open>\<^verbatim>\<open>cleanup\<close> writes to the pipe if the server runs and then waits for the thread.\<close>

definition mac_cleanup :: "callbacks \<Rightarrow> ((u16 \<times> nat) list \<Rightarrow> (u16 \<times> nat) list) \<Rightarrow> mac_server \<Rightarrow> mac_server" where
  "mac_cleanup cb shuffle m = on_mbase (\<lambda>s.
     let s1 = log [Closed_fd (fst (pipe_fd s)), Closed_fd (snd (pipe_fd s))] (s\<lparr>isRunning := False\<rparr>);
         s2 = fold (\<lambda>(i, p) t. destroyClient cb p (set_client p ((srv_heap t p)\<lparr>isClosing := True\<rparr>) t))
                (shuffle (allClients s1)) s1
     in log [Closed_fd (listenSocket s2)] (s2\<lparr>allClients := [], numClients := 0\<rparr>)) m"

end
