(* ===== verification/Server_Mac_Life.thy ===== *)
theory Server_Mac_Life
  imports Server_Mac
begin

text \<open>
  What the macOS server keeps of the promises of the others, the life of a client, and what it does
  not: no byte is ever sent.
\<close>

section \<open>The life of a client\<close>

definition mac_ok :: "mac_server \<Rightarrow> bool" where
  "mac_ok m \<longleftrightarrow> life_inv (addingClients (m_base m)) (m_base m)
     \<and> (\<forall>src. (EVFILT_WRITE, src) \<notin> set (kq_enabled m))"

lemma m_base_on [simp]: "m_base (on_mbase f m) = f (m_base m)" "kq_enabled (on_mbase f m) = kq_enabled m"
  by (simp_all add: on_mbase_def)

lemma mac_ok_event_client:
  assumes "mac_ok m" and "on_client f src (m_base m) = Inr s" and "\<And>c c'. f c = Inr c' \<Longrightarrow> c_id c' = c_id c"
  shows "mac_ok (m\<lparr>m_base := s\<rparr>)"
  using on_client_life [OF _ assms(2,3)] assms(1) by (auto simp: mac_ok_def)

lemma mac_read_id: "mac_readIntoBuffer E n r c = Inr c' \<Longrightarrow> c_id c' = c_id c"
  by (auto simp: mac_readIntoBuffer_def Let_def bindE_eq_Inr split: if_splits)

lemma mac_write_id: "mac_writeFromBuffer E n r c = Inr (xs, c') \<Longrightarrow> c_id c' = c_id c"
  by (auto simp: mac_writeFromBuffer_def Let_def bindE_eq_Inr split: if_splits)

lemma mac_ok_accepts: "mac_ok m \<Longrightarrow> mac_ok (mac_accepts c0 now socks m)"
proof (induction c0 now socks m rule: mac_accepts.induct)
  case (2 c0 now sock socks m)
  have "mac_ok ((on_mbase (addClient c0 now sock) m)\<lparr>kq_enabled := kq_enabled m
      @ [(EVFILT_READ, Client_ptr p), (EVFILT_EXCEPT, Client_ptr p)]\<rparr>)" for p
    using 2(2) addClient_life by (auto simp: mac_ok_def)
  moreover have "mac_ok (on_mbase (log [Closed_fd sock]) m)"
    using 2(2) only_closes_life [OF only_closes_log] by (simp add: mac_ok_def)
  ultimately show ?case using 2 by (auto simp: Let_def)
qed simp

lemma mac_ok_event:
  assumes "mac_ok m" and "mac_event E c0 now evt m = Inr m'"
  shows "mac_ok m'"
proof (cases "k_filter evt = EVFILT_READ \<and> k_source evt = Listen_socket")
  case True
  with assms mac_ok_accepts [OF assms(1)] show ?thesis by (auto simp: mac_event_def)
next
  case False
  with assms(2) obtain f s where f: "on_client f (k_source evt) (m_base m) = Inr s" and m': "m' = m\<lparr>m_base := s\<rparr>"
    and id: "\<forall>c c'. f c = Inr c' \<longrightarrow> c_id c' = c_id c"
    by (cases "k_filter evt")
      (force simp: mac_event_def bindE_eq_Inr dest: mac_read_id mac_write_id split: if_splits)+
  show ?thesis unfolding m' by (rule mac_ok_event_client [OF assms(1) f]) (use id in blast)
qed

lemma mac_flush_nothing [simp]: "mac_flushClient p m = m"
  by (simp add: mac_flushClient_def Let_def)

lemma mac_serve_turn:
  assumes "tame_callbacks cb"
  shows "turn now (i, p) (m_base m) (m_base (mac_serve cb now (i, p) m))"
proof -
  have "set_client p (srv_heap s p) s = s" for s by (simp add: set_client_def)
  with turn_eq [OF assms, of now p "m_base m" "srv_heap (serve_news cb now p (m_base m)) p" _ i] show ?thesis by (simp add: mac_serve_def)
qed

lemma mac_serves_turns:
  assumes "tame_callbacks cb"
  shows "turns now L (m_base m) (m_base (fold (mac_serve cb now) L m))
    \<and> kq_enabled (fold (mac_serve cb now) L m) = kq_enabled m"
proof (induction L arbitrary: m)
  case Nil
  then show ?case by (auto intro: No_turn)
next
  case (Cons ip L)
  obtain i p where ip: "ip = (i, p)" by fastforce
  from Cons.IH [of "mac_serve cb now ip m"] mac_serve_turn [OF assms, of now i p m] show ?case
    unfolding ip by (auto intro: Next_turn simp: mac_serve_def)
qed

lemma mac_update_parts:
  assumes cb: "tame_callbacks cb" and ok: "mac_ok m" and sh: "\<forall>xs. mset (shuffle xs) = mset xs"
    and u: "mac_update cb shuffle now m = Inr m'"
  shows "mac_ok m'"
proof -
  from u obtain s1 where a: "runE (admit cb) (addingClients (m_base m)) (m_base m) = Inr s1"
    and m': "m' = on_mbase (\<lambda>s. s\<lparr>numClients := word_of_nat (length (allClients s))\<rparr>)
      (fold (mac_serve cb now) (shuffle (allClients s1)) (m\<lparr>m_base := s1\<lparr>addingClients := []\<rparr>\<rparr>))"
    unfolding mac_update_def by (auto simp: bindE_eq_Inr Let_def)
  let ?m3 = "fold (mac_serve cb now) (shuffle (allClients s1)) (m\<lparr>m_base := s1\<lparr>addingClients := []\<rparr>\<rparr>)"
  have t: "turns now (shuffle (allClients s1)) (s1\<lparr>addingClients := []\<rparr>) (m_base ?m3)" "kq_enabled ?m3 = kq_enabled m"
    using mac_serves_turns [OF cb, of now "shuffle (allClients s1)" "m\<lparr>m_base := s1\<lparr>addingClients := []\<rparr>\<rparr>"] by simp_all
  have inv: "life_inv (addingClients (m_base m)) (m_base m)" using ok by (simp add: mac_ok_def)
  have "m_base m' = (m_base ?m3)\<lparr>numClients := word_of_nat (length (allClients (m_base ?m3)))\<rparr>" by (simp add: m')
  from update_turns [OF cb inv sh a t(1) this] have "life_inv (addingClients (m_base m')) (m_base m')" by blast
  moreover have "kq_enabled m' = kq_enabled m" using t(2) by (simp add: m')
  ultimately show ?thesis using ok by (simp add: mac_ok_def)
qed

section \<open>Runs\<close>

text \<open>The kernel reports events of enabled filters only.\<close>

inductive mac_step :: "env \<Rightarrow> callbacks \<Rightarrow> mac_server \<Rightarrow> mac_server \<Rightarrow> bool" for E cb where
  Mac_init: "mac_step E cb m (on_mbase (\<lambda>s. snd (srv_init hasCreate mx kick s)) m)"
| Mac_listen: "mac_step E cb m (snd (mac_startListen r m))"
| Mac_event: "(k_filter evt, k_source evt) \<in> set (kq_enabled m) \<Longrightarrow> mac_event E c0 now evt m = Inr m' \<Longrightarrow>
    mac_step E cb m m'"
| Mac_update: "\<forall>xs. mset (shuffle xs) = mset xs \<Longrightarrow> mac_update cb shuffle now m = Inr m' \<Longrightarrow> mac_step E cb m m'"
| Mac_kick: "mac_step E cb m (on_mbase (\<lambda>s. snd (kickClient i s)) m)"
| Mac_send: "srv_send E p xs (m_base m) = Inr s \<Longrightarrow> mac_step E cb m (m\<lparr>m_base := s\<rparr>)"

lemma mac_listen_ok:
  assumes "mac_ok m"
  shows "mac_ok (snd (mac_startListen r m))"
proof -
  let ?m = "snd (mac_startListen r m)"
  have "allClients (m_base ?m) = allClients (m_base m)" "next_ptr (m_base ?m) = next_ptr (m_base m)"
    "srv_log (m_base ?m) = srv_log (m_base m)" "srv_heap (m_base ?m) = srv_heap (m_base m)"
    "addingClients (m_base ?m) = addingClients (m_base m)"
    by (simp_all add: mac_startListen_def Let_def split: option.splits)
  moreover have "(EVFILT_WRITE, src) \<notin> set (kq_enabled ?m)" for src
    using assms by (auto simp: mac_ok_def mac_startListen_def Let_def split: option.splits)
  ultimately show ?thesis
    using assms life_inv_cong [of "m_base ?m" "m_base m"] by (simp add: mac_ok_def)
qed

lemma mac_step_ok:
  assumes cb: "tame_callbacks cb"
  shows "mac_step E cb m m' \<Longrightarrow> mac_ok m \<Longrightarrow> mac_ok m'"
proof (induction rule: mac_step.induct)
  case (Mac_init m hasCreate mx kick)
  then show ?case using srv_step_life [OF cb Init, of "m_base m" hasCreate mx kick] by (simp add: mac_ok_def)
next
  case (Mac_listen m r)
  then show ?case using mac_listen_ok by blast
next
  case (Mac_event evt m c0 now m')
  then show ?case using mac_ok_event by blast
next
  case (Mac_update shuffle now m m')
  then show ?case using mac_update_parts [OF cb] by blast
next
  case (Mac_kick m i)
  then show ?case using srv_step_life [OF cb Kick, of "m_base m" i] by (simp add: mac_ok_def)
next
  case (Mac_send p xs m s)
  then show ?case using srv_step_life [OF cb Send, of E p xs "m_base m" s] by (simp add: mac_ok_def)
qed

section \<open>Properties\<close>

text \<open>C26. In every run of the macOS server the life of each client is the one of the other
  platforms; but the filter for writing is never enabled, so that the event that would send what waits
  for a client never comes.\<close>

theorem mac_never_sends:
  assumes "tame_callbacks cb" and "(mac_step E cb)\<^sup>*\<^sup>* (mac_new h) m"
  shows "phase_of (m_base m) p \<in> {Unseen, Up, Gone} \<and> (phase_of (m_base m) p = Up \<longleftrightarrow> p \<in> snd ` set (allClients (m_base m)))
    \<and> (EVFILT_WRITE, src) \<notin> set (kq_enabled m)"
proof -
  have "mac_ok m"
    using assms(2)
  proof (induction rule: rtranclp_induct)
    case base
    have "life_inv [] (server_new h)" by (rule life_inv_new)
    then show ?case by (simp add: mac_ok_def mac_new_def server_new_def)
  next
    case (step m m')
    with mac_step_ok [OF assms(1)] show ?case by blast
  qed
  then show ?thesis using life_inv_lives unfolding mac_ok_def by blast
qed

theorem mac_never_sends_witness:
  "\<exists>m. (mac_step small_env no_callbacks)\<^sup>*\<^sup>* (mac_new (\<lambda>p. fresh_client)) m \<and> addingClients (m_base m) = [0]
     \<and> kq_enabled m \<noteq> [] \<and> (EVFILT_WRITE, Client_ptr 0) \<notin> set (kq_enabled m)"
proof -
  let ?r = "\<lparr>mr_socket = 3, mr_setsockopt = 0, mr_getfl = 0, mr_setfl = 0, mr_bind = 0, mr_listen = 0, mr_kqueue = 4,
    mr_add_listen = 0, mr_pipe = Some (5, 6), mr_add_pipe = 0\<rparr>"
  let ?e = "\<lparr>k_filter = EVFILT_READ, k_source = Listen_socket, k_data = 1, k_accepted = [7], k_recv = End_of_stream,
    k_send = Send_error\<rparr>"
  let ?m1 = "on_mbase (\<lambda>s. snd (srv_init True 10 100 s)) (mac_new (\<lambda>p. fresh_client))"
  let ?m2 = "snd (mac_startListen ?r ?m1)"
  let ?m3 = "mac_accepts fresh_client 5 [7] ?m2"
  have 1: "mac_step small_env no_callbacks (mac_new (\<lambda>p. fresh_client)) ?m1" by (rule Mac_init)
  have 2: "mac_step small_env no_callbacks ?m1 ?m2" by (rule Mac_listen)
  have 3: "mac_step small_env no_callbacks ?m2 ?m3"
    by (rule Mac_event [of ?e _ _ fresh_client 5]) (simp_all add: mac_startListen_def setNonBlock_def Let_def mac_event_def)
  from 1 2 3 have r: "(mac_step small_env no_callbacks)\<^sup>*\<^sup>* (mac_new (\<lambda>p. fresh_client)) ?m3"
    by (meson converse_rtranclp_into_rtranclp rtranclp.rtrancl_refl)
  moreover have "addingClients (m_base ?m3) = [0]" "kq_enabled ?m3 \<noteq> []"
    by (simp_all add: mac_startListen_def setNonBlock_def Let_def srv_init_def mac_new_def server_new_def
        addClient_def set_client_def)
  ultimately show ?thesis using mac_never_sends [OF no_callbacks_tame r] by blast
qed

section \<open>Corner cases\<close>

text \<open>The pipe that wakes the thread is registered without a client, but its event is handled as one of
  a client.\<close>

lemma mac_wake_up: "k_filter evt = EVFILT_READ \<Longrightarrow> k_source evt = Pipe_end \<Longrightarrow> mac_event E c0 now evt m = Inl Undefined_behaviour"
  by (simp add: mac_event_def on_client_def)

text \<open>Data that arrives before the last has been read is written over it.\<close>

lemma mac_read_overwrites:
  "\<exists>c. mac_readIntoBuffer small_env 1 (Received [9]) fresh_client = Inr c \<and> ba_unread (c_reader fresh_client) = [1, 2, 3]
     \<and> ba_unread (c_reader c) = [9, 2, 3, 0]"
  by (simp add: mac_readIntoBuffer_def client_init_def tiny_buffer_def ba_expand_def grow_stop poke_def Let_def
      set_writePosition_def ba_unread_def contents_def size_mod_def)

text \<open>What could not be sent is cut all the same.\<close>

lemma mac_write_loses:
  "\<exists>c. mac_writeFromBuffer small_env 8 Send_error fresh_client = Inr ([], c) \<and> ba_unread (c_writer c) = []
     \<and> ba_unread (c_writer fresh_client) = [1, 2, 3]"
  by (simp add: mac_writeFromBuffer_def client_init_def tiny_buffer_def readAvailable_def peek_def cutHead_def
      ba_truncate_def ba_unread_def contents_def Let_def size_mod_def)

end
