(* ===== verification/Request_Queue.thy ===== *)
theory Request_Queue
  imports Prelude
begin

text \<open>
  What the database queue and the HTTP queue have in common: a program adds requests, workers
  pull them in order, hand them back when they are handled, and the program collects those.
  The locale \<open>request_queue\<close> states this contract over the four operations and two views of the
  state; both queues interpret it. The events and their projections serve the runs of both.
\<close>

section \<open>Events of a run\<close>

datatype 'r queue_event = Added 'r | Taken 'r | Handled 'r | Finished 'r | Drained

primrec added :: "'r queue_event \<Rightarrow> 'r list" where
  "added (Added r) = [r]" | "added (Taken r) = []" | "added (Handled r) = []"
| "added (Finished r) = []" | "added Drained = []"

primrec taken :: "'r queue_event \<Rightarrow> 'r list" where
  "taken (Added r) = []" | "taken (Taken r) = [r]" | "taken (Handled r) = []"
| "taken (Finished r) = []" | "taken Drained = []"

primrec handled :: "'r queue_event \<Rightarrow> 'r list" where
  "handled (Added r) = []" | "handled (Taken r) = []" | "handled (Handled r) = [r]"
| "handled (Finished r) = []" | "handled Drained = []"

primrec finished :: "'r queue_event \<Rightarrow> 'r list" where
  "finished (Added r) = []" | "finished (Taken r) = []" | "finished (Handled r) = []"
| "finished (Finished r) = [r]" | "finished Drained = []"

abbreviation collect_events :: "('r queue_event \<Rightarrow> 'r list) \<Rightarrow> 'r queue_event list \<Rightarrow> 'r list" where
  "collect_events f tr \<equiv> concat (map f tr)"

section \<open>The books of a run\<close>

text \<open>
  What a run keeps in balance: the requests are taken in the order they were added; the taken ones
  have been handled or are with a worker; the handled ones have been finished, have been returned
  or are with a worker that is about to return them.
\<close>

definition books :: "'r queue_event list \<Rightarrow> 'r list \<Rightarrow> 'r list \<Rightarrow> 'r multiset \<Rightarrow> 'r multiset \<Rightarrow> bool" where
  "books tr waiting returned unhandled unreturned \<longleftrightarrow>
     collect_events taken tr @ waiting = collect_events added tr
   \<and> mset (collect_events taken tr) = mset (collect_events handled tr) + unhandled
   \<and> mset (collect_events handled tr) = mset (collect_events finished tr) + mset returned + unreturned"

lemma booksD:
  assumes "books tr w x u v"
  shows "collect_events taken tr @ w = collect_events added tr"
    and "mset (collect_events taken tr) = mset (collect_events handled tr) + u"
    and "mset (collect_events handled tr) = mset (collect_events finished tr) + mset x + v"
  using assms by (simp_all add: books_def)

lemma books_new [simp]: "books [] [] [] {#} {#}"
  by (simp add: books_def)

lemma books_handled: "books tr w x (u + {#r#}) v \<Longrightarrow> books (tr @ [Handled r]) w x u (v + {#r#})"
  by (simp add: books_def)

lemma books_finished: "books tr w (r # x) u v \<Longrightarrow> books (tr @ [Finished r]) w x u v"
  by (simp add: books_def)

lemma books_drained: "books tr w x u v \<Longrightarrow> books (tr @ [Drained]) w x u v"
  by (simp add: books_def)

text \<open>Nothing with the workers and nothing returned: what was taken is finished.\<close>

lemma books_closed:
  assumes "books tr w [] {#} {#}"
  shows "mset (collect_events finished tr) = mset (collect_events taken tr)"
    "mset (collect_events finished tr) + mset w = mset (collect_events added tr)"
  using assms by (simp_all add: books_def) (metis mset_append)

section \<open>The contract\<close>

locale request_queue =
  fixes add :: "'r \<Rightarrow> 's \<Rightarrow> 's" and pull :: "'s \<Rightarrow> 'r option \<times> 's" and waiting :: "'s \<Rightarrow> 'r list"
  assumes waiting_add: "waiting (add r s) = waiting s @ [r]"
    and pull_empty: "waiting s = [] \<Longrightarrow> pull s = (None, s)"
    and pull_front: "waiting s = r # rs \<Longrightarrow> fst (pull s) = Some r \<and> waiting (snd (pull s)) = rs"
begin

lemma pull_None: "pull s = (None, s') \<Longrightarrow> waiting s = [] \<and> s' = s"
  using pull_empty pull_front by (cases "waiting s") (auto, fastforce)

lemma pull_Some: "pull s = (Some r, s') \<Longrightarrow> waiting s = r # waiting s'"
  using pull_empty pull_front by (cases "waiting s") (auto, fastforce+)

lemma fifo_add: "ts @ waiting s = as \<Longrightarrow> ts @ waiting (add r s) = as @ [r]"
  by (auto simp: waiting_add)

lemma fifo_pull: "ts @ waiting s = as \<Longrightarrow> pull s = (Some r, s') \<Longrightarrow> (ts @ [r]) @ waiting s' = as"
  using pull_Some by fastforce

end

text \<open>A queue that also hands the requests back.\<close>

locale returning_queue = request_queue +
  fixes give_back :: "'a \<Rightarrow> 'b \<Rightarrow> 'b" and collect :: "'b \<Rightarrow> 'a list \<times> 'b" and ready :: "'b \<Rightarrow> 'a list"
  assumes ready_give_back: "ready (give_back r s) = ready s @ [r]"
    and waiting_give_back: "waiting (give_back r s) = waiting s"
    and ready_add: "ready (add r s) = ready s"
    and ready_pull: "ready (snd (pull s)) = ready s"
    and collect_all: "fst (collect s) = ready s \<and> ready (snd (collect s)) = []"
    and waiting_collect: "waiting (snd (collect s)) = waiting s"
begin

lemma collected: "collect s = (rs, s') \<Longrightarrow> rs = ready s \<and> ready s' = [] \<and> waiting s' = waiting s"
  using collect_all [of s] waiting_collect [of s] by simp

lemma pulled: "pull s = (Some r, s') \<Longrightarrow> waiting s = r # waiting s' \<and> ready s' = ready s"
  using pull_Some [of s r s'] ready_pull [of s] by simp

text \<open>Every operation of the contract keeps the books; \<open>tmp\<close> is what has been collected already.\<close>

lemma books_add:
  "books tr (waiting s) (tmp @ ready s) u v \<Longrightarrow>
     books (tr @ [Added r]) (waiting (add r s)) (tmp @ ready (add r s)) u v"
  by (auto simp: books_def waiting_add ready_add)

lemma books_pull:
  assumes "books tr (waiting s) (tmp @ ready s) u v" and "pull s = (Some r, s')"
  shows "books (tr @ [Taken r]) (waiting s') (tmp @ ready s') (u + {#r#}) v"
  using assms(1) pulled [OF assms(2)] by (simp add: books_def)

lemma books_give_back:
  "books tr (waiting s) (tmp @ ready s) u (v + {#r#}) \<Longrightarrow>
     books tr (waiting (give_back r s)) (tmp @ ready (give_back r s)) u v"
  by (simp add: books_def waiting_give_back ready_give_back)

lemma books_collect:
  assumes "books tr (waiting s) (ready s) u v" and "collect s = (tmp, s')"
  shows "books tr (waiting s') (tmp @ ready s') u v"
  using assms(1) collected [OF assms(2)] by simp

end

section \<open>What a list of workers holds\<close>

text \<open>The sum over the workers of the requests each of them has, or of some cost.\<close>

definition held_by :: "('w \<Rightarrow> 'm) \<Rightarrow> 'w list \<Rightarrow> 'm :: cancel_comm_monoid_add" where
  "held_by f ws = sum_list (map f ws)"

lemma held_by_Nil [simp]: "held_by f [] = 0"
  by (simp add: held_by_def)

lemma held_by_append [simp]: "held_by f (ws @ vs) = held_by f ws + held_by f vs"
  by (simp add: held_by_def)

lemma held_by_Cons [simp]: "held_by f (w # ws) = f w + held_by f ws"
  by (simp add: held_by_def)

lemma held_by_empty: "(\<And>w. w \<in> set ws \<Longrightarrow> f w = 0) \<Longrightarrow> held_by f ws = 0"
  by (induction ws) auto

lemma held_by_replicate [simp]: "f w = 0 \<Longrightarrow> held_by f (replicate n w) = 0"
  by (rule held_by_empty) (auto simp: in_set_replicate)

text \<open>When one worker changes, the requests it held are exchanged for the new ones.\<close>

lemma held_by_update:
  "i < length ws \<Longrightarrow> held_by f (ws[i := w]) + f (ws ! i) = held_by f ws + f w"
proof (induction ws arbitrary: i)
  case Nil
  then show ?case by simp
next
  case (Cons v vs)
  then show ?case by (cases i) (auto simp: ac_simps)
qed

lemma held_by_same:
  "i < length ws \<Longrightarrow> f w = f (ws ! i) \<Longrightarrow> held_by f (ws[i := w]) = held_by f ws"
  using held_by_update [of i ws f w] by simp

lemma held_by_gain:
  "i < length ws \<Longrightarrow> f (ws ! i) = 0 \<Longrightarrow> held_by f (ws[i := w]) = held_by f ws + f w"
  using held_by_update [of i ws f w] by simp

lemma held_by_lose:
  "i < length ws \<Longrightarrow> f w = 0 \<Longrightarrow> held_by f ws = held_by f (ws[i := w]) + f (ws ! i)"
  using held_by_update [of i ws f w] by simp

end
