(* ===== verification/Db_Queue.thy ===== *)
theory Db_Queue
  imports Request_Queue
begin

text \<open>
  \<^verbatim>\<open>DBQueue\<close> (Database.h, Database.cpp): requests are handled by worker threads and finished
  by the program's thread in \<^verbatim>\<open>update\<close>. A step of the relation \<open>dbq_step\<close> is what one
  thread does under a mutex or between two of them; the state of a worker is its place in
  \<^verbatim>\<open>DBWorkThread\<close>, that of the program's thread its place in \<^verbatim>\<open>setThread\<close>, \<^verbatim>\<open>update\<close> or the
  destructor. What MySQL answers to \<^verbatim>\<open>isConnected\<close> is the argument of a worker's step; the
  callbacks may add requests at any time.
\<close>

section \<open>The two queues\<close>

record 'r dbqueue =
  workQueue :: "'r list"
  workQueueLength :: nat
  finishQueue :: "'r list"

definition addRequest :: "'r \<Rightarrow> 'r dbqueue \<Rightarrow> 'r dbqueue" where
  "addRequest request q = (let w = workQueue q @ [request]
    in q\<lparr>workQueue := w, workQueueLength := length w\<rparr>)"

definition getRequest :: "'r dbqueue \<Rightarrow> 'r option \<times> 'r dbqueue" where
  "getRequest q = (case workQueue q of
     [] \<Rightarrow> (None, q)
   | request # w \<Rightarrow> (Some request, q\<lparr>workQueue := w, workQueueLength := length w\<rparr>))"

definition pushFinished :: "'r \<Rightarrow> 'r dbqueue \<Rightarrow> 'r dbqueue" where
  "pushFinished request q = q\<lparr>finishQueue := finishQueue q @ [request]\<rparr>"

text \<open>The part of \<^verbatim>\<open>update\<close> under the mutex: \<^verbatim>\<open>tmpQueue\<close> and the queue left.\<close>

definition swapFinished :: "'r dbqueue \<Rightarrow> 'r list \<times> 'r dbqueue" where
  "swapFinished q = (if finishQueue q \<noteq> [] then (finishQueue q, q\<lparr>finishQueue := []\<rparr>) else ([], q))"

definition getQueueLength :: "'r dbqueue \<Rightarrow> nat" where
  "getQueueLength q = workQueueLength q"

interpretation dbq: request_queue addRequest getRequest workQueue
  by unfold_locales (auto simp: addRequest_def getRequest_def Let_def)

interpretation dbr: returning_queue addRequest getRequest workQueue pushFinished swapFinished finishQueue
  by unfold_locales
    (auto simp: addRequest_def getRequest_def pushFinished_def swapFinished_def Let_def split: list.splits)

section \<open>Workers\<close>

text \<open>
  Where a worker is: at the loop's condition, in the connect loop with a request and the number
  of retries, about to call \<^verbatim>\<open>onRequest\<close>, about to push the request back, or gone.
\<close>

datatype 'r work_phase = Polling | Connecting 'r nat | Querying 'r | Returning 'r | Exited

record 'r worker =
  isExit :: bool
  phase :: "'r work_phase"

definition new_worker :: "'r worker" where
  "new_worker = \<lparr>isExit = False, phase = Polling\<rparr>"

fun work_step :: "bool \<Rightarrow> 'r worker \<Rightarrow> 'r dbqueue \<Rightarrow> 'r queue_event list \<times> 'r worker \<times> 'r dbqueue" where
  "work_step connected w q = (case phase w of
     Polling \<Rightarrow>
       if isExit w then ([], w\<lparr>phase := Exited\<rparr>, q)
       else (case getRequest q of
           (None, q') \<Rightarrow> ([], w, q')
         | (Some r, q') \<Rightarrow> ([Taken r], w\<lparr>phase := Connecting r 0\<rparr>, q'))
   | Connecting r retries \<Rightarrow>
       if connected then ([], w\<lparr>phase := Querying r\<rparr>, q)
       else ([], w\<lparr>phase := Connecting r (retries + 1)\<rparr>, q)
   | Querying r \<Rightarrow> ([Handled r], w\<lparr>phase := Returning r\<rparr>, q)
   | Returning r \<Rightarrow> ([], w\<lparr>phase := Polling\<rparr>, pushFinished r q)
   | Exited \<Rightarrow> ([], w, q))"

section \<open>The program's thread\<close>

text \<open>
  \<open>Shrinking n\<close> is \<^verbatim>\<open>setThread(n)\<close> on its way to fewer workers; the others are the places
  of the destructor: reading the length, the \<^verbatim>\<open>update\<close> of its loop, stopping worker \<open>i\<close>, the last
  \<^verbatim>\<open>update\<close>. Requests in \<open>tmpQueue\<close> are finished before anything else.
\<close>

datatype main_phase = Serving | Shrinking nat | Drain_check | Drain_update | Stopping nat
  | Last_update | Destroyed

record 'r db_system =
  dbqueue :: "'r dbqueue"
  workers :: "'r worker list"
  tmpQueue :: "'r list"
  main :: main_phase

definition dbq_new :: "'r db_system" where
  "dbq_new = \<lparr>dbqueue = \<lparr>workQueue = [], workQueueLength = 0, finishQueue = []\<rparr>,
     workers = [], tmpQueue = [], main = Serving\<rparr>"

definition dbq_closed :: "'r db_system \<Rightarrow> bool" where
  "dbq_closed s \<longleftrightarrow> main s = Destroyed \<and> tmpQueue s = []"

definition dbq_update :: "'r db_system \<Rightarrow> 'r db_system" where
  "dbq_update s = (let (tmp, q) = swapFinished (dbqueue s) in s\<lparr>tmpQueue := tmp, dbqueue := q\<rparr>)"

definition setThread :: "nat \<Rightarrow> 'r db_system \<Rightarrow> 'r db_system" where
  "setThread numThread s =
    (if length (workers s) < numThread
     then s\<lparr>workers := workers s @ replicate (numThread - length (workers s)) new_worker\<rparr>
     else s\<lparr>main := Shrinking numThread\<rparr>)"

text \<open>Setting the flag of one worker, then joining it: the join waits until it has left.\<close>

definition askExit :: "nat \<Rightarrow> 'r db_system \<Rightarrow> 'r db_system" where
  "askExit i s = s\<lparr>workers := (workers s)[i := (workers s ! i)\<lparr>isExit := True\<rparr>]\<rparr>"

definition joinable :: "nat \<Rightarrow> 'r db_system \<Rightarrow> bool" where
  "joinable i s \<longleftrightarrow> phase (workers s ! i) = Exited"

fun main_step :: "'r db_system \<Rightarrow> 'r queue_event list \<times> 'r db_system" where
  "main_step s = (case tmpQueue s of
     r # tmp \<Rightarrow> ([Finished r], s\<lparr>tmpQueue := tmp\<rparr>)
   | [] \<Rightarrow> (case main s of
       Serving \<Rightarrow> ([], s)
     | Shrinking n \<Rightarrow>
         if n < length (workers s)
         then let i = length (workers s) - 1 in
           if joinable i s then ([], s\<lparr>workers := butlast (workers s)\<rparr>)
           else ([], askExit i s)
         else ([], s\<lparr>main := Serving\<rparr>)
     | Drain_check \<Rightarrow>
         if getQueueLength (dbqueue s) \<noteq> 0 then ([], s\<lparr>main := Drain_update\<rparr>)
         else ([Drained], s\<lparr>main := Stopping 0\<rparr>)
     | Drain_update \<Rightarrow> ([], (dbq_update s)\<lparr>main := Drain_check\<rparr>)
     | Stopping i \<Rightarrow>
         if i < length (workers s)
         then if joinable i s then ([], s\<lparr>main := Stopping (i + 1)\<rparr>)
           else ([], askExit i s)
         else ([], s\<lparr>main := Last_update\<rparr>)
     | Last_update \<Rightarrow> ([], (dbq_update s)\<lparr>main := Destroyed\<rparr>)
     | Destroyed \<Rightarrow> ([], s)))"

section \<open>Runs\<close>

inductive dbq_step :: "'r db_system \<Rightarrow> 'r queue_event list \<Rightarrow> 'r db_system \<Rightarrow> bool" where
  add: "\<not> dbq_closed s \<Longrightarrow> dbq_step s [Added r] (s\<lparr>dbqueue := addRequest r (dbqueue s)\<rparr>)"
| work: "i < length (workers s) \<Longrightarrow> work_step connected (workers s ! i) (dbqueue s) = (ev, w, q) \<Longrightarrow>
    dbq_step s ev (s\<lparr>workers := (workers s)[i := w], dbqueue := q\<rparr>)"
| main: "main_step s = (ev, s') \<Longrightarrow> dbq_step s ev s'"
| update: "main s = Serving \<Longrightarrow> tmpQueue s = [] \<Longrightarrow> dbq_step s [] (dbq_update s)"
| resize: "main s = Serving \<Longrightarrow> tmpQueue s = [] \<Longrightarrow> dbq_step s [] (setThread n s)"
| destroy: "main s = Serving \<Longrightarrow> tmpQueue s = [] \<Longrightarrow> dbq_step s [] (s\<lparr>main := Drain_check\<rparr>)"

inductive_cases dbq_stepE: "dbq_step s ev s'"

inductive dbq_run :: "'r db_system \<Rightarrow> 'r queue_event list \<Rightarrow> 'r db_system \<Rightarrow> bool" where
  stop: "dbq_run s [] s"
| go: "dbq_run s tr s' \<Longrightarrow> dbq_step s' ev s'' \<Longrightarrow> dbq_run s (tr @ ev) s''"

section \<open>No request is lost or handled twice\<close>

definition unhandled :: "'r worker \<Rightarrow> 'r multiset" where
  "unhandled w = (case phase w of Connecting r n \<Rightarrow> {#r#} | Querying r \<Rightarrow> {#r#} | _ \<Rightarrow> {#})"

definition unreturned :: "'r worker \<Rightarrow> 'r multiset" where
  "unreturned w = (case phase w of Returning r \<Rightarrow> {#r#} | _ \<Rightarrow> {#})"

lemma held_simps [simp]:
  "unhandled new_worker = {#}" "unreturned new_worker = {#}"
  "unhandled (w\<lparr>isExit := b\<rparr>) = unhandled w" "unreturned (w\<lparr>isExit := b\<rparr>) = unreturned w"
  "phase w = Exited \<Longrightarrow> unhandled w = {#}" "phase w = Exited \<Longrightarrow> unreturned w = {#}"
  by (simp_all add: unhandled_def unreturned_def new_worker_def)

definition dbq_books :: "'r queue_event list \<Rightarrow> 'r db_system \<Rightarrow> bool" where
  "dbq_books tr s \<longleftrightarrow>
     books tr (workQueue (dbqueue s)) (tmpQueue s @ finishQueue (dbqueue s))
       (held_by unhandled (workers s)) (held_by unreturned (workers s))
   \<and> workQueueLength (dbqueue s) = length (workQueue (dbqueue s))"

text \<open>What one step of a worker does, by the phase it is in.\<close>

lemma work_stepE:
  assumes "work_step connected w q = (ev, w', q')"
  obtains (leaves) "phase w = Polling" "isExit w" "ev = []" "w' = w\<lparr>phase := Exited\<rparr>" "q' = q"
  | (idles) "ev = []" "unhandled w' = unhandled w" "unreturned w' = unreturned w" "q' = q"
      "isExit w' = isExit w" "(phase w' = Exited) = (phase w = Exited)"
  | (takes) r where "phase w = Polling" "\<not> isExit w" "ev = [Taken r]" "w' = w\<lparr>phase := Connecting r 0\<rparr>"
      "getRequest q = (Some r, q')"
  | (handles) r where "phase w = Querying r" "ev = [Handled r]" "w' = w\<lparr>phase := Returning r\<rparr>" "q' = q"
  | (returns) r where "phase w = Returning r" "ev = []" "w' = w\<lparr>phase := Polling\<rparr>" "q' = pushFinished r q"
  using assms
  by (cases "phase w")
    (auto simp: unhandled_def unreturned_def dest: dbq.pull_None split: if_splits prod.splits option.splits)

lemma length_kept:
  assumes "workQueueLength q = length (workQueue q)"
  shows "workQueueLength (addRequest r q) = length (workQueue (addRequest r q))"
    and "getRequest q = (x, q') \<Longrightarrow> workQueueLength q' = length (workQueue q')"
    and "workQueueLength (pushFinished r q) = length (workQueue (pushFinished r q))"
    and "swapFinished q = (tmp, q') \<Longrightarrow> workQueueLength q' = length (workQueue q')"
  using assms
  by (auto simp: addRequest_def getRequest_def pushFinished_def swapFinished_def Let_def
      split: list.splits if_splits)

lemma work_books:
  assumes b: "dbq_books tr s" and i: "i < length (workers s)"
    and step: "work_step connected (workers s ! i) (dbqueue s) = (ev, w, q)"
  shows "dbq_books (tr @ ev) (s\<lparr>workers := (workers s)[i := w], dbqueue := q\<rparr>)"
proof -
  from b have k: "books tr (workQueue (dbqueue s)) (tmpQueue s @ finishQueue (dbqueue s))
      (held_by unhandled (workers s)) (held_by unreturned (workers s))"
    and l: "workQueueLength (dbqueue s) = length (workQueue (dbqueue s))" by (simp_all add: dbq_books_def)
  from step show ?thesis
  proof (cases rule: work_stepE)
    case leaves
    then have "unhandled w = unhandled (workers s ! i)" "unreturned w = unreturned (workers s ! i)"
      by (simp_all add: unhandled_def unreturned_def)
    with b i leaves show ?thesis by (simp add: dbq_books_def held_by_same)
  next
    case idles
    with b i show ?thesis by (simp add: dbq_books_def held_by_same)
  next
    case (takes r)
    then have "unhandled (workers s ! i) = {#}" "unhandled w = {#r#}" "unreturned w = unreturned (workers s ! i)"
      by (simp_all add: unhandled_def unreturned_def)
    with dbr.books_pull [OF k takes(5)] length_kept(2) [OF l takes(5)] i takes show ?thesis
      by (simp add: dbq_books_def held_by_same held_by_gain)
  next
    case (handles r)
    then have "unhandled w = {#}" "unhandled (workers s ! i) = {#r#}" "unreturned (workers s ! i) = {#}"
      "unreturned w = {#r#}" by (simp_all add: unhandled_def unreturned_def)
    with held_by_lose [OF i, of unhandled w] held_by_gain [OF i, of unreturned w]
    have "held_by unhandled (workers s) = held_by unhandled ((workers s)[i := w]) + {#r#}"
      "held_by unreturned ((workers s)[i := w]) = held_by unreturned (workers s) + {#r#}" by simp_all
    with k l handles books_handled [of tr _ _ "held_by unhandled ((workers s)[i := w])" r] show ?thesis
      by (simp add: dbq_books_def)
  next
    case (returns r)
    then have h: "unhandled w = unhandled (workers s ! i)" "unreturned w = {#}" "unreturned (workers s ! i) = {#r#}"
      by (simp_all add: unhandled_def unreturned_def)
    with held_by_lose [OF i, of unreturned w] held_by_same [OF i, of unhandled w]
    have "held_by unreturned (workers s) = held_by unreturned ((workers s)[i := w]) + {#r#}"
      "held_by unhandled ((workers s)[i := w]) = held_by unhandled (workers s)" by simp_all
    with k have "books tr (workQueue (dbqueue s)) (tmpQueue s @ finishQueue (dbqueue s))
        (held_by unhandled ((workers s)[i := w])) (held_by unreturned ((workers s)[i := w]) + {#r#})" by simp
    from dbr.books_give_back [OF this] length_kept(3) [OF l] returns show ?thesis
      by (simp add: dbq_books_def)
  qed
qed

lemma update_books:
  assumes "dbq_books tr s" and "tmpQueue s = []"
  shows "dbq_books tr (dbq_update s)"
proof -
  obtain tmp q where "swapFinished (dbqueue s) = (tmp, q)" by fastforce
  with assms dbr.books_collect [OF _ this] length_kept(4) [OF _ this] show ?thesis
    by (simp add: dbq_books_def dbq_update_def)
qed

lemma askExit_books: "dbq_books tr s \<Longrightarrow> dbq_books tr (askExit i s)"
  by (cases "i < length (workers s)")
    (simp_all add: dbq_books_def askExit_def held_by_same list_update_beyond)

lemma pop_books:
  assumes "dbq_books tr s" and "joinable (length (workers s) - 1) s" and "workers s \<noteq> []"
  shows "dbq_books tr (s\<lparr>workers := butlast (workers s)\<rparr>)"
proof -
  from assms obtain ws w where w: "workers s = ws @ [w]" by (metis rev_exhaust)
  with assms(2) have "phase w = Exited" by (simp add: joinable_def)
  with w assms(1) show ?thesis by (simp add: dbq_books_def)
qed

lemma main_phase_books: "dbq_books tr s \<Longrightarrow> dbq_books tr (s\<lparr>main := m\<rparr>)"
  by (simp add: dbq_books_def)

text \<open>What one step of the program's thread does.\<close>

lemma main_stepE:
  assumes "main_step s = (ev, s')"
  obtains (finish) r tmp where "tmpQueue s = r # tmp" "ev = [Finished r]" "s' = s\<lparr>tmpQueue := tmp\<rparr>"
  | (rest) "ev = []" "s' = s" "tmpQueue s = []" "main s = Serving \<or> main s = Destroyed"
  | (pop) n where "tmpQueue s = []" "main s = Shrinking n" "n < length (workers s)"
      "joinable (length (workers s) - 1) s" "ev = []" "s' = s\<lparr>workers := butlast (workers s)\<rparr>"
  | (ask) i where "tmpQueue s = []" "ev = []" "s' = askExit i s" "i < length (workers s)"
      "main s = Stopping i \<or> (\<exists>n. main s = Shrinking n \<and> n < length (workers s) \<and> i = length (workers s) - 1)"
      "\<not> joinable i s"
  | (shrunk) n where "tmpQueue s = []" "main s = Shrinking n" "length (workers s) \<le> n" "ev = []" "s' = s\<lparr>main := Serving\<rparr>"
  | (waits) "tmpQueue s = []" "main s = Drain_check" "getQueueLength (dbqueue s) \<noteq> 0" "ev = []"
      "s' = s\<lparr>main := Drain_update\<rparr>"
  | (drained) "tmpQueue s = []" "main s = Drain_check" "getQueueLength (dbqueue s) = 0" "ev = [Drained]"
      "s' = s\<lparr>main := Stopping 0\<rparr>"
  | (collects) "tmpQueue s = []" "main s = Drain_update" "ev = []" "s' = (dbq_update s)\<lparr>main := Drain_check\<rparr>"
  | (joined) i where "tmpQueue s = []" "main s = Stopping i" "i < length (workers s)" "joinable i s" "ev = []"
      "s' = s\<lparr>main := Stopping (i + 1)\<rparr>"
  | (all_joined) i where "tmpQueue s = []" "main s = Stopping i" "length (workers s) \<le> i" "ev = []"
      "s' = s\<lparr>main := Last_update\<rparr>"
  | (final) "tmpQueue s = []" "main s = Last_update" "ev = []" "s' = (dbq_update s)\<lparr>main := Destroyed\<rparr>"
  using assms
  by (cases "main s"; cases "tmpQueue s") (auto simp: Let_def split: if_splits)

lemma main_books:
  assumes b: "dbq_books tr s" and step: "main_step s = (ev, s')"
  shows "dbq_books (tr @ ev) s'"
  using step
proof (cases rule: main_stepE)
  case (finish r tmp)
  with b show ?thesis by (simp add: dbq_books_def books_finished)
next
  case drained
  with b show ?thesis by (simp add: dbq_books_def books_drained)
qed (use b in \<open>auto simp: main_phase_books askExit_books update_books intro: pop_books\<close>)

lemma dbq_step_books:
  assumes "dbq_books tr s" and "dbq_step s ev s'"
  shows "dbq_books (tr @ ev) s'"
  using assms(2)
proof cases
  case (add r)
  with assms(1) dbr.books_add length_kept(1) show ?thesis by (auto simp: dbq_books_def)
next
  case (work i connected w q)
  with assms(1) show ?thesis by (simp add: work_books)
next
  case main
  with assms(1) show ?thesis by (rule main_books)
next
  case update
  with assms(1) show ?thesis by (simp add: update_books)
next
  case (resize n)
  with assms(1) show ?thesis by (simp add: setThread_def dbq_books_def)
next
  case destroy
  with assms(1) show ?thesis by (simp add: main_phase_books)
qed

lemma dbq_new_books: "dbq_books [] dbq_new"
  by (simp add: dbq_books_def dbq_new_def)

lemma dbq_run_books: "dbq_run s tr s' \<Longrightarrow> dbq_books tr0 s \<Longrightarrow> dbq_books (tr0 @ tr) s'"
  by (induction rule: dbq_run.induct) (auto dest: dbq_step_books)

declare work_step.simps [simp del] main_step.simps [simp del]

end
