(* ===== verification/Db_Queue_Life.thy ===== *)
theory Db_Queue_Life
  imports Db_Queue
begin

text \<open>
  The life of a \<^verbatim>\<open>DBQueue\<close>: what its destructor leaves behind, that it can end, and when it
  cannot; with the properties of the queue.
\<close>

section \<open>Invariant of the threads\<close>

definition alive :: "'r worker \<Rightarrow> bool" where
  "alive w \<longleftrightarrow> \<not> isExit w \<and> phase w \<noteq> Exited"

text \<open>
  Workers leave only when asked. Before the destructor stops them all are alive, except the one
  at the back that \<^verbatim>\<open>setThread\<close> removes; when it has stopped \<open>i\<close> of them these have left, and in the
  end all have, and nothing is left to be finished.
\<close>

fun threads_ok :: "main_phase \<Rightarrow> 'r db_system \<Rightarrow> bool" where
  "threads_ok (Shrinking n) s \<longleftrightarrow>
    list_all alive (if n < length (workers s) then butlast (workers s) else workers s)"
| "threads_ok (Stopping i) s \<longleftrightarrow> i \<le> length (workers s) \<and> (\<forall>j<i. phase (workers s ! j) = Exited)"
| "threads_ok Last_update s \<longleftrightarrow> list_all (\<lambda>w. phase w = Exited) (workers s)"
| "threads_ok Destroyed s \<longleftrightarrow> list_all (\<lambda>w. phase w = Exited) (workers s) \<and> finishQueue (dbqueue s) = []"
| "threads_ok m s \<longleftrightarrow> list_all alive (workers s)"

definition asked_to_leave :: "'r db_system \<Rightarrow> bool" where
  "asked_to_leave s \<longleftrightarrow> list_all (\<lambda>w. phase w = Exited \<longrightarrow> isExit w) (workers s)"

definition dbq_threads :: "'r db_system \<Rightarrow> bool" where
  "dbq_threads s \<longleftrightarrow> threads_ok (main s) s \<and> asked_to_leave s"

lemma alive_simps [simp]: "alive new_worker" "phase new_worker = Polling" "\<not> isExit new_worker"
  by (simp_all add: alive_def new_worker_def)

lemma list_all_update: "list_all P xs \<Longrightarrow> (i < length xs \<Longrightarrow> P x) \<Longrightarrow> list_all P (xs[i := x])"
  by (cases "i < length xs") (auto simp: list_all_length nth_list_update list_update_beyond)

lemma work_keeps:
  assumes "work_step connected w q = (ev, w', q')"
  shows "isExit w' = isExit w" and "phase w = Exited \<Longrightarrow> phase w' = Exited \<and> q' = q"
    and "phase w' = Exited \<Longrightarrow> phase w = Exited \<or> isExit w"
    and "alive w \<Longrightarrow> alive w'"
  using assms by (cases rule: work_stepE; force simp: alive_def)+

lemma work_threads:
  assumes t: "dbq_threads s" and i: "i < length (workers s)"
    and w: "work_step connected (workers s ! i) (dbqueue s) = (ev, w, q)"
  shows "dbq_threads (s\<lparr>workers := (workers s)[i := w], dbqueue := q\<rparr>)"
proof -
  let ?s = "s\<lparr>workers := (workers s)[i := w], dbqueue := q\<rparr>"
  from t i have a: "phase (workers s ! i) = Exited \<longrightarrow> isExit (workers s ! i)"
    by (auto simp: dbq_threads_def asked_to_leave_def list_all_length)
  have "asked_to_leave ?s"
    using t a work_keeps [OF w] by (auto simp: dbq_threads_def asked_to_leave_def intro!: list_all_update)
  moreover have "threads_ok (main s) ?s"
  proof (cases "main s")
    case (Shrinking n)
    have "list_all alive ((butlast (workers s))[i := w])" if "n < length (workers s)" "i < length (workers s) - 1"
      using t Shrinking work_keeps(4) [OF w] that
      by (intro list_all_update) (auto simp: dbq_threads_def list_all_length nth_butlast)
    moreover have "list_all alive ((workers s)[i := w])" if "\<not> n < length (workers s)"
      using t Shrinking work_keeps(4) [OF w] that i
      by (intro list_all_update) (auto simp: dbq_threads_def list_all_length)
    ultimately show ?thesis using t Shrinking i
      by (cases "i = length (workers s) - 1") (auto simp: dbq_threads_def butlast_list_update)
  next
    case (Stopping k)
    with t work_keeps(2) [OF w] i show ?thesis by (auto simp: dbq_threads_def nth_list_update)
  next
    case Destroyed
    with t work_keeps(2) [OF w] i show ?thesis
      by (auto simp: dbq_threads_def list_all_length nth_list_update)
  qed (use t work_keeps(2,4) [OF w] i in \<open>auto simp: dbq_threads_def list_all_length nth_list_update\<close>)
  ultimately show ?thesis by (simp add: dbq_threads_def)
qed

lemma list_all_butlast: "list_all P xs \<Longrightarrow> list_all P (butlast xs)"
  by (auto simp: list_all_iff dest: in_set_butlastD)

lemma update_threads:
  "threads_ok m s \<Longrightarrow> threads_ok m (dbq_update s)" "asked_to_leave (dbq_update s) = asked_to_leave s"
  "finishQueue (dbqueue (dbq_update s)) = []" "workers (dbq_update s) = workers s"
  "main (dbq_update s) = main s"
  by (cases m; simp add: dbq_update_def swapFinished_def split: if_splits)
    (simp_all add: dbq_update_def swapFinished_def asked_to_leave_def)

lemma main_threads:
  assumes t: "dbq_threads s" and step: "main_step s = (ev, s')"
  shows "dbq_threads s'"
  using step
proof (cases rule: main_stepE)
  case (finish r tmp)
  with t show ?thesis by (cases "main s") (auto simp: dbq_threads_def asked_to_leave_def)
next
  case (pop n)
  with t show ?thesis
    by (auto simp: dbq_threads_def asked_to_leave_def intro: list_all_butlast)
next
  case (ask i)
  have "asked_to_leave (askExit i s)"
    using t ask(4) by (auto simp: dbq_threads_def asked_to_leave_def askExit_def intro!: list_all_update)
  moreover have "threads_ok (main s) (askExit i s)"
  proof (cases "main s")
    case (Stopping k)
    with t ask(4) show ?thesis by (auto simp: dbq_threads_def askExit_def nth_list_update)
  next
    case (Shrinking n)
    with t ask(4,5) show ?thesis by (simp add: dbq_threads_def askExit_def butlast_list_update)
  qed (use t ask in auto)
  ultimately show ?thesis using ask by (simp add: dbq_threads_def askExit_def)
next
  case (joined i)
  with t show ?thesis by (auto simp: dbq_threads_def asked_to_leave_def joinable_def less_Suc_eq)
next
  case (all_joined i)
  with t show ?thesis by (auto simp: dbq_threads_def asked_to_leave_def list_all_length)
qed (use t in \<open>auto simp: dbq_threads_def update_threads asked_to_leave_def\<close>)

lemma dbq_step_threads:
  assumes "dbq_threads s" and "dbq_step s ev s'"
  shows "dbq_threads s'"
  using assms(2)
proof cases
  case (add r)
  with assms(1) show ?thesis
    by (cases "main s") (auto simp: dbq_threads_def asked_to_leave_def addRequest_def Let_def)
next
  case (work i connected w q)
  with assms(1) show ?thesis by (simp add: work_threads)
next
  case main
  with assms(1) show ?thesis by (rule main_threads)
next
  case update
  with assms(1) show ?thesis by (simp add: dbq_threads_def update_threads)
next
  case (resize n)
  with assms(1) show ?thesis
    by (auto simp: setThread_def dbq_threads_def asked_to_leave_def list_all_length nth_append nth_butlast)
next
  case destroy
  with assms(1) show ?thesis by (simp add: dbq_threads_def asked_to_leave_def)
qed

lemma dbq_run_threads: "dbq_run s tr s' \<Longrightarrow> dbq_threads s \<Longrightarrow> dbq_threads s'"
  by (induction rule: dbq_run.induct) (auto dest: dbq_step_threads)

lemma dbq_new_threads: "dbq_threads dbq_new"
  by (simp add: dbq_threads_def asked_to_leave_def dbq_new_def)

section \<open>When the destructor has seen the queue empty\<close>

fun stopped :: "main_phase \<Rightarrow> bool" where
  "stopped (Stopping i) = True"
| "stopped Last_update = True"
| "stopped Destroyed = True"
| "stopped m = False"

text \<open>
  The event \<open>Drained\<close> happens once, when the destructor leaves its loop, and everything that
  has been added by then has been taken.
\<close>

definition drained_once :: "'r queue_event list \<Rightarrow> 'r db_system \<Rightarrow> bool" where
  "drained_once tr s \<longleftrightarrow>
    (if stopped (main s)
     then \<exists>tr1 tr2. tr = tr1 @ Drained # tr2 \<and> Drained \<notin> set tr1 \<union> set tr2
       \<and> collect_events taken tr1 = collect_events added tr1
     else Drained \<notin> set tr)"

lemma drained_once_more:
  "drained_once tr s \<Longrightarrow> stopped (main s') = stopped (main s) \<Longrightarrow> Drained \<notin> set ev \<Longrightarrow> drained_once (tr @ ev) s'"
  unfolding drained_once_def by (auto split: if_splits) (metis Un_iff append.assoc append_Cons set_append)

lemma work_no_drain: "work_step connected w q = (ev, w', q') \<Longrightarrow> Drained \<notin> set ev"
  by (erule work_stepE) auto

lemma main_drained:
  assumes d: "drained_once tr s" and b: "dbq_books tr s" and step: "main_step s = (ev, s')"
  shows "drained_once (tr @ ev) s'"
  using step
proof (cases rule: main_stepE)
  case drained
  with b have "collect_events taken tr = collect_events added tr"
    by (simp add: dbq_books_def books_def getQueueLength_def)
  with d drained show ?thesis by (force simp: drained_once_def)
qed (use d in \<open>auto intro!: drained_once_more [of tr s, where ev = "[]", simplified]
    drained_once_more [of tr s] simp: askExit_def update_threads\<close>)

lemma dbq_step_drained:
  assumes "drained_once tr s" and "dbq_books tr s" and "dbq_step s ev s'"
  shows "drained_once (tr @ ev) s'"
  using assms(3)
proof cases
  case (add r)
  with assms(1) show ?thesis by (intro drained_once_more) auto
next
  case (work i connected w q)
  with assms(1) show ?thesis by (intro drained_once_more) (auto dest: work_no_drain)
next
  case main
  with assms(1,2) show ?thesis by (rule main_drained)
qed (use assms(1) in \<open>auto intro!: drained_once_more [of tr s, where ev = "[]", simplified]
    simp: update_threads setThread_def\<close>)

lemma dbq_new_drained: "drained_once [] dbq_new"
  by (simp add: drained_once_def dbq_new_def)

lemma dbq_run_invariants:
  assumes "dbq_run dbq_new tr s"
  shows "dbq_books tr s" and "dbq_threads s" and "drained_once tr s"
proof -
  show "dbq_books tr s" using dbq_run_books [OF assms dbq_new_books] by simp
  show "dbq_threads s" using dbq_run_threads [OF assms dbq_new_threads] .
  have "drained_once tr s" if "dbq_run q tr s" "q = dbq_new" for q tr and s :: "'a db_system"
    using that
  proof (induction rule: dbq_run.induct)
    case (stop s)
    then show ?case by (simp add: dbq_new_drained)
  next
    case (go s tr s' ev s'')
    have "dbq_books tr s'" using dbq_run_books [OF go(1), of "[]"] dbq_new_books go.prems by simp
    with go show ?case by (auto intro: dbq_step_drained)
  qed
  with assms show "drained_once tr s" by blast
qed

section \<open>The destructor can end\<close>

definition work_cost :: "'r worker \<Rightarrow> nat" where
  "work_cost w = (if isExit w then 0 else 1)
     + (case phase w of Polling \<Rightarrow> 1 | Connecting r n \<Rightarrow> 6 | Querying r \<Rightarrow> 5 | Returning r \<Rightarrow> 4 | Exited \<Rightarrow> 0)"

fun main_cost :: "main_phase \<Rightarrow> nat \<Rightarrow> nat" where
  "main_cost Drain_update n = n + 6"
| "main_cost Drain_check n = n + 5"
| "main_cost (Stopping i) n = n - i + 4"
| "main_cost Last_update n = 3"
| "main_cost Destroyed n = 0"
| "main_cost m n = n + 7"

text \<open>The work left: a step that makes progress takes some of it away.\<close>

definition work_left :: "'r db_system \<Rightarrow> nat" where
  "work_left s = held_by work_cost (workers s) + 8 * length (workQueue (dbqueue s))
     + 2 * length (finishQueue (dbqueue s)) + length (tmpQueue s) + main_cost (main s) (length (workers s))"

text \<open>The destructor runs, and somebody can take the requests that wait.\<close>

definition stoppable :: "'r db_system \<Rightarrow> bool" where
  "stoppable s \<longleftrightarrow> main s \<noteq> Serving \<and> (\<forall>n. main s \<noteq> Shrinking n)
     \<and> (workers s \<noteq> [] \<or> workQueue (dbqueue s) = [])"

definition progress :: "'r db_system \<Rightarrow> bool" where
  "progress s \<longleftrightarrow> (\<exists>ev s'. dbq_step s ev s' \<and> collect_events added ev = [] \<and> work_left s' < work_left s
     \<and> stoppable s')"

lemma progressI:
  "dbq_step s ev s' \<Longrightarrow> collect_events added ev = [] \<Longrightarrow> work_left s' < work_left s \<Longrightarrow> stoppable s' \<Longrightarrow> progress s"
  by (auto simp: progress_def)

text \<open>A worker that holds a request, can take one or has been asked to leave makes progress.\<close>

lemma worker_progress:
  assumes i: "i < length (workers s)" and m: "stoppable s"
    and busy: "phase (workers s ! i) \<noteq> Exited"
      "phase (workers s ! i) = Polling \<Longrightarrow> isExit (workers s ! i) \<or> workQueue (dbqueue s) \<noteq> []"
  shows "progress s"
proof -
  let ?w = "workers s ! i"
  obtain ev w q where st: "work_step True ?w (dbqueue s) = (ev, w, q)" by (metis prod_cases3)
  let ?s = "s\<lparr>workers := (workers s)[i := w], dbqueue := q\<rparr>"
  have "work_cost w + 8 * length (workQueue q) + 2 * length (finishQueue q)
      < work_cost ?w + 8 * length (workQueue (dbqueue s)) + 2 * length (finishQueue (dbqueue s))
    \<and> collect_events added ev = []"
    using st busy
    by (cases "phase ?w") (auto simp: work_step.simps work_cost_def getRequest_def pushFinished_def
        split: if_splits list.splits option.splits prod.splits)
  moreover have "held_by work_cost ((workers s)[i := w]) + work_cost ?w = held_by work_cost (workers s) + work_cost w"
    using held_by_update [OF i] .
  ultimately have "work_left ?s < work_left s" "collect_events added ev = []"
    by (auto simp: work_left_def)
  moreover have "stoppable ?s" using m i by (auto simp: stoppable_def)
  ultimately show ?thesis using dbq_step.work [OF i st] by (intro progressI)
qed

lemma ask_progress:
  assumes "i < length (workers s)" and "\<not> isExit (workers s ! i)" and "stoppable s"
    and "main_step s = ([], askExit i s)"
  shows "progress s"
proof (rule progressI)
  show "dbq_step s [] (askExit i s)" using assms(4) by (rule dbq_step.main)
  show "work_left (askExit i s) < work_left s"
    using held_by_update [OF assms(1), of work_cost "(workers s ! i)\<lparr>isExit := True\<rparr>"] assms(2)
    by (simp add: work_left_def askExit_def work_cost_def)
  show "stoppable (askExit i s)" using assms(3) by (auto simp: stoppable_def askExit_def)
qed simp

text \<open>A step of the program's thread to the next place of the destructor.\<close>

lemma phase_progress:
  assumes "main_step s = (ev, s\<lparr>main := m\<rparr>)" and "collect_events added ev = []" and "stoppable s"
    and "main_cost m (length (workers s)) < main_cost (main s) (length (workers s))" and "stopped m"
  shows "progress s"
  using assms
  by (intro progressI [of s ev "s\<lparr>main := m\<rparr>"] dbq_step.main) (auto simp: work_left_def stoppable_def)

lemma update_progress:
  assumes "main_step s = ([], (dbq_update s)\<lparr>main := m\<rparr>)" and "stoppable s" and "tmpQueue s = []"
    and "main_cost m (length (workers s)) < main_cost (main s) (length (workers s))"
    and "m = Drain_check \<or> m = Destroyed"
  shows "progress s"
  using assms
  by (intro progressI [of s "[]" "(dbq_update s)\<lparr>main := m\<rparr>"] dbq_step.main)
    (auto simp: work_left_def stoppable_def dbq_update_def swapFinished_def)

lemma stopping_progress:
  assumes "main s = Stopping i" and "tmpQueue s = []" and "stoppable s"
  shows "progress s"
proof (cases "i < length (workers s) \<and> \<not> joinable i s")
  case True
  with assms have "main_step s = ([], askExit i s)" by (simp add: main_step.simps)
  with True assms show ?thesis
    by (cases "isExit (workers s ! i)") (auto simp: joinable_def intro: worker_progress ask_progress)
next
  case False
  with assms show ?thesis
    by (cases "i < length (workers s)") (auto simp: main_step.simps intro!: phase_progress)
qed

lemma destructor_progress:
  assumes st: "stoppable s" and b: "dbq_books tr s" and t: "dbq_threads s" and "\<not> dbq_closed s"
  shows "progress s"
proof (cases "tmpQueue s")
  case (Cons r tmp)
  with st show ?thesis
    by (intro progressI [of s "[Finished r]" "s\<lparr>tmpQueue := tmp\<rparr>"] dbq_step.main)
      (auto simp: main_step.simps work_left_def stoppable_def)
next
  case Nil
  show ?thesis
  proof (cases "main s")
    case Drain_check
    show ?thesis
    proof (cases "workQueue (dbqueue s) = []")
      case True
      with Nil Drain_check b st show ?thesis
        by (intro phase_progress [of s "[Drained]" "Stopping 0"])
          (auto simp: main_step.simps getQueueLength_def dbq_books_def)
    next
      case False
      with st have w: "0 < length (workers s)" by (auto simp: stoppable_def)
      with t Drain_check have "alive (workers s ! 0)"
        by (auto simp: dbq_threads_def list_all_length)
      with w st False show ?thesis by (auto simp: alive_def intro: worker_progress)
    qed
  qed (use Nil st assms(4) in \<open>auto simp: main_step.simps stoppable_def dbq_closed_def
        intro: stopping_progress update_progress\<close>)
qed

lemma dbq_run_trans: "dbq_run s' tr' s'' \<Longrightarrow> dbq_run s tr s' \<Longrightarrow> dbq_run s (tr @ tr') s''"
proof (induction rule: dbq_run.induct)
  case (go s1 tr1 s2 ev s3)
  then have "dbq_run s ((tr @ tr1) @ ev) s3" by (intro dbq_run.go [of s "tr @ tr1" s2]) simp_all
  then show ?case by simp
qed simp

lemma dbq_run_one: "dbq_step s ev s' \<Longrightarrow> dbq_run s ev s'"
  using dbq_run.go [OF dbq_run.stop [of s], of ev s'] by simp

lemma destructor_ends:
  assumes "dbq_run dbq_new tr s" and "stoppable s"
  shows "\<exists>tr' s'. dbq_run s tr' s' \<and> dbq_closed s' \<and> collect_events added tr' = []"
  using assms
proof (induction "work_left s" arbitrary: tr s rule: less_induct)
  case less
  show ?case
  proof (cases "dbq_closed s")
    case True
    then show ?thesis by (intro exI [of _ "[]"] exI [of _ s]) (simp add: dbq_run.stop)
  next
    case False
    from destructor_progress [OF less.prems(2) dbq_run_invariants(1,2) [OF less.prems(1)] False]
    obtain ev s1 where s1: "dbq_step s ev s1" "collect_events added ev = []" "work_left s1 < work_left s"
      "stoppable s1" unfolding progress_def by blast
    from less.hyps [OF s1(3) dbq_run.go [OF less.prems(1) s1(1)] s1(4)]
    obtain tr' s' where "dbq_run s1 tr' s'" "dbq_closed s'" "collect_events added tr' = []" by blast
    with dbq_run_trans [OF _ dbq_run_one [OF s1(1)]] s1(2) show ?thesis
      by (intro exI [of _ "ev @ tr'"] exI [of _ s']) auto
  qed
qed

text \<open>Without a worker nobody empties the queue: the destructor goes round its loop for ever.\<close>

lemma no_worker_step:
  assumes "dbq_step s ev s'" and "workers s = []" and "getQueueLength (dbqueue s) \<noteq> 0"
    and "main s = Drain_check \<or> main s = Drain_update"
  shows "workers s' = [] \<and> getQueueLength (dbqueue s') \<noteq> 0 \<and> (main s' = Drain_check \<or> main s' = Drain_update)"
  using assms(1)
proof cases
  case main
  then show ?thesis
    using assms(2-4)
    by (cases rule: main_stepE) (auto simp: dbq_update_def swapFinished_def getQueueLength_def)
qed (use assms(2-4) in \<open>auto simp: addRequest_def getQueueLength_def Let_def\<close>)

lemma no_worker_hangs:
  assumes "dbq_run s tr s'" and "workers s = []" and "getQueueLength (dbqueue s) \<noteq> 0"
    and "main s = Drain_check \<or> main s = Drain_update"
  shows "\<not> dbq_closed s'"
proof -
  have "workers s' = [] \<and> getQueueLength (dbqueue s') \<noteq> 0 \<and> (main s' = Drain_check \<or> main s' = Drain_update)"
    using assms by (induction rule: dbq_run.induct) (auto dest: no_worker_step)
  then show ?thesis by (auto simp: dbq_closed_def)
qed

section \<open>The end of a run\<close>

lemma closed_held:
  assumes "dbq_threads s" and "dbq_closed s"
  shows "held_by unhandled (workers s) = {#}" "held_by unreturned (workers s) = {#}"
    "finishQueue (dbqueue s) = []" "list_all (\<lambda>w. phase w = Exited) (workers s)"
  using assms by (auto simp: dbq_threads_def dbq_closed_def list_all_iff intro!: held_by_empty)

lemma closed_books:
  assumes "dbq_books tr s" and "dbq_threads s" and "dbq_closed s"
  shows "mset (collect_events finished tr) = mset (collect_events taken tr)"
    "mset (collect_events finished tr) + mset (workQueue (dbqueue s)) = mset (collect_events added tr)"
proof -
  have "books tr (workQueue (dbqueue s)) [] {#} {#}"
    using assms(1) closed_held [OF assms(2,3)] assms(3) by (simp add: dbq_books_def dbq_closed_def)
  from books_closed [OF this] show "mset (collect_events finished tr) = mset (collect_events taken tr)"
    "mset (collect_events finished tr) + mset (workQueue (dbqueue s)) = mset (collect_events added tr)" .
qed

lemma run_books:
  assumes "dbq_run dbq_new tr s"
  shows "books tr (workQueue (dbqueue s)) (tmpQueue s @ finishQueue (dbqueue s))
    (held_by unhandled (workers s)) (held_by unreturned (workers s))"
  using dbq_run_invariants(1) [OF assms] by (simp add: dbq_books_def)

lemma closed_drained:
  assumes "dbq_run dbq_new tr s" and "dbq_closed s"
  obtains tr1 tr2 where "tr = tr1 @ Drained # tr2" and "Drained \<notin> set tr1 \<union> set tr2"
    and "collect_events taken tr2 @ workQueue (dbqueue s) = collect_events added tr2"
proof -
  note inv = dbq_run_invariants [OF assms(1)]
  from inv(3) assms(2) obtain tr1 tr2 where tr: "tr = tr1 @ Drained # tr2"
      "Drained \<notin> set tr1 \<union> set tr2" "collect_events taken tr1 = collect_events added tr1"
    by (auto simp: drained_once_def dbq_closed_def)
  moreover have "collect_events taken tr2 @ workQueue (dbqueue s) = collect_events added tr2"
    using booksD(1) [OF run_books [OF assms(1)]] tr by simp
  ultimately show ?thesis using that by blast
qed

lemma late_part:
  assumes "xs @ ys = us @ z # vs" and "z \<notin> set xs"
  shows "\<exists>ws. ys = ws @ z # vs"
  using assms by (auto simp: append_eq_append_conv2 append_eq_Cons_conv)

text \<open>A run used by the examples: one worker, the request 7, and the destructor begins.\<close>

definition one_request :: "nat db_system" where
  "one_request = \<lparr>dbqueue = \<lparr>workQueue = [7], workQueueLength = 1, finishQueue = []\<rparr>,
     workers = [new_worker], tmpQueue = [], main = Drain_check\<rparr>"

lemma one_request_run: "dbq_run dbq_new [Added 7] one_request"
proof -
  let ?s1 = "setThread 1 (dbq_new :: nat db_system)"
  let ?s2 = "?s1\<lparr>dbqueue := addRequest 7 (dbqueue ?s1)\<rparr>"
  have "dbq_run dbq_new ([] @ []) ?s1"
    by (rule dbq_run.go [OF dbq_run.stop dbq_step.resize]) (simp_all add: dbq_new_def)
  then have "dbq_run dbq_new (([] @ []) @ [Added 7]) ?s2"
    by (rule dbq_run.go [OF _ dbq_step.add]) (simp add: dbq_closed_def dbq_new_def setThread_def)
  then have "dbq_run dbq_new ((([] @ []) @ [Added 7]) @ []) (?s2\<lparr>main := Drain_check\<rparr>)"
    by (rule dbq_run.go [OF _ dbq_step.destroy]) (simp_all add: dbq_new_def setThread_def)
  moreover have "?s2\<lparr>main := Drain_check\<rparr> = one_request"
    by (simp add: one_request_def dbq_new_def setThread_def addRequest_def Let_def)
  ultimately show ?thesis by simp
qed

section \<open>Properties\<close>

text \<open>C3. Whatever the threads do, no request is lost, doubled or overtaken before it is taken: the
  workers take the requests in the order they were added, a taken request is with one worker or has
  been handled, and a handled one is with its worker, in one of the two lists that wait for
  \<^verbatim>\<open>onFinish\<close>, or finished.\<close>

theorem dbq_conserves:
  assumes "dbq_run dbq_new tr s"
  shows "collect_events taken tr @ workQueue (dbqueue s) = collect_events added tr
    \<and> mset (collect_events taken tr) = mset (collect_events handled tr) + held_by unhandled (workers s)
    \<and> mset (collect_events handled tr) = mset (collect_events finished tr) + mset (tmpQueue s)
       + mset (finishQueue (dbqueue s)) + held_by unreturned (workers s)"
  using booksD [OF run_books [OF assms]] by simp

theorem dbq_conserves_witness:
  "collect_events taken [Added 7] @ workQueue (dbqueue one_request) = [7]"
  using dbq_conserves [OF one_request_run] by simp

text \<open>C4. When the destructor has returned, all workers have left, every request that was taken has
  been handled and finished, and what has not been taken was added after the destructor had seen
  the queue empty: without such a request every request ever added is finished.\<close>

theorem dbq_destroyed:
  assumes "dbq_run dbq_new tr s" and "dbq_closed s"
  shows "list_all (\<lambda>w. phase w = Exited) (workers s)
    \<and> mset (collect_events finished tr) = mset (collect_events taken tr)
    \<and> (\<exists>tr1 tr2. tr = tr1 @ Drained # tr2 \<and> Drained \<notin> set tr1 \<union> set tr2
         \<and> collect_events added tr = collect_events taken tr @ workQueue (dbqueue s)
         \<and> length (workQueue (dbqueue s)) \<le> length (collect_events added tr2))"
proof -
  note inv = dbq_run_invariants [OF assms(1)]
  from closed_drained [OF assms] obtain tr1 tr2 where tr: "tr = tr1 @ Drained # tr2"
      "Drained \<notin> set tr1 \<union> set tr2"
      "collect_events taken tr2 @ workQueue (dbqueue s) = collect_events added tr2" .
  from tr(3) have "length (workQueue (dbqueue s)) \<le> length (collect_events added tr2)"
    by (metis le_add2 length_append)
  with tr booksD(1) [OF run_books [OF assms(1)]] closed_held(4) [OF inv(2) assms(2)] closed_books(1) [OF inv(1,2) assms(2)]
  show ?thesis by auto
qed

theorem dbq_destroyed_witness:
  "\<exists>tr s. dbq_run dbq_new tr s \<and> (7 :: nat) \<in> set (collect_events added tr)
     \<and> list_all (\<lambda>w. phase w = Exited) (workers s)
     \<and> mset (collect_events finished tr) = mset (collect_events taken tr)"
proof -
  have "stoppable one_request" by (simp add: stoppable_def one_request_def)
  from destructor_ends [OF one_request_run this] obtain tr' s' where e: "dbq_run one_request tr' s'"
    "dbq_closed s'" by blast
  have run: "dbq_run dbq_new ([Added 7] @ tr') s'" by (rule dbq_run_trans [OF e(1) one_request_run])
  have "7 \<in> set (collect_events added ([Added 7] @ tr'))" by simp
  with dbq_destroyed [OF run e(2)] run show ?thesis by blast
qed

text \<open>C5. The destructor can always end: with at least one worker, or nothing waiting, there is
  a way to go on, without any new request, in which it returns, and then every request ever added is
  finished.\<close>

theorem dbq_can_end:
  assumes "dbq_run dbq_new tr s" and "main s = Drain_check" and "workers s \<noteq> [] \<or> workQueue (dbqueue s) = []"
  shows "\<exists>tr' s'. dbq_run s tr' s' \<and> dbq_closed s' \<and> collect_events added tr' = []
    \<and> mset (collect_events finished (tr @ tr')) = mset (collect_events added tr)"
proof -
  from assms have "stoppable s" by (simp add: stoppable_def)
  from destructor_ends [OF assms(1) this] obtain tr' s' where e: "dbq_run s tr' s'" "dbq_closed s'"
    "collect_events added tr' = []" by blast
  have run: "dbq_run dbq_new (tr @ tr') s'" by (rule dbq_run_trans [OF e(1) assms(1)])
  from closed_drained [OF run e(2)] obtain tr1 tr2 where t: "tr @ tr' = tr1 @ Drained # tr2"
    "collect_events taken tr2 @ workQueue (dbqueue s') = collect_events added tr2" .
  moreover from dbq_run_invariants(3) [OF assms(1)] assms(2) have "Drained \<notin> set tr"
    by (simp add: drained_once_def)
  ultimately obtain us where "tr' = us @ Drained # tr2" using late_part by metis
  with e(3) have "collect_events added tr2 = []" by simp
  with t(2) have "workQueue (dbqueue s') = []" by (metis append_is_Nil_conv)
  with closed_books(2) [OF dbq_run_invariants(1,2) [OF run] e(2)] e(3)
  have "mset (collect_events finished (tr @ tr')) = mset (collect_events added tr)" by simp
  with e show ?thesis by blast
qed

theorem dbq_can_end_witness:
  "\<exists>tr' s'. dbq_run one_request tr' s' \<and> dbq_closed s' \<and> 7 \<in> set (collect_events finished tr')"
proof -
  have "main one_request = Drain_check" "workers one_request \<noteq> []" by (simp_all add: one_request_def)
  with dbq_can_end [OF one_request_run] obtain tr' s' where "dbq_run one_request tr' s'" "dbq_closed s'"
    "mset (collect_events finished ([Added 7] @ tr')) = mset (collect_events added [Added (7 :: nat)])" by blast
  moreover from this(3) have "collect_events finished tr' = [7]" by simp
  then have "7 \<in> set (collect_events finished tr')" by (metis list.set_intros(1))
  ultimately show ?thesis by blast
qed

section \<open>Corners\<close>

text \<open>
  A request that the very last \<^verbatim>\<open>onFinish\<close> adds is lost: the workers are gone and nobody looks at
  the queue again.
\<close>

lemma late_request_lost:
  assumes "main s = Destroyed" and "tmpQueue s = [r]"
  shows "\<exists>s'. dbq_run s [Added x, Finished r] s' \<and> dbq_closed s' \<and> x \<in> set (workQueue (dbqueue s'))"
proof -
  let ?s = "s\<lparr>dbqueue := addRequest x (dbqueue s)\<rparr>"
  have "dbq_run s [Added x] ?s"
    using assms by (intro dbq_run_one dbq_step.add) (simp add: dbq_closed_def)
  moreover have "dbq_step ?s [Finished r] (?s\<lparr>tmpQueue := []\<rparr>)"
    using assms by (intro dbq_step.main) (simp add: main_step.simps)
  ultimately have "dbq_run s ([Added x] @ [Finished r]) (?s\<lparr>tmpQueue := []\<rparr>)" by (rule dbq_run.go)
  with assms show ?thesis
    by (intro exI [of _ "?s\<lparr>tmpQueue := []\<rparr>"]) (simp add: dbq_closed_def addRequest_def Let_def)
qed

text \<open>A server that cannot be reached keeps a worker in its connect loop.\<close>

lemma unreachable_server:
  "phase w = Connecting r n \<Longrightarrow>
     snd (work_step False w q) = (w\<lparr>phase := Connecting r (n + 1)\<rparr>, q)"
  by (simp add: work_step.simps)

end
