(* ===== verification/Http_Client.thy ===== *)
theory Http_Client
  imports Request_Queue Strings
begin

text \<open>
  \<^verbatim>\<open>HttpClient\<close> and \<^verbatim>\<open>HttpQueue\<close> (HttpClient.h, HttpClient.cpp). libcurl is not part of
  the repository: a handle is the list of the options set on it since the last reset, what a
  transfer delivers to the write callback is the argument \<open>perform\<close>, a function of these options, and
  \<^verbatim>\<open>curl_easy_escape\<close> is the argument \<open>escape\<close>. The queue is a second implementation of
  the contract \<open>returning_queue\<close>.
\<close>

section \<open>HttpClient\<close>

datatype request_method = GET | POST

datatype curl_option = CURLOPT_TIMEOUT nat | CURLOPT_SSL_VERIFYPEER nat | CURLOPT_WRITEDATA
  | CURLOPT_WRITEFUNCTION | CURLOPT_POST nat | CURLOPT_POSTFIELDSIZE nat | CURLOPT_POSTFIELDS string
  | CURLOPT_URL string

text \<open>\<open>response\<close> is the string the pointer refers to, None for a null pointer.\<close>

record http_client =
  handle :: "curl_option list"
  response :: "string option"

definition http_client_new :: http_client where
  "http_client_new = \<lparr>handle = [], response = None\<rparr>"

definition client_reset :: "http_client \<Rightarrow> http_client" where
  "client_reset c = c\<lparr>response := None, handle := []\<rparr>"

text \<open>The parameters are the pairs of the \<^verbatim>\<open>std::map\<close> in its order; \<open>n\<close> is \<^verbatim>\<open>count\<close>.\<close>

fun query_loop :: "(string \<Rightarrow> string) \<Rightarrow> bool \<Rightarrow> (string \<times> string) list \<Rightarrow> nat \<Rightarrow> string \<Rightarrow> string" where
  "query_loop escape isNeedEscape [] n outstr = outstr"
| "query_loop escape isNeedEscape (p # ps) n outstr =
     (let outstr = (if 0 < n then outstr @ ''&'' else outstr);
          outstr = outstr @ fst p;
          outstr = outstr @ ''='';
          outstr = (if isNeedEscape then outstr @ escape (snd p) else outstr @ snd p)
      in query_loop escape isNeedEscape ps (n + 1) outstr)"

definition buildQuery :: "(string \<Rightarrow> string) \<Rightarrow> (string \<times> string) list \<Rightarrow> bool \<Rightarrow> string" where
  "buildQuery escape params isNeedEscape = query_loop escape isNeedEscape params 0 []"

fun split_query_loop ::
    "(string \<Rightarrow> string) \<Rightarrow> string \<Rightarrow> bool \<Rightarrow> (string \<times> string) list \<Rightarrow> nat \<Rightarrow> string \<Rightarrow> string" where
  "split_query_loop escape ssplit isNeedEscape [] n outstr = outstr"
| "split_query_loop escape ssplit isNeedEscape (p # ps) n outstr =
     (let outstr = (if 0 < n then outstr @ ssplit else outstr);
          outstr = (if isNeedEscape then outstr @ escape (snd p) else outstr @ snd p)
      in split_query_loop escape ssplit isNeedEscape ps (n + 1) outstr)"

definition buildQuery_split ::
    "(string \<Rightarrow> string) \<Rightarrow> (string \<times> string) list \<Rightarrow> string \<Rightarrow> bool \<Rightarrow> string" where
  "buildQuery_split escape params ssplit isNeedEscape = split_query_loop escape ssplit isNeedEscape params 0 []"

text \<open>libcurl calls back with \<open>size * nmemb\<close> bytes; the callback takes them all.\<close>

definition writeCallback :: "string \<Rightarrow> http_client \<Rightarrow> nat \<times> http_client" where
  "writeCallback data c = (length data,
     case response c of None \<Rightarrow> c | Some r \<Rightarrow> c\<lparr>response := Some (r @ data)\<rparr>)"

definition setopt :: "curl_option \<Rightarrow> http_client \<Rightarrow> http_client" where
  "setopt opt c = c\<lparr>handle := handle c @ [opt]\<rparr>"

definition curlRequest ::
    "(string \<Rightarrow> string) \<Rightarrow> (curl_option list \<Rightarrow> string list) \<Rightarrow> string \<Rightarrow> (string \<times> string) list option
      \<Rightarrow> request_method \<Rightarrow> bool \<Rightarrow> http_client \<Rightarrow> http_client" where
  "curlRequest escape perform url params method isNeedEscape c =
    (let c = setopt (CURLOPT_TIMEOUT 15) c;
         c = setopt (CURLOPT_SSL_VERIFYPEER 0) c;
         c = setopt CURLOPT_WRITEDATA c;
         c = setopt CURLOPT_WRITEFUNCTION c;
         queryStr = (case params of None \<Rightarrow> [] | Some ps \<Rightarrow> buildQuery escape ps isNeedEscape);
         (url, c) = (case method of
             GET \<Rightarrow> if length queryStr \<noteq> 0 then (url @ ''?'' @ queryStr, c) else (url, c)
           | POST \<Rightarrow>
               let c = setopt (CURLOPT_POST 1) c in
               if length queryStr \<noteq> 0
               then (url, setopt (CURLOPT_POSTFIELDS queryStr) (setopt (CURLOPT_POSTFIELDSIZE (length queryStr)) c))
               else (url, c));
         c = setopt (CURLOPT_URL url) c
     in fold (\<lambda>data c. snd (writeCallback data c)) (perform (handle c)) c)"

section \<open>HttpQueue\<close>

record 'r http_queue =
  hq_workQueue :: "'r list"
  hq_workQueueLength :: nat
  hq_finishQueue :: "'r list"

definition addQueueMsg :: "'r \<Rightarrow> 'r http_queue \<Rightarrow> 'r http_queue" where
  "addQueueMsg request q = (let w = hq_workQueue q @ [request]
    in q\<lparr>hq_workQueue := w, hq_workQueueLength := length w\<rparr>)"

definition hq_getRequest :: "'r http_queue \<Rightarrow> 'r option \<times> 'r http_queue" where
  "hq_getRequest q = (case hq_workQueue q of
     [] \<Rightarrow> (None, q)
   | request # w \<Rightarrow> (Some request, q\<lparr>hq_workQueue := w, hq_workQueueLength := length w\<rparr>))"

definition finishRequest :: "'r \<Rightarrow> 'r http_queue \<Rightarrow> 'r http_queue" where
  "finishRequest request q = q\<lparr>hq_finishQueue := hq_finishQueue q @ [request]\<rparr>"

definition hq_swap :: "'r http_queue \<Rightarrow> 'r list \<times> 'r http_queue" where
  "hq_swap q = (hq_finishQueue q, q\<lparr>hq_finishQueue := []\<rparr>)"

interpretation hq: returning_queue addQueueMsg hq_getRequest hq_workQueue finishRequest hq_swap hq_finishQueue
  by unfold_locales
    (auto simp: addQueueMsg_def hq_getRequest_def finishRequest_def hq_swap_def Let_def split: list.splits)

datatype 'r http_phase = Polls | Requests 'r | Returns 'r | Gone

datatype http_main = Runs | Joins nat | Deleted

record 'r http_system =
  hq_queue :: "'r http_queue"
  hq_isExit :: bool
  hq_workers :: "'r http_phase list"
  hq_tmpQueue :: "'r list"
  hq_main :: http_main

text \<open>The constructor leaves \<^verbatim>\<open>isExit\<close> and \<^verbatim>\<open>workQueueLength\<close> as they are in memory.\<close>

definition hq_new :: "bool \<Rightarrow> nat \<Rightarrow> 'r http_system" where
  "hq_new isExit0 len0 = \<lparr>hq_queue = \<lparr>hq_workQueue = [], hq_workQueueLength = len0, hq_finishQueue = []\<rparr>,
     hq_isExit = isExit0, hq_workers = [], hq_tmpQueue = [], hq_main = Runs\<rparr>"

fun http_work_step :: "bool \<Rightarrow> 'r http_phase \<Rightarrow> 'r http_queue \<Rightarrow> 'r queue_event list \<times> 'r http_phase \<times> 'r http_queue" where
  "http_work_step isExit Polls q =
     (if isExit then ([], Gone, q)
      else (case hq_getRequest q of
          (None, q') \<Rightarrow> ([], Polls, q')
        | (Some r, q') \<Rightarrow> ([Taken r], Requests r, q')))"
| "http_work_step isExit (Requests r) q = ([Handled r], Returns r, q)"
| "http_work_step isExit (Returns r) q = ([], Polls, finishRequest r q)"
| "http_work_step isExit Gone q = ([], Gone, q)"

definition hq_init :: "nat \<Rightarrow> 'r http_system \<Rightarrow> 'r http_system" where
  "hq_init numThread s = s\<lparr>hq_workers := hq_workers s @ replicate numThread Polls\<rparr>"

definition hq_update :: "'r http_system \<Rightarrow> 'r http_system" where
  "hq_update s = (let (tmp, q) = hq_swap (hq_queue s) in s\<lparr>hq_tmpQueue := tmp, hq_queue := q\<rparr>)"

text \<open>The destructor: setting \<^verbatim>\<open>isExit\<close>, then joining the threads one after the other.\<close>

definition hq_destroy :: "'r http_system \<Rightarrow> 'r http_system" where
  "hq_destroy s = s\<lparr>hq_isExit := True, hq_main := Joins 0\<rparr>"

fun hq_main_step :: "'r http_system \<Rightarrow> 'r queue_event list \<times> 'r http_system" where
  "hq_main_step s = (case hq_tmpQueue s of
     r # tmp \<Rightarrow> ([Finished r], s\<lparr>hq_tmpQueue := tmp\<rparr>)
   | [] \<Rightarrow> (case hq_main s of
       Joins i \<Rightarrow>
         if i < length (hq_workers s)
         then if hq_workers s ! i = Gone then ([], s\<lparr>hq_main := Joins (i + 1)\<rparr>) else ([], s)
         else ([], s\<lparr>hq_main := Deleted\<rparr>)
     | m \<Rightarrow> ([], s)))"

inductive hq_step :: "'r http_system \<Rightarrow> 'r queue_event list \<Rightarrow> 'r http_system \<Rightarrow> bool" where
  add: "hq_main s \<noteq> Deleted \<Longrightarrow> hq_step s [Added r] (s\<lparr>hq_queue := addQueueMsg r (hq_queue s)\<rparr>)"
| work: "i < length (hq_workers s) \<Longrightarrow> http_work_step (hq_isExit s) (hq_workers s ! i) (hq_queue s) = (ev, w, q) \<Longrightarrow>
    hq_step s ev (s\<lparr>hq_workers := (hq_workers s)[i := w], hq_queue := q\<rparr>)"
| main: "hq_main_step s = (ev, s') \<Longrightarrow> hq_step s ev s'"
| init: "hq_main s = Runs \<Longrightarrow> hq_tmpQueue s = [] \<Longrightarrow> hq_step s [] (hq_init n s)"
| update: "hq_main s = Runs \<Longrightarrow> hq_tmpQueue s = [] \<Longrightarrow> hq_step s [] (hq_update s)"
| destroy: "hq_main s = Runs \<Longrightarrow> hq_tmpQueue s = [] \<Longrightarrow> hq_step s [] (hq_destroy s)"

inductive hq_run :: "'r http_system \<Rightarrow> 'r queue_event list \<Rightarrow> 'r http_system \<Rightarrow> bool" where
  stop: "hq_run s [] s"
| go: "hq_run s tr s' \<Longrightarrow> hq_step s' ev s'' \<Longrightarrow> hq_run s (tr @ ev) s''"

section \<open>The books of the queue\<close>

definition requesting :: "'r http_phase \<Rightarrow> 'r multiset" where
  "requesting w = (case w of Requests r \<Rightarrow> {#r#} | _ \<Rightarrow> {#})"

definition returning :: "'r http_phase \<Rightarrow> 'r multiset" where
  "returning w = (case w of Returns r \<Rightarrow> {#r#} | _ \<Rightarrow> {#})"

lemma requesting_simps [simp]:
  "requesting Polls = {#}" "requesting (Requests r) = {#r#}" "requesting (Returns r) = {#}" "requesting Gone = {#}"
  "returning Polls = {#}" "returning (Requests r) = {#}" "returning (Returns r) = {#r#}" "returning Gone = {#}"
  by (simp_all add: requesting_def returning_def)

abbreviation hq_books :: "'r queue_event list \<Rightarrow> 'r http_system \<Rightarrow> bool" where
  "hq_books tr s \<equiv> books tr (hq_workQueue (hq_queue s)) (hq_tmpQueue s @ hq_finishQueue (hq_queue s))
     (held_by requesting (hq_workers s)) (held_by returning (hq_workers s))"

lemma http_work_books:
  assumes b: "hq_books tr s" and i: "i < length (hq_workers s)"
    and step: "http_work_step e (hq_workers s ! i) (hq_queue s) = (ev, w, q)"
  shows "hq_books (tr @ ev) (s\<lparr>hq_workers := (hq_workers s)[i := w], hq_queue := q\<rparr>)"
proof (cases "hq_workers s ! i")
  case Polls
  show ?thesis
  proof (cases "\<exists>r. ev = [Taken r]")
    case True
    with Polls step obtain r where "hq_getRequest (hq_queue s) = (Some r, q)" "ev = [Taken r]" "w = Requests r"
      by (auto split: if_splits option.splits prod.splits)
    with hq.books_pull [OF b this(1)] Polls held_by_gain [OF i, of requesting w] held_by_same [OF i, of returning w]
    show ?thesis by simp
  next
    case False
    with Polls step have "ev = []" "q = hq_queue s" "w = Polls \<or> w = Gone"
      by (auto split: if_splits option.splits prod.splits dest: hq.pull_None)
    with b Polls held_by_same [OF i, of requesting w] held_by_same [OF i, of returning w]
    show ?thesis by auto
  qed
next
  case (Requests r)
  with step have w: "ev = [Handled r]" "w = Returns r" "q = hq_queue s" by simp_all
  with held_by_lose [OF i, of requesting w] held_by_gain [OF i, of returning w] Requests
  have "held_by requesting (hq_workers s) = held_by requesting ((hq_workers s)[i := w]) + {#r#}"
    "held_by returning ((hq_workers s)[i := w]) = held_by returning (hq_workers s) + {#r#}" by simp_all
  with b w books_handled [of tr _ _ "held_by requesting ((hq_workers s)[i := w])" r] show ?thesis by simp
next
  case (Returns r)
  with step have w: "ev = []" "w = Polls" "q = finishRequest r (hq_queue s)" by simp_all
  with held_by_lose [OF i, of returning w] held_by_same [OF i, of requesting w] Returns
  have "held_by returning (hq_workers s) = held_by returning ((hq_workers s)[i := w]) + {#r#}"
    "held_by requesting ((hq_workers s)[i := w]) = held_by requesting (hq_workers s)" by simp_all
  with b have "books tr (hq_workQueue (hq_queue s)) (hq_tmpQueue s @ hq_finishQueue (hq_queue s))
      (held_by requesting ((hq_workers s)[i := w])) (held_by returning ((hq_workers s)[i := w]) + {#r#})" by simp
  from hq.books_give_back [OF this] w show ?thesis by simp
next
  case Gone
  with b i step show ?thesis by (simp add: held_by_same)
qed

text \<open>The threads joined so far have left; after the destructor all have.\<close>

fun joined_gone :: "http_main \<Rightarrow> 'r http_system \<Rightarrow> bool" where
  "joined_gone (Joins i) s \<longleftrightarrow> i \<le> length (hq_workers s) \<and> (\<forall>j<i. hq_workers s ! j = Gone) \<and> hq_tmpQueue s = []"
| "joined_gone Deleted s \<longleftrightarrow> list_all (\<lambda>w. w = Gone) (hq_workers s) \<and> hq_tmpQueue s = []"
| "joined_gone Runs s \<longleftrightarrow> True"

lemma hq_step_books:
  assumes b: "hq_books tr s" and step: "hq_step s ev s'"
  shows "hq_books (tr @ ev) s'"
  using step
proof cases
  case (add r)
  with hq.books_add [OF b] show ?thesis by simp
next
  case (work i w q)
  with http_work_books [OF b] show ?thesis by simp
next
  case main
  with b show ?thesis
    by (cases "hq_tmpQueue s"; cases "hq_main s") (auto simp: books_finished split: if_splits)
next
  case (init n)
  with b show ?thesis by (simp add: hq_init_def)
next
  case update
  with b hq.books_collect [of tr "hq_queue s"] show ?thesis by (simp add: hq_update_def Let_def case_prod_unfold)
next
  case destroy
  with b show ?thesis by (simp add: hq_destroy_def)
qed

lemma hq_step_gone:
  assumes g: "joined_gone (hq_main s) s" and step: "hq_step s ev s'"
  shows "joined_gone (hq_main s') s'"
  using step
proof cases
  case (add r)
  with g show ?thesis by (cases "hq_main s") auto
next
  case (work i w q)
  then have "hq_workers s ! i = Gone \<longrightarrow> w = Gone" by (auto elim: http_work_step.elims)
  with g work show ?thesis by (cases "hq_main s") (auto simp: nth_list_update list_all_length)
next
  case main
  with g show ?thesis
    by (cases "hq_main s"; cases "hq_tmpQueue s")
      (auto simp: list_all_length less_Suc_eq split: if_splits)
qed (use g in \<open>auto simp: hq_init_def hq_update_def hq_destroy_def Let_def case_prod_unfold\<close>)

lemma hq_run_invariants:
  assumes "hq_run (hq_new e len) tr s"
  shows "hq_books tr s" and "joined_gone (hq_main s) s"
proof -
  have "hq_books tr s \<and> joined_gone (hq_main s) s" if "hq_run s0 tr s" "s0 = hq_new e len"
    for s0 tr and s :: "'a http_system"
    using that
  proof (induction rule: hq_run.induct)
    case (stop s)
    then show ?case by (simp add: hq_new_def)
  next
    case (go s tr s' ev s'')
    then show ?case using hq_step_books hq_step_gone by blast
  qed
  with assms show "hq_books tr s" and "joined_gone (hq_main s) s" by blast+
qed

lemma hq_garbage_flag:
  assumes "hq_run s tr s'" and "hq_isExit s" and "list_all (\<lambda>w. w = Polls \<or> w = Gone) (hq_workers s)"
  shows "hq_isExit s' \<and> list_all (\<lambda>w. w = Polls \<or> w = Gone) (hq_workers s') \<and> collect_events taken tr = []"
  using assms
proof (induction rule: hq_run.induct)
  case (stop s)
  then show ?case by simp
next
  case (go s tr s' ev s'')
  then have h: "hq_isExit s'" "list_all (\<lambda>w. w = Polls \<or> w = Gone) (hq_workers s')"
    "collect_events taken tr = []" by blast+
  have "hq_isExit s'' \<and> list_all (\<lambda>w. w = Polls \<or> w = Gone) (hq_workers s'') \<and> collect_events taken ev = []"
    using go.hyps(2)
  proof cases
    case (work i w q)
    with h(1,2) have "(w = Polls \<or> w = Gone) \<and> ev = []"
      by (auto simp: list_all_length elim: http_work_step.elims)
    with h work show ?thesis by (auto simp: list_all_length nth_list_update)
  next
    case main
    with h show ?thesis by (cases "hq_tmpQueue s'"; cases "hq_main s'") (auto split: if_splits)
  qed (use h in \<open>auto simp: hq_init_def hq_update_def hq_destroy_def Let_def case_prod_unfold list_all_iff\<close>)
  with h show ?case by simp
qed

section \<open>Queries\<close>

text \<open>The pieces of a query: what \<^verbatim>\<open>buildQuery\<close> joins with \<^verbatim>\<open>&\<close>.\<close>

definition query_piece :: "(string \<Rightarrow> string) \<Rightarrow> string \<times> string \<Rightarrow> string" where
  "query_piece f p = fst p @ ''='' @ f (snd p)"

lemma query_loop_join:
  "query_loop escape b ps n out = (if ps = [] then out else
     out @ (if 0 < n then ''&'' else []) @ join (map (query_piece (if b then escape else id)) ps) ''&'')"
proof (induction ps arbitrary: n out)
  case Nil
  then show ?case by simp
next
  case (Cons p ps)
  then show ?case by (cases "ps = []") (simp_all add: Let_def query_piece_def join_Cons)
qed

lemma sublist_char: "sublist [c] xs \<longleftrightarrow> c \<in> set xs"
  by (metis append.assoc append_Cons append_Nil in_set_conv_decomp sublist_def)

lemma splits_at_char:
  "xs \<noteq> [] \<Longrightarrow> \<forall>x\<in>set xs. c \<notin> set x \<Longrightarrow> splits_into [c] xs (join xs [c])"
  by (auto simp: splits_into_def sublist_char butlast_append dest: in_set_butlastD)

section \<open>Properties\<close>

text \<open>C15. The HTTP queue keeps the same books as the database queue, whatever memory the
  constructor found; and the destructor aborts: when it has returned, exactly the requests still in
  the work queue and those handled but waiting in \<^verbatim>\<open>finishQueue\<close> are not finished.\<close>

theorem http_conserves:
  assumes "hq_run (hq_new garbage_flag garbage_length) tr s"
  shows "books tr (hq_workQueue (hq_queue s)) (hq_tmpQueue s @ hq_finishQueue (hq_queue s))
      (held_by requesting (hq_workers s)) (held_by returning (hq_workers s))
    \<and> (hq_main s = Deleted \<longrightarrow>
        mset (collect_events added tr) = mset (collect_events finished tr)
          + mset (hq_workQueue (hq_queue s)) + mset (hq_finishQueue (hq_queue s)))"
proof -
  note inv = hq_run_invariants [OF assms]
  have "mset (collect_events added tr) = mset (collect_events finished tr)
      + mset (hq_workQueue (hq_queue s)) + mset (hq_finishQueue (hq_queue s))" if "hq_main s = Deleted"
  proof -
    from inv(2) that have "held_by requesting (hq_workers s) = {#}" "held_by returning (hq_workers s) = {#}"
      "hq_tmpQueue s = []" by (auto simp: list_all_iff intro!: held_by_empty)
    with booksD(2,3) [OF inv(1)] show ?thesis
      by (simp flip: booksD(1) [OF inv(1)])
  qed
  with inv(1) show ?thesis by blast
qed

text \<open>Cutting the query of \<^verbatim>\<open>buildQuery\<close> at \<^verbatim>\<open>&\<close> with the library's own
  \<^verbatim>\<open>split\<close> and each piece at its first \<^verbatim>\<open>=\<close> gives back the keys and, decoded with
  \<^verbatim>\<open>URLDecode\<close>, the values, in order, if the keys contain neither sign. Of \<^verbatim>\<open>curl_easy_escape\<close> only
  what its manual says is used: it yields unreserved characters and \<^verbatim>\<open>%\<close> codes that decode to its
  argument.\<close>

theorem http_query_roundtrip:
  assumes "\<And>v. URLDecode (escape v) = Inr v \<and> (\<forall>c\<in>set (escape v). unreserved c \<or> c = CHR ''%'')"
    and "\<forall>k\<in>set (map fst params). CHR ''&'' \<notin> set k \<and> CHR ''='' \<notin> set k" and "params \<noteq> []"
  shows "\<exists>pieces. split_copy ''&'' (buildQuery escape params True) [] = Some pieces
    \<and> map (\<lambda>q. (takeWhile (\<lambda>c. c \<noteq> CHR ''='') q, URLDecode (tl (dropWhile (\<lambda>c. c \<noteq> CHR ''='') q)))) pieces
      = map (\<lambda>(k, v). (k, Inr v)) params"
proof -
  let ?pieces = "map (query_piece escape) params"
  have amp: "CHR ''&'' \<notin> set (escape v)" for v
    using assms(1) [of v] by (auto simp: unreserved_def isalnum_def isdigit_def isupper_def islower_def)
  have "\<forall>x\<in>set ?pieces. CHR ''&'' \<notin> set x" using assms(2) amp by (auto simp: query_piece_def)
  with assms(3) have s: "splits_into ''&'' ?pieces (join ?pieces ''&'')" by (intro splits_at_char) auto
  have q: "buildQuery escape params True = join ?pieces ''&''"
    using assms(3) by (simp add: buildQuery_def query_loop_join)
  have "join ?pieces ''&'' \<noteq> []"
    using assms(3) by (cases params; cases "tl params") (simp_all add: query_piece_def join_Cons)
  then have "split_copy ''&'' (buildQuery escape params True) [] = Some ?pieces"
    using split_copy_pieces [of "''&''" "join ?pieces ''&''" "[]"] pieces_unique [OF _ s] by (simp add: q)
  moreover have "map (\<lambda>q. (takeWhile (\<lambda>c. c \<noteq> CHR ''='') q, URLDecode (tl (dropWhile (\<lambda>c. c \<noteq> CHR ''='') q)))) ?pieces
      = map (\<lambda>(k, v). (k, Inr v)) params"
    using assms(1,2) by (auto simp: query_piece_def takeWhile_append dropWhile_append)
  ultimately show ?thesis by blast
qed

theorem http_query_roundtrip_witness:
  "\<exists>pieces. split_copy ''&'' (buildQuery URLEncode [(''a'', ''1&2''), (''b'', [])] True) [] = Some pieces
     \<and> length pieces = 2"
proof -
  let ?params = "[(''a'', ''1&2''), (''b'', [])]"
  have k: "\<forall>k\<in>set (map fst ?params). CHR ''&'' \<notin> set k \<and> CHR ''='' \<notin> set k" "?params \<noteq> []"
    by simp_all
  from http_query_roundtrip [OF URLEncode_decodes k]
  obtain pieces where p: "split_copy ''&'' (buildQuery URLEncode ?params True) [] = Some pieces"
    "map (\<lambda>q. (takeWhile (\<lambda>c. c \<noteq> CHR ''='') q, URLDecode (tl (dropWhile (\<lambda>c. c \<noteq> CHR ''='') q)))) pieces
      = map (\<lambda>(k, v). (k, Inr v)) ?params" by blast
  have "length pieces = 2" using arg_cong [OF p(2), of length] by simp
  with p(1) show ?thesis by blast
qed

theorem http_conserves_witness:
  "\<exists>s tr. hq_run (hq_new False 99) tr s \<and> hq_main s = Deleted \<and> collect_events added tr = [7 :: nat]
     \<and> collect_events finished tr = [] \<and> hq_workQueue (hq_queue s) = [7]"
proof -
  let ?s0 = "hq_new False 99 :: nat http_system"
  let ?s1 = "?s0\<lparr>hq_queue := addQueueMsg 7 (hq_queue ?s0)\<rparr>"
  let ?s3 = "(hq_destroy ?s1)\<lparr>hq_main := Deleted\<rparr>"
  have "hq_run ?s0 ([] @ [Added 7]) ?s1"
    by (rule hq_run.go [OF hq_run.stop hq_step.add]) (simp add: hq_new_def)
  then have "hq_run ?s0 (([] @ [Added 7]) @ []) (hq_destroy ?s1)"
    by (rule hq_run.go [OF _ hq_step.destroy]) (simp_all add: hq_new_def)
  then have r: "hq_run ?s0 ((([] @ [Added 7]) @ []) @ []) ?s3"
    by (rule hq_run.go [OF _ hq_step.main]) (simp add: hq_new_def hq_destroy_def)
  from http_conserves [OF r] have "mset [7 :: nat] = mset (hq_workQueue (hq_queue ?s3)) + mset (hq_finishQueue (hq_queue ?s3))"
    by simp
  then have "hq_workQueue (hq_queue ?s3) = [7]" by (simp add: hq_new_def hq_destroy_def addQueueMsg_def)
  with r show ?thesis by (intro exI [of _ ?s3] exI [of _ "[Added 7]"]) simp
qed

section \<open>Corners\<close>

text \<open>
  With an unlucky byte in \<^verbatim>\<open>isExit\<close>, which the constructor does not set, every worker leaves at
  once and no request is ever taken.
\<close>

lemma http_unlucky_flag: "hq_run (hq_new True n) tr s \<Longrightarrow> collect_events taken tr = []"
  using hq_garbage_flag [of "hq_new True n" tr s] by (simp add: hq_new_def)

text \<open>The transfer appends what it receives to the response, if there is one.\<close>

lemma curl_response:
  "response (curlRequest escape perform url params how b c)
     = map_option (\<lambda>r. r @ concat (perform (handle (curlRequest escape (\<lambda>opts. []) url params how b c)))) (response c)"
proof -
  have f: "response (fold (\<lambda>data c. snd (writeCallback data c)) xs c)
      = map_option (\<lambda>r. r @ concat xs) (response c)"
    "handle (fold (\<lambda>data c. snd (writeCallback data c)) xs c) = handle c" for xs c
    by (induction xs arbitrary: c) (auto simp: writeCallback_def option.map_comp comp_def option.map_ident split: option.splits)
  show ?thesis
    by (cases how) (simp_all add: curlRequest_def Let_def f setopt_def)
qed

text \<open>
  The options stay on the handle: after a POST a GET of the same client, without a reset between
  them, is performed with \<^verbatim>\<open>CURLOPT_POST\<close> still set.
\<close>

lemma post_sticks:
  "CURLOPT_POST 1 \<in> set (handle (curlRequest esc perf u2 ps2 GET b2 (curlRequest esc perf u1 ps1 POST b1 c)))"
proof -
  have h: "handle (fold (\<lambda>data c. snd (writeCallback data c)) xs c) = handle c" for xs c
    by (induction xs arbitrary: c) (auto simp: writeCallback_def split: option.splits)
  show ?thesis by (simp add: curlRequest_def Let_def h setopt_def)
qed

text \<open>The overload that takes the separator leaves out the keys.\<close>

lemma split_query_no_keys:
  "buildQuery_split escape [(''a'', ''1''), (''b'', ''2'')] ''&'' False = ''1&2''"
  by code_simp

end
