(* ===== verification/Civil_Time.thy ===== *)
theory Civil_Time
  imports Prelude
begin

text \<open>
  The proleptic Gregorian calendar, as \<^verbatim>\<open>std::chrono\<close> and the C library use it: the date of a day
  counted from 1970-01-01 and back, the day of the week, and the hours, minutes and seconds of
  a day. A year begins in March here, so that the leap day is its last.
\<close>

section \<open>Dates\<close>

type_synonym civil = "int \<times> int \<times> int"

text \<open>Year of the 400-year era and day of the year, of a day of the era.\<close>

definition year_of_era :: "int \<Rightarrow> int \<times> int" where
  "year_of_era doe =
     (let c = min 3 (doe div 36524); r = doe - 36524 * c;
          q = r div 1461; s = r mod 1461;
          y = min 3 (s div 365)
      in (100 * c + 4 * q + y, s - 365 * y))"

definition civil_from_days :: "int \<Rightarrow> civil" where
  "civil_from_days z =
     (let z = z + 719468; era = z div 146097; doe = z mod 146097;
          (yoe, doy) = year_of_era doe;
          mp = (5 * doy + 2) div 153;
          d = doy - (153 * mp + 2) div 5 + 1;
          m = (if mp < 10 then mp + 3 else mp - 9)
      in (yoe + era * 400 + (if m \<le> 2 then 1 else 0), m, d))"

definition days_from_civil :: "civil \<Rightarrow> int" where
  "days_from_civil = (\<lambda>(y, m, d).
     let y = (if m \<le> 2 then y - 1 else y); era = y div 400; yoe = y mod 400;
         doy = (153 * (if 2 < m then m - 3 else m + 9) + 2) div 5 + d - 1;
         doe = yoe * 365 + yoe div 4 - yoe div 100 + doy
     in era * 146097 + doe - 719468)"

lemma civil_examples:
  "civil_from_days 0 = (1970, 1, 1)" "civil_from_days 11016 = (2000, 2, 29)"
  "civil_from_days (- 719529) = (- 1, 12, 31)" "days_from_civil (2024, 3, 1) = 19783"
  by code_simp+

text \<open>Division with the quotient cut off at \<open>n\<close>: the last part takes the rest.\<close>

lemma split_at_most:
  fixes k x n :: int
  assumes "0 < k" and "0 \<le> x" and "x \<le> k * (n + 1)" and "0 \<le> n"
  shows "0 \<le> x - k * min n (x div k)" "x - k * min n (x div k) \<le> k"
proof -
  have x: "x = k * (x div k) + x mod k" "0 \<le> x mod k" "x mod k < k" using assms(1) by simp_all
  have "k * min n (x div k) \<le> k * (x div k)" using assms(1) by (simp add: mult_left_mono)
  with x show "0 \<le> x - k * min n (x div k)" by linarith
  show "x - k * min n (x div k) \<le> k"
  proof (cases "n \<le> x div k")
    case True
    with assms(3) show ?thesis by (simp add: min_def algebra_simps)
  next
    case False
    then have "min n (x div k) = x div k" by simp
    moreover have "x - k * (x div k) \<le> k" using x by linarith
    ultimately show ?thesis by (simp only:)
  qed
qed

lemma year_of_era_ok:
  assumes "0 \<le> doe" and "doe < 146097" and "year_of_era doe = (yoe, doy)"
  shows "0 \<le> yoe" "yoe < 400" "0 \<le> doy" "doy \<le> 365"
    "yoe * 365 + yoe div 4 - yoe div 100 + doy = doe"
proof -
  define c r q s y where d: "c = min 3 (doe div 36524)" "r = doe - 36524 * c"
    "q = r div 1461" "s = r mod 1461" "y = min 3 (s div 365)"
  have yoe: "yoe = 100 * c + 4 * q + y" and doy: "doy = s - 365 * y"
    using assms(3) by (simp_all add: year_of_era_def d Let_def)
  have c: "0 \<le> c" "c \<le> 3" using assms(1) by (auto simp: d pos_imp_zdiv_nonneg_iff)
  have r: "0 \<le> r" "r \<le> 36524"
    using split_at_most [of 36524 doe 3] assms(1,2) by (simp_all add: d)
  have "r = 1461 * q + s" unfolding d(3,4) by (rule mult_div_mod_eq [symmetric])
  moreover have "0 \<le> s" "s < 1461" by (simp_all add: d(4))
  ultimately have q: "0 \<le> q" "q \<le> 24" "r = 1461 * q + s" "0 \<le> s" "s < 1461"
    using r by linarith+
  have "0 \<le> s - 365 * y" "s - 365 * y \<le> 365"
    using split_at_most [of 365 s 3, folded d(5)] q(4,5) by simp_all
  then have y: "0 \<le> y" "y \<le> 3" "365 * y \<le> s" "s - 365 * y \<le> 365"
    using q(4) by (simp_all add: d(5) pos_imp_zdiv_nonneg_iff)
  show "0 \<le> yoe" "yoe < 400" using c q(1,2) y(1,2) by (simp_all add: yoe)
  show "0 \<le> doy" "doy \<le> 365" using y by (simp_all add: doy)
  have "yoe div 4 = 25 * c + q" "yoe div 100 = c" using y(1,2) q(1,2) unfolding yoe by linarith+
  then show "yoe * 365 + yoe div 4 - yoe div 100 + doy = doe"
    using q(3) by (simp add: yoe doy d(2))
qed

lemma month_ok:
  fixes doy :: int
  assumes "0 \<le> doy" and "doy \<le> 365" and mp: "mp = (5 * doy + 2) div 153"
  shows "0 \<le> mp" "mp \<le> 11" "1 \<le> doy - (153 * mp + 2) div 5 + 1" "doy - (153 * mp + 2) div 5 + 1 \<le> 31"
proof -
  have m: "153 * mp \<le> 5 * doy + 2" "5 * doy + 2 < 153 * mp + 153" unfolding mp by linarith+
  define t where "t = (153 * mp + 2) div 5"
  have t: "5 * t \<le> 153 * mp + 2" "153 * mp + 2 < 5 * t + 5" unfolding t_def by linarith+
  show "0 \<le> mp" "mp \<le> 11" using m assms(1,2) by linarith+
  show "1 \<le> doy - (153 * mp + 2) div 5 + 1" "doy - (153 * mp + 2) div 5 + 1 \<le> 31"
    using m t by (simp_all flip: t_def)
qed

theorem days_of_civil:
  "days_from_civil (civil_from_days z) = z
   \<and> (let (y, m, d) = civil_from_days z in 1 \<le> m \<and> m \<le> 12 \<and> 1 \<le> d \<and> d \<le> 31)"
proof -
  define era doe where e: "era = (z + 719468) div 146097" "doe = (z + 719468) mod 146097"
  obtain yoe doy where y: "year_of_era doe = (yoe, doy)" by fastforce
  define mp where mp: "mp = (5 * doy + 2) div 153"
  define d where d: "d = doy - (153 * mp + 2) div 5 + 1"
  define m where m: "m = (if mp < 10 then mp + 3 else mp - 9)"
  have "0 \<le> doe" "doe < 146097" by (simp_all add: e)
  note ok = year_of_era_ok [OF this y]
  note mo = month_ok [OF ok(3,4) mp]
  have c: "civil_from_days z = (yoe + era * 400 + (if m \<le> 2 then 1 else 0), m, d)"
    by (simp add: civil_from_days_def Let_def y d m mp flip: e)
  let ?y = "yoe + era * 400 + (if m \<le> 2 then 1 else 0)"
  have "(if 2 < m then m - 3 else m + 9) = mp" using mo(1,2) by (simp add: m)
  moreover have "(if m \<le> 2 then ?y - 1 else ?y) = yoe + era * 400" by simp
  moreover have "(yoe + era * 400) div 400 = era" "(yoe + era * 400) mod 400 = yoe" using ok(1,2) by simp_all
  ultimately have "days_from_civil (?y, m, d)
      = era * 146097 + (yoe * 365 + yoe div 4 - yoe div 100 + ((153 * mp + 2) div 5 + d - 1)) - 719468"
    by (simp only: days_from_civil_def Let_def prod.case)
  also have "\<dots> = era * 146097 + doe - 719468" using ok(5) by (simp add: d)
  also have "\<dots> = z" unfolding e by simp
  finally have "days_from_civil (civil_from_days z) = z" by (simp only: c)
  moreover have "1 \<le> m \<and> m \<le> 12 \<and> 1 \<le> d \<and> d \<le> 31" using mo by (auto simp: m d)
  ultimately show ?thesis by (simp add: c)
qed

section \<open>The first of a month\<close>

lemma split_shift:
  fixes k x n j :: int
  assumes "0 < k" and "0 \<le> j" and "j \<le> x - k * min n (x div k)"
  shows "min n ((x - j) div k) = min n (x div k)"
proof -
  have "k * min n (x div k) \<le> x - j" using assms by linarith
  then have "(k * min n (x div k)) div k \<le> (x - j) div k" using assms(1) by (rule zdiv_mono1)
  then have "min n (x div k) \<le> (x - j) div k" using assms(1) by simp
  moreover have "(x - j) div k \<le> x div k" using assms by (intro zdiv_mono1) simp_all
  ultimately show ?thesis by linarith
qed

lemma year_of_era_shift:
  assumes "year_of_era doe = (yoe, doy)" and "0 \<le> j" and "j \<le> doy" and "0 \<le> doe"
  shows "year_of_era (doe - j) = (yoe, doy - j)"
proof -
  define c r q s y where d: "c = min 3 (doe div 36524)" "r = doe - 36524 * c"
    "q = r div 1461" "s = r mod 1461" "y = min 3 (s div 365)"
  have yoe: "yoe = 100 * c + 4 * q + y" and doy: "doy = s - 365 * y"
    using assms(1) by (simp_all add: year_of_era_def d Let_def)
  have s: "r = 1461 * q + s" "0 \<le> s" "s < 1461" unfolding d(3,4) by simp_all
  have y: "0 \<le> y" using s(2) by (simp add: d(5) pos_imp_zdiv_nonneg_iff)
  have "0 \<le> c" using assms(4) by (simp add: d(1) pos_imp_zdiv_nonneg_iff)
  have "c \<le> 3" by (simp add: d)
  have "0 \<le> r" using assms(4) split_at_most [of 36524 doe 3]
  proof -
    have "36524 * c \<le> 36524 * (doe div 36524)" by (simp add: d(1))
    also have "\<dots> \<le> doe" by simp
    finally show ?thesis by (simp add: d(2))
  qed
  then have "0 \<le> q" by (simp add: d(3) pos_imp_zdiv_nonneg_iff)
  have j: "j \<le> s" "j \<le> r" using assms(3) doy y s(1) \<open>0 \<le> q\<close> by linarith+
  have c': "min 3 ((doe - j) div 36524) = c" unfolding d(1) using assms(2) j(2) by (intro split_shift) (simp_all add: d)
  have "r - j = 1461 * q + (s - j)" "0 \<le> s - j" "s - j < 1461" using s j(1) assms(2) by simp_all
  then have q': "(r - j) div 1461 = q" "(r - j) mod 1461 = s - j"
    using int_div_pos_eq int_mod_pos_eq by blast+
  have y': "min 3 ((s - j) div 365) = y" unfolding d(5) using assms(2,3) doy by (intro split_shift) (simp_all add: d(5))
  have r': "doe - j - 36524 * c = r - j" by (simp add: d(2))
  show ?thesis unfolding year_of_era_def Let_def c' r' q' y' by (simp add: yoe doy)
qed


theorem civil_first:
  assumes "civil_from_days z = (y, m, d)"
  shows "civil_from_days (z - (d - 1)) = (y, m, 1) \<and> days_from_civil (y, m, 1) = z - (d - 1)"
proof -
  define era doe where e: "era = (z + 719468) div 146097" "doe = (z + 719468) mod 146097"
  obtain yoe doy where yd: "year_of_era doe = (yoe, doy)" by fastforce
  define mp where mp: "mp = (5 * doy + 2) div 153"
  have doe: "0 \<le> doe" "doe < 146097" by (simp_all add: e)
  note ok = year_of_era_ok [OF doe yd]
  note mo = month_ok [OF ok(3,4) mp]
  from assms [unfolded civil_from_days_def Let_def e [symmetric] yd prod.case mp [symmetric]]
  have d: "d = doy - (153 * mp + 2) div 5 + 1"
    and m: "m = (if mp < 10 then mp + 3 else mp - 9)" and y: "y = yoe + era * 400 + (if m \<le> 2 then 1 else 0)"
    by auto
  let ?s = "(153 * mp + 2) div 5"
  have s: "0 \<le> ?s" "?s \<le> doy" "doy - (d - 1) = ?s" using mo(1,3) by (simp_all add: d)
  have year: "year_of_era (doe - (d - 1)) = (yoe, ?s)"
    using year_of_era_shift [OF yd, of "d - 1"] s mo(3) doe(1) by (simp add: d)
  have "0 \<le> yoe * 365 + yoe div 4 - yoe div 100" using ok(1,2) by linarith
  then have low: "0 \<le> doe - (d - 1)" using ok(5) s by linarith
  have "z - (d - 1) + 719468 = 146097 * era + (doe - (d - 1))"
    unfolding e using mult_div_mod_eq [of 146097 "z + 719468"] by linarith
  moreover have "doe - (d - 1) < 146097" using doe(2) s by linarith
  ultimately have era: "(z - (d - 1) + 719468) div 146097 = era" "(z - (d - 1) + 719468) mod 146097 = doe - (d - 1)"
    using low int_div_pos_eq int_mod_pos_eq by blast+
  have mp': "(5 * ?s + 2) div 153 = mp" using mo(1,2) by linarith
  have "civil_from_days (z - (d - 1)) = (y, m, 1)"
    unfolding civil_from_days_def Let_def era year by (simp add: mp' y m)
  moreover have "days_from_civil (civil_from_days (z - (d - 1))) = z - (d - 1)" using days_of_civil by blast
  ultimately show ?thesis by simp
qed

lemma days_linear: "days_from_civil (y, m, d) = days_from_civil (y, m, 1) + (d - 1)"
  by (simp add: days_from_civil_def Let_def)

end
