(* ===== verification/Db_Statement.thy ===== *)
theory Db_Statement
  imports Byte_Array Civil_Time
begin

text \<open>
  \<^verbatim>\<open>DBStatement\<close> (Database.h, Database.cpp): binding parameters to a prepared statement,
  executing it and reading the columns of a row. The MySQL client library is not part of the
  repository: the results of its calls are arguments. A parameter's buffer is a pointer to a
  variable of the caller or into the statement's own copies; the buffers of the columns are memory
  blocks, and a read beyond one is an error. Text is a list of bytes.
\<close>

section \<open>Types and buffers\<close>

datatype field_type = MYSQL_TYPE_DECIMAL | MYSQL_TYPE_TINY | MYSQL_TYPE_SHORT | MYSQL_TYPE_LONG
  | MYSQL_TYPE_FLOAT | MYSQL_TYPE_DOUBLE | MYSQL_TYPE_NULL | MYSQL_TYPE_TIMESTAMP
  | MYSQL_TYPE_LONGLONG | MYSQL_TYPE_INT24 | MYSQL_TYPE_DATE | MYSQL_TYPE_TIME
  | MYSQL_TYPE_DATETIME | MYSQL_TYPE_YEAR | MYSQL_TYPE_VARCHAR | MYSQL_TYPE_BIT | MYSQL_TYPE_JSON
  | MYSQL_TYPE_NEWDECIMAL | MYSQL_TYPE_ENUM | MYSQL_TYPE_SET | MYSQL_TYPE_TINY_BLOB
  | MYSQL_TYPE_MEDIUM_BLOB | MYSQL_TYPE_LONG_BLOB | MYSQL_TYPE_BLOB | MYSQL_TYPE_VAR_STRING
  | MYSQL_TYPE_STRING | MYSQL_TYPE_GEOMETRY

text \<open>The macro \<^verbatim>\<open>IS_NUM\<close> of the MySQL headers.\<close>

fun is_num :: "field_type \<Rightarrow> bool" where
  "is_num MYSQL_TYPE_DECIMAL = True"
| "is_num MYSQL_TYPE_TINY = True"
| "is_num MYSQL_TYPE_SHORT = True"
| "is_num MYSQL_TYPE_LONG = True"
| "is_num MYSQL_TYPE_FLOAT = True"
| "is_num MYSQL_TYPE_DOUBLE = True"
| "is_num MYSQL_TYPE_NULL = True"
| "is_num MYSQL_TYPE_LONGLONG = True"
| "is_num MYSQL_TYPE_INT24 = True"
| "is_num MYSQL_TYPE_YEAR = True"
| "is_num MYSQL_TYPE_NEWDECIMAL = True"
| "is_num t = False"

text \<open>\<^verbatim>\<open>MYSQL_TIME\<close>: the fields the source uses.\<close>

record mysql_time =
  year :: u32
  month :: u32
  day :: u32
  hour :: u32
  minute :: u32
  second :: u32
  second_part :: u64
  neg :: bool

definition zero_time :: mysql_time where
  "zero_time = \<lparr>year = 0, month = 0, day = 0, hour = 0, minute = 0, second = 0, second_part = 0, neg = False\<rparr>"

text \<open>What a buffer holds; \<open>tsize\<close> stands for \<^verbatim>\<open>sizeof(MYSQL_TIME)\<close> wherever it is needed.\<close>

datatype content = Raw bytes | Time mysql_time

fun content_size :: "nat \<Rightarrow> content \<Rightarrow> nat" where
  "content_size tsize (Raw bs) = length bs"
| "content_size tsize (Time t) = tsize"

datatype pointer = Null | Caller nat | Own nat

record param_bind =
  p_type :: field_type
  p_buffer :: pointer
  p_length :: nat
  p_unsigned :: bool

text \<open>A column: type and size of its buffer are fixed when the statement is prepared.\<close>

record result_bind =
  r_type :: field_type
  r_unsigned :: bool
  r_buffer :: content
  r_null :: bool
  r_length :: nat

record db_statement =
  sql :: string
  paramIndex :: nat
  resultIndex :: u32
  numRows :: u64
  lastInsertId :: u64
  lastUseTime :: nat
  paramBind :: "param_bind list"
  resultBind :: "result_bind list"
  paramsBuffer :: "content list"

text \<open>The numbers of parameters and of columns are cut to 32 bits.\<close>

definition numParams :: "db_statement \<Rightarrow> u32" where
  "numParams st = of_nat (length (paramBind st))"

definition numResultFields :: "db_statement \<Rightarrow> u32" where
  "numResultFields st = of_nat (length (resultBind st))"

section \<open>Preparing\<close>

text \<open>The zeroed \<^verbatim>\<open>MYSQL_BIND\<close>; type 0 is \<^verbatim>\<open>MYSQL_TYPE_DECIMAL\<close>.\<close>

definition no_bind :: param_bind where
  "no_bind = \<lparr>p_type = MYSQL_TYPE_DECIMAL, p_buffer = Null, p_length = 0, p_unsigned = False\<rparr>"

record field =
  f_type :: field_type
  f_length :: nat
  f_unsigned :: bool

text \<open>The length of the buffer for a column.\<close>

fun column_size :: "nat \<Rightarrow> field_type \<Rightarrow> nat \<Rightarrow> nat" where
  "column_size tsize MYSQL_TYPE_TINY len = 1"
| "column_size tsize MYSQL_TYPE_SHORT len = 2"
| "column_size tsize MYSQL_TYPE_LONG len = 4"
| "column_size tsize MYSQL_TYPE_LONGLONG len = 8"
| "column_size tsize MYSQL_TYPE_FLOAT len = 4"
| "column_size tsize MYSQL_TYPE_DOUBLE len = 8"
| "column_size tsize MYSQL_TYPE_TIME len = tsize"
| "column_size tsize MYSQL_TYPE_DATE len = tsize"
| "column_size tsize MYSQL_TYPE_DATETIME len = tsize"
| "column_size tsize MYSQL_TYPE_TIMESTAMP len = tsize"
| "column_size tsize t len = len"

text \<open>\<open>garbage n\<close> is what \<^verbatim>\<open>malloc(n)\<close> finds in memory.\<close>

definition new_column :: "nat \<Rightarrow> (nat \<Rightarrow> bytes) \<Rightarrow> field \<Rightarrow> result_bind" where
  "new_column tsize garbage f = \<lparr>r_type = f_type f, r_unsigned = f_unsigned f,
     r_buffer = Raw (garbage (column_size tsize (f_type f) (f_length f))), r_null = False, r_length = 0\<rparr>"

definition statement_new ::
    "nat \<Rightarrow> (nat \<Rightarrow> bytes) \<Rightarrow> nat \<Rightarrow> field list \<Rightarrow> string \<Rightarrow> nat \<Rightarrow> db_statement" where
  "statement_new tsize garbage param_count columns s now =
     \<lparr>sql = s, paramIndex = 0, resultIndex = 0, numRows = 0, lastInsertId = 0, lastUseTime = now,
      paramBind = replicate param_count no_bind,
      resultBind = map (new_column tsize garbage) columns, paramsBuffer = []\<rparr>"

definition clear_content :: "content \<Rightarrow> content" where
  "clear_content c = (case c of Raw bs \<Rightarrow> Raw (replicate (length bs) 0) | Time t \<Rightarrow> Time zero_time)"

definition statement_clear :: "db_statement \<Rightarrow> db_statement" where
  "statement_clear st = st\<lparr>paramBind := replicate (length (paramBind st)) no_bind, paramsBuffer := [],
     resultBind := map (\<lambda>r. r\<lparr>r_buffer := clear_content (r_buffer r)\<rparr>) (resultBind st),
     paramIndex := 0, resultIndex := 0\<rparr>"

section \<open>Binding\<close>

text \<open>
  All the overloads do the same around their own part \<open>f\<close>: they change the next parameter, which
  may copy a buffer, or log an error when there is none left. \<open>f\<close> is given the number of copies
  so far, the place of its own.
\<close>

definition bind_next :: "(nat \<Rightarrow> param_bind \<Rightarrow> param_bind \<times> content list) \<Rightarrow> db_statement \<Rightarrow> db_statement" where
  "bind_next f st =
     (if paramIndex st < length (paramBind st)
      then let (b, copies) = f (length (paramsBuffer st)) (paramBind st ! paramIndex st)
        in st\<lparr>paramBind := (paramBind st)[paramIndex st := b], paramsBuffer := paramsBuffer st @ copies,
              paramIndex := paramIndex st + 1\<rparr>
      else st)"

fun int_type :: "nat \<Rightarrow> field_type \<Rightarrow> field_type" where
  "int_type n t =
     (if n = 1 then MYSQL_TYPE_TINY
      else if n = 2 then MYSQL_TYPE_SHORT
      else if n = 4 then MYSQL_TYPE_LONG
      else if n = 8 then MYSQL_TYPE_LONGLONG
      else t)"

fun float_type :: "nat \<Rightarrow> field_type \<Rightarrow> field_type" where
  "float_type n t = (if n = 4 then MYSQL_TYPE_FLOAT else if n = 8 then MYSQL_TYPE_DOUBLE else t)"

text \<open>Integers by reference to a variable of the caller, and as temporaries, which are copied.\<close>

definition bind_int_ref :: "nat \<Rightarrow> bool \<Rightarrow> nat \<Rightarrow> db_statement \<Rightarrow> db_statement" where
  "bind_int_ref n is_unsigned addr = bind_next (\<lambda>k b.
     (b\<lparr>p_type := int_type n (p_type b), p_buffer := Caller addr, p_length := n, p_unsigned := is_unsigned\<rparr>, []))"

definition bind_int :: "bool \<Rightarrow> bytes \<Rightarrow> db_statement \<Rightarrow> db_statement" where
  "bind_int is_unsigned value = bind_next (\<lambda>k b.
     (b\<lparr>p_type := int_type (length value) (p_type b), p_buffer := Own k, p_length := length value,
        p_unsigned := is_unsigned\<rparr>, [Raw value]))"

text \<open>Enumerations are bound as the integers that they are.\<close>

definition bind_enum_ref :: "nat \<Rightarrow> bool \<Rightarrow> nat \<Rightarrow> db_statement \<Rightarrow> db_statement" where
  "bind_enum_ref underlying_size uns address st = bind_int_ref underlying_size uns address st"

definition bind_enum :: "bool \<Rightarrow> bytes \<Rightarrow> db_statement \<Rightarrow> db_statement" where
  "bind_enum uns underlying st = bind_int uns underlying st"

definition bind_float_ref :: "nat \<Rightarrow> nat \<Rightarrow> db_statement \<Rightarrow> db_statement" where
  "bind_float_ref n addr = bind_next (\<lambda>k b.
     (b\<lparr>p_type := float_type n (p_type b), p_buffer := Caller addr, p_length := n, p_unsigned := False\<rparr>, []))"

definition bind_float :: "bytes \<Rightarrow> db_statement \<Rightarrow> db_statement" where
  "bind_float value = bind_next (\<lambda>k b.
     (b\<lparr>p_type := float_type (length value) (p_type b), p_buffer := Own k, p_length := length value,
        p_unsigned := False\<rparr>, [Raw value]))"

definition bind_string_ref :: "nat \<Rightarrow> nat \<Rightarrow> db_statement \<Rightarrow> db_statement" where
  "bind_string_ref addr sz = bind_next (\<lambda>k b.
     (b\<lparr>p_type := MYSQL_TYPE_STRING, p_buffer := Caller addr, p_length := sz\<rparr>, []))"

definition bindString :: "bytes option \<Rightarrow> nat \<Rightarrow> db_statement \<Rightarrow> db_statement" where
  "bindString value len = bind_next (\<lambda>k b.
     case value of
       Some s \<Rightarrow> if len \<noteq> 0
         then (b\<lparr>p_type := MYSQL_TYPE_STRING, p_buffer := Own k, p_length := len\<rparr>, [Raw (take len s)])
         else (b\<lparr>p_type := MYSQL_TYPE_STRING, p_length := 0\<rparr>, [])
     | None \<Rightarrow> (b\<lparr>p_type := MYSQL_TYPE_STRING, p_length := 0\<rparr>, []))"

definition bind_time :: "nat \<Rightarrow> field_type \<Rightarrow> mysql_time \<Rightarrow> db_statement \<Rightarrow> db_statement" where
  "bind_time tsize ty t = bind_next (\<lambda>k b.
     (b\<lparr>p_type := ty, p_buffer := Own k, p_length := tsize\<rparr>, [Time t]))"

text \<open>A date: \<open>y\<close> may be negative, the field is unsigned.\<close>

definition bind_date :: "nat \<Rightarrow> int \<Rightarrow> nat \<Rightarrow> nat \<Rightarrow> db_statement \<Rightarrow> db_statement" where
  "bind_date tsize y m d = bind_time tsize MYSQL_TYPE_DATE
     (zero_time\<lparr>year := of_int y, month := of_nat m, day := of_nat d\<rparr>)"

text \<open>
  A time point, as its ticks since the epoch, of which \<open>per_sec\<close> are a second: a million for the
  default \<^verbatim>\<open>std::chrono::microseconds\<close>. \<^verbatim>\<open>subseconds()\<close> counts ticks.
\<close>

definition datetime_time :: "int \<Rightarrow> int \<Rightarrow> mysql_time" where
  "datetime_time per_sec value =
     (let date = value div (86400 * per_sec); rest = value mod (86400 * per_sec);
          (y, m, d) = civil_from_days date
      in zero_time\<lparr>year := of_int y, month := of_int m, day := of_int d,
           hour := of_int (rest div (3600 * per_sec)),
           minute := of_int (rest mod (3600 * per_sec) div (60 * per_sec)),
           second := of_int (rest mod (60 * per_sec) div per_sec),
           second_part := ucast (of_int (rest mod per_sec) :: u32)\<rparr>)"

definition bind_datetime :: "nat \<Rightarrow> int \<Rightarrow> int \<Rightarrow> db_statement \<Rightarrow> db_statement" where
  "bind_datetime tsize per_sec value = bind_time tsize MYSQL_TYPE_DATETIME (datetime_time per_sec value)"

text \<open>A duration, as its number of microseconds, a 64-bit integer.\<close>

definition USEC_PER_HOUR :: int where "USEC_PER_HOUR = 3600000000"
definition USEC_PER_MIN :: int where "USEC_PER_MIN = 60000000"
definition USEC_PER_SEC :: int where "USEC_PER_SEC = 1000000"

definition duration_time :: "int \<Rightarrow> mysql_time" where
  "duration_time value =
     (let negative = value < 0;
          usec = (if negative then - value else value);
          h = usec div USEC_PER_HOUR; usec = usec mod USEC_PER_HOUR;
          m = usec div USEC_PER_MIN; usec = usec mod USEC_PER_MIN
      in zero_time\<lparr>neg := negative, hour := of_int h, minute := of_int m,
           second := of_int (usec div USEC_PER_SEC),
           second_part := ucast (of_int (usec mod USEC_PER_SEC) :: u32)\<rparr>)"

definition bind_duration :: "nat \<Rightarrow> int \<Rightarrow> db_statement \<Rightarrow> db_statement" where
  "bind_duration tsize value = bind_time tsize MYSQL_TYPE_TIME (duration_time value)"

definition bind_bytes_ref :: "nat \<Rightarrow> nat \<Rightarrow> db_statement \<Rightarrow> db_statement" where
  "bind_bytes_ref addr sz = bind_next (\<lambda>k b.
     if sz \<noteq> 0 then (b\<lparr>p_type := MYSQL_TYPE_BLOB, p_buffer := Caller addr, p_length := sz\<rparr>, [])
     else (b\<lparr>p_type := MYSQL_TYPE_NULL\<rparr>, []))"

definition bindBlob :: "bytes option \<Rightarrow> nat \<Rightarrow> db_statement \<Rightarrow> db_statement" where
  "bindBlob data sz = bind_next (\<lambda>k b.
     case data of
       Some d \<Rightarrow> (b\<lparr>p_type := MYSQL_TYPE_BLOB, p_buffer := Own k, p_length := sz\<rparr>, [Raw (take sz d)])
     | None \<Rightarrow> (b\<lparr>p_type := MYSQL_TYPE_NULL\<rparr>, []))"

definition bind_null :: "db_statement \<Rightarrow> db_statement" where
  "bind_null = bind_next (\<lambda>k b. (b\<lparr>p_type := MYSQL_TYPE_NULL\<rparr>, []))"

section \<open>Executing\<close>

text \<open>
  What the library reads of a parameter when the statement is executed: nothing for NULL, else the
  type, the sign flag and \<open>p_length\<close> bytes at the pointer. \<open>mem\<close> gives the bytes at an address of
  the caller at that moment.
\<close>

definition buffer_content :: "(nat \<Rightarrow> bytes) \<Rightarrow> db_statement \<Rightarrow> param_bind \<Rightarrow> content" where
  "buffer_content mem st b = (case p_buffer b of
     Null \<Rightarrow> Raw []
   | Caller a \<Rightarrow> Raw (take (p_length b) (mem a))
   | Own k \<Rightarrow> (case paramsBuffer st ! k of Raw bs \<Rightarrow> Raw (take (p_length b) bs) | Time t \<Rightarrow> Time t))"

definition param_value :: "(nat \<Rightarrow> bytes) \<Rightarrow> db_statement \<Rightarrow> param_bind \<Rightarrow> (field_type \<times> bool \<times> content) option" where
  "param_value mem st b =
     (if p_type b = MYSQL_TYPE_NULL then None else Some (p_type b, p_unsigned b, buffer_content mem st b))"

definition sent_params :: "(nat \<Rightarrow> bytes) \<Rightarrow> db_statement \<Rightarrow> (field_type \<times> bool \<times> content) option list" where
  "sent_params mem st = map (param_value mem st) (paramBind st)"

text \<open>The results of the library's calls, a nonzero code given as True.\<close>

record execute_results =
  bind_fails :: bool
  execute_fails :: bool
  store_fails :: bool
  affected_rows :: u64
  insert_id :: u64

definition execute :: "execute_results \<Rightarrow> db_statement \<Rightarrow> bool \<times> db_statement" where
  "execute res st =
     (let st = st\<lparr>numRows := 0, lastInsertId := 0\<rparr> in
      if paramBind st \<noteq> [] \<and> bind_fails res then (False, st)
      else if execute_fails res then (False, st)
      else if resultBind st \<noteq> [] \<and> store_fails res then (False, st)
      else (True, st\<lparr>numRows := affected_rows res, lastInsertId := insert_id res\<rparr>))"

section \<open>Rows\<close>

definition MYSQL_NO_DATA :: int where "MYSQL_NO_DATA = 100"
definition MYSQL_DATA_TRUNCATED :: int where "MYSQL_DATA_TRUNCATED = 101"

text \<open>What the library has stored of one column: null flag, length of the data, buffer.\<close>

type_synonym fetched = "bool \<times> nat \<times> content"

definition store_column :: "result_bind \<Rightarrow> fetched \<Rightarrow> result_bind" where
  "store_column r = (\<lambda>(null, len, buf). r\<lparr>r_null := null, r_length := len, r_buffer := buf\<rparr>)"

definition nextRow :: "int \<Rightarrow> fetched list \<Rightarrow> db_statement \<Rightarrow> bool \<times> db_statement" where
  "nextRow code row st =
     (let st = st\<lparr>resultIndex := 0, resultBind := map2 store_column (resultBind st) row\<rparr> in
      (if code = 0 then True
       else if code = MYSQL_NO_DATA then False
       else if code = MYSQL_DATA_TRUNCATED then True
       else False, st))"

text \<open>Reading a column: the next one if there is one, else an error is logged.\<close>

definition read_next :: "(result_bind \<Rightarrow> error + 'v) \<Rightarrow> 'v \<Rightarrow> db_statement \<Rightarrow> error + ('v \<times> db_statement)" where
  "read_next f old st =
     (if unat (resultIndex st) < length (resultBind st)
      then bindE (f (resultBind st ! unat (resultIndex st)))
        (\<lambda>v. Inr (v, st\<lparr>resultIndex := resultIndex st + 1\<rparr>))
      else Inr (old, st))"

text \<open>The bytes of a buffer; \<open>repr\<close> gives those of a \<^verbatim>\<open>MYSQL_TIME\<close> in memory.\<close>

definition raw_of :: "(mysql_time \<Rightarrow> bytes) \<Rightarrow> content \<Rightarrow> bytes" where
  "raw_of repr c = (case c of Raw bs \<Rightarrow> bs | Time t \<Rightarrow> repr t)"

text \<open>
  An arithmetic type of the width of the word: \<open>strtod\<close> stands for the C function of that name
  and the conversion of its result; it reads the bytes of the buffer up to a terminator, which is
  only there if the text does not fill the buffer.
\<close>

definition read_num :: "(mysql_time \<Rightarrow> bytes) \<Rightarrow> (bytes \<Rightarrow> 'a::len word) \<Rightarrow> 'a word \<Rightarrow> db_statement \<Rightarrow> error + ('a word \<times> db_statement)" where
  "read_num repr strtod old = read_next (\<lambda>r.
     if is_num (r_type r) then
       if r_null r then Inr 0
       else if r_type r = MYSQL_TYPE_DECIMAL \<or> r_type r = MYSQL_TYPE_NEWDECIMAL
         then if 0 \<in> set (raw_of repr (r_buffer r)) then Inr (strtod (takeWhile (\<lambda>c. c \<noteq> 0) (raw_of repr (r_buffer r))))
           else Inl Undefined_behaviour
       else bindE (peek (raw_of repr (r_buffer r)) 0 (LENGTH('a) div 8)) (\<lambda>bs. Inr (le_word bs))
     else Inr old) old"

definition read_enum :: "(mysql_time \<Rightarrow> bytes) \<Rightarrow> (bytes \<Rightarrow> 'a::len word) \<Rightarrow> 'a word \<Rightarrow> db_statement \<Rightarrow> error + ('a word \<times> db_statement)" where
  "read_enum repr strtod old st = read_num repr strtod old st"

definition read_string :: "(mysql_time \<Rightarrow> bytes) \<Rightarrow> bytes \<Rightarrow> db_statement \<Rightarrow> error + (bytes \<times> db_statement)" where
  "read_string repr old = read_next (\<lambda>r.
     if r_null r then Inr [] else peek (raw_of repr (r_buffer r)) 0 (r_length r)) old"

definition time_duration :: "mysql_time \<Rightarrow> int" where
  "time_duration t = uint (hour t) * USEC_PER_HOUR + uint (minute t) * USEC_PER_MIN
     + uint (second t) * USEC_PER_SEC + uint (second_part t)"

definition read_duration :: "int \<Rightarrow> db_statement \<Rightarrow> error + (int \<times> db_statement)" where
  "read_duration old = read_next (\<lambda>r.
     if r_null r then Inr 0
     else if r_type r = MYSQL_TYPE_TIME
       then (case r_buffer r of Time t \<Rightarrow> Inr (time_duration t) | Raw bs \<Rightarrow> Inl Undefined_behaviour)
     else Inr old) old"

text \<open>
  A time point: \<^verbatim>\<open>std::chrono::year\<close> keeps 16 bits with sign, month and day keep 8 bits; the
  sum is rounded down to ticks.
\<close>

definition time_datetime :: "int \<Rightarrow> mysql_time \<Rightarrow> int" where
  "time_datetime per_sec t =
     (let date = days_from_civil (sint (ucast (year t) :: 16 word), uint (ucast (month t) :: byte),
                   uint (ucast (day t) :: byte));
          usec = date * 86400000000 + uint (hour t) * USEC_PER_HOUR + uint (minute t) * USEC_PER_MIN
            + uint (second t) * USEC_PER_SEC + uint (second_part t)
      in usec * per_sec div USEC_PER_SEC)"

definition read_datetime :: "int \<Rightarrow> int \<Rightarrow> db_statement \<Rightarrow> error + (int \<times> db_statement)" where
  "read_datetime per_sec old = read_next (\<lambda>r.
     if \<not> r_null r \<and> (r_type r = MYSQL_TYPE_DATE \<or> r_type r = MYSQL_TYPE_DATETIME \<or> r_type r = MYSQL_TYPE_TIMESTAMP)
     then (case r_buffer r of Time t \<Rightarrow> Inr (time_datetime per_sec t) | Raw bs \<Rightarrow> Inl Undefined_behaviour)
     else Inr old) old"

definition read_bytes :: "(mysql_time \<Rightarrow> bytes) \<Rightarrow> env \<Rightarrow> byte_array \<Rightarrow> db_statement \<Rightarrow> error + (byte_array \<times> db_statement)" where
  "read_bytes repr E old = read_next (\<lambda>r.
     if r_null r then Inr old
     else bindE (peek (raw_of repr (r_buffer r)) 0 (r_length r)) (\<lambda>d. ba_writeData E (Some d) (r_length r) old)) old"

text \<open>The copy of a blob and its size, None for the null pointer.\<close>

definition statement_getBlob :: "(mysql_time \<Rightarrow> bytes) \<Rightarrow> nat \<Rightarrow> db_statement \<Rightarrow> error + ((bytes option \<times> nat) \<times> db_statement)" where
  "statement_getBlob repr old_size = read_next (\<lambda>r.
     if \<not> r_null r \<and> 0 < r_length r
     then bindE (peek (raw_of repr (r_buffer r)) 0 (r_length r)) (\<lambda>d. Inr (Some d, r_length r))
     else Inr (None, r_length r)) (None, old_size)"

definition skipFields :: "int \<Rightarrow> db_statement \<Rightarrow> db_statement" where
  "skipFields num st = st\<lparr>resultIndex := resultIndex st + of_int num\<rparr>"

section \<open>Sequences of bindings\<close>

text \<open>The calls of \<open>operator<<\<close> and its relatives; integers and floats carry their bytes.\<close>

datatype bind_op = Int_ref nat bool nat | Int_value bool bytes | Float_ref nat nat | Float_value bytes
  | String_ref nat nat | String_copy "bytes option" nat | Date int nat nat | Datetime int int
  | Duration int | Bytes_ref nat nat | Blob_copy "bytes option" nat | Null_value

fun bind_exec :: "nat \<Rightarrow> bind_op \<Rightarrow> db_statement \<Rightarrow> db_statement" where
  "bind_exec ts (Int_ref n u a) = bind_int_ref n u a"
| "bind_exec ts (Int_value u v) = bind_int u v"
| "bind_exec ts (Float_ref n a) = bind_float_ref n a"
| "bind_exec ts (Float_value v) = bind_float v"
| "bind_exec ts (String_ref a n) = bind_string_ref a n"
| "bind_exec ts (String_copy s n) = bindString s n"
| "bind_exec ts (Date y m d) = bind_date ts y m d"
| "bind_exec ts (Datetime p v) = bind_datetime ts p v"
| "bind_exec ts (Duration v) = bind_duration ts v"
| "bind_exec ts (Bytes_ref a n) = bind_bytes_ref a n"
| "bind_exec ts (Blob_copy d n) = bindBlob d n"
| "bind_exec ts Null_value = bind_null"

text \<open>The types C++ offers, and copies of no more bytes than there are.\<close>

fun valid_bind :: "bind_op \<Rightarrow> bool" where
  "valid_bind (Int_ref n u a) \<longleftrightarrow> n \<in> {1, 2, 4, 8}"
| "valid_bind (Int_value u v) \<longleftrightarrow> length v \<in> {1, 2, 4, 8}"
| "valid_bind (Float_ref n a) \<longleftrightarrow> n \<in> {4, 8}"
| "valid_bind (Float_value v) \<longleftrightarrow> length v \<in> {4, 8}"
| "valid_bind (String_copy (Some s) n) \<longleftrightarrow> n \<le> length s"
| "valid_bind (Blob_copy (Some d) n) \<longleftrightarrow> n \<le> length d"
| "valid_bind op \<longleftrightarrow> True"

text \<open>What the server should get: None for NULL.\<close>

fun intended :: "(nat \<Rightarrow> bytes) \<Rightarrow> bind_op \<Rightarrow> (field_type \<times> bool \<times> content) option" where
  "intended mem (Int_ref n u a) = Some (int_type n MYSQL_TYPE_DECIMAL, u, Raw (take n (mem a)))"
| "intended mem (Int_value u v) = Some (int_type (length v) MYSQL_TYPE_DECIMAL, u, Raw v)"
| "intended mem (Float_ref n a) = Some (float_type n MYSQL_TYPE_DECIMAL, False, Raw (take n (mem a)))"
| "intended mem (Float_value v) = Some (float_type (length v) MYSQL_TYPE_DECIMAL, False, Raw v)"
| "intended mem (String_ref a n) = Some (MYSQL_TYPE_STRING, False, Raw (take n (mem a)))"
| "intended mem (String_copy s n) = Some (MYSQL_TYPE_STRING, False, Raw (case s of Some t \<Rightarrow> take n t | None \<Rightarrow> []))"
| "intended mem (Date y m d) = Some (MYSQL_TYPE_DATE, False,
     Time (zero_time\<lparr>year := of_int y, month := of_nat m, day := of_nat d\<rparr>))"
| "intended mem (Datetime p v) = Some (MYSQL_TYPE_DATETIME, False, Time (datetime_time p v))"
| "intended mem (Duration v) = Some (MYSQL_TYPE_TIME, False, Time (duration_time v))"
| "intended mem (Bytes_ref a n) = (if n = 0 then None else Some (MYSQL_TYPE_BLOB, False, Raw (take n (mem a))))"
| "intended mem (Blob_copy d n) = (case d of Some t \<Rightarrow> Some (MYSQL_TYPE_BLOB, False, Raw (take n t)) | None \<Rightarrow> None)"
| "intended mem Null_value = None"

text \<open>The size of the buffer a type stands for, and when a parameter agrees with its type.\<close>

fun type_size :: "nat \<Rightarrow> field_type \<Rightarrow> nat option" where
  "type_size ts MYSQL_TYPE_TINY = Some 1"
| "type_size ts MYSQL_TYPE_SHORT = Some 2"
| "type_size ts MYSQL_TYPE_LONG = Some 4"
| "type_size ts MYSQL_TYPE_LONGLONG = Some 8"
| "type_size ts MYSQL_TYPE_FLOAT = Some 4"
| "type_size ts MYSQL_TYPE_DOUBLE = Some 8"
| "type_size ts MYSQL_TYPE_DATE = Some ts"
| "type_size ts MYSQL_TYPE_TIME = Some ts"
| "type_size ts MYSQL_TYPE_DATETIME = Some ts"
| "type_size ts t = None"

definition param_typed :: "nat \<Rightarrow> content list \<Rightarrow> param_bind \<Rightarrow> bool" where
  "param_typed ts copies b \<longleftrightarrow>
     (\<forall>n. type_size ts (p_type b) = Some n \<longrightarrow> p_length b = n \<and> p_buffer b \<noteq> Null)
   \<and> (\<forall>k. p_buffer b = Own k \<longrightarrow> k < length copies \<and> content_size ts (copies ! k) = p_length b
        \<and> ((\<exists>t. copies ! k = Time t) \<longleftrightarrow> p_type b \<in> {MYSQL_TYPE_DATE, MYSQL_TYPE_TIME, MYSQL_TYPE_DATETIME}))"

lemma param_typed_more: "param_typed ts copies b \<Longrightarrow> param_typed ts (copies @ extra) b"
  by (auto simp: param_typed_def nth_append)

lemma no_bind_typed [simp]: "param_typed ts copies no_bind"
  by (simp add: param_typed_def no_bind_def)

text \<open>
  After some of the bindings: the parameters up to \<open>paramIndex\<close> hold \<open>vs\<close>, those behind are
  untouched, and all agree with their types.
\<close>

definition bound :: "nat \<Rightarrow> (nat \<Rightarrow> bytes) \<Rightarrow> nat \<Rightarrow> (field_type \<times> bool \<times> content) option list \<Rightarrow> db_statement \<Rightarrow> bool" where
  "bound ts mem n vs st \<longleftrightarrow>
     length (paramBind st) = n \<and> paramIndex st = length vs \<and> length vs \<le> n
   \<and> map (param_value mem st) (take (length vs) (paramBind st)) = vs
   \<and> drop (length vs) (paramBind st) = replicate (n - length vs) no_bind
   \<and> (\<forall>b\<in>set (paramBind st). param_typed ts (paramsBuffer st) b)"

text \<open>What one binding does to an untouched parameter.\<close>

definition good_bind :: "nat \<Rightarrow> (nat \<Rightarrow> bytes) \<Rightarrow> (nat \<Rightarrow> param_bind \<Rightarrow> param_bind \<times> content list)
    \<Rightarrow> (field_type \<times> bool \<times> content) option \<Rightarrow> bool" where
  "good_bind ts mem f v \<longleftrightarrow> (\<forall>st b new. f (length (paramsBuffer st)) no_bind = (b, new) \<longrightarrow>
     param_typed ts (paramsBuffer st @ new) b
   \<and> param_value mem (st\<lparr>paramsBuffer := paramsBuffer st @ new\<rparr>) b = v)"

lemma param_value_more:
  "param_typed ts (paramsBuffer st) b \<Longrightarrow>
     param_value mem (st\<lparr>paramBind := bs, paramsBuffer := paramsBuffer st @ new, paramIndex := i\<rparr>) b = param_value mem st b"
  by (auto simp: param_value_def buffer_content_def param_typed_def nth_append split: pointer.splits)

lemma bind_next_bound:
  assumes b: "bound ts mem n vs st" and f: "good_bind ts mem f v"
  shows "bound ts mem n (if length vs < n then vs @ [v] else vs) (bind_next f st)"
proof (cases "length vs < n")
  case False
  with b have "bind_next f st = st" by (simp add: bound_def bind_next_def)
  with b False show ?thesis by simp
next
  case True
  from b have i: "paramIndex st = length vs" "length (paramBind st) = n"
    and d: "drop (length vs) (paramBind st) = replicate (n - length vs) no_bind"
    and vs: "map (param_value mem st) (take (length vs) (paramBind st)) = vs"
    and ty: "\<forall>b\<in>set (paramBind st). param_typed ts (paramsBuffer st) b" by (simp_all add: bound_def)
  have nb: "paramBind st ! length vs = no_bind"
    using d True i(2) by (metis diff_is_0_eq hd_drop_conv_nth hd_replicate linorder_not_less replicate_eq_replicate)
  obtain p new where p: "f (length (paramsBuffer st)) no_bind = (p, new)" by fastforce
  let ?bs = "(paramBind st)[length vs := p]"
  let ?st = "st\<lparr>paramBind := ?bs, paramsBuffer := paramsBuffer st @ new, paramIndex := length vs + 1\<rparr>"
  have "param_value mem ?st p = param_value mem (st\<lparr>paramsBuffer := paramsBuffer st @ new\<rparr>) p"
    by (cases "p_buffer p") (simp_all add: param_value_def buffer_content_def)
  with f p have g: "param_typed ts (paramsBuffer st @ new) p" "param_value mem ?st p = v"
    unfolding good_bind_def by (blast, metis)
  have "bind_next f st = ?st" using True i nb p by (simp add: bind_next_def)
  moreover have "map (param_value mem ?st) (take (length vs + 1) ?bs) = vs @ [v]"
  proof -
    have "map (param_value mem ?st) (take (length vs) (paramBind st))
        = map (param_value mem st) (take (length vs) (paramBind st))"
      using ty by (intro map_cong) (auto simp: param_value_more [of ts] dest: in_set_takeD)
    then have "map (param_value mem ?st) (take (length vs) (paramBind st)) = vs" using vs by simp
    with g(2) True i(2) show ?thesis by (simp add: take_Suc_conv_app_nth take_update_cancel)
  qed
  moreover have "drop (length vs + 1) ?bs = replicate (n - (length vs + 1)) no_bind"
    using d by (simp add: drop_update_cancel) (metis Suc_eq_plus1 diff_Suc_eq_diff_pred drop_Suc drop_replicate plus_1_eq_Suc drop_drop)
  moreover have "\<forall>b\<in>set ?bs. param_typed ts (paramsBuffer st @ new) b"
    using ty g(1) by (auto dest!: set_update_subset_insert [THEN subsetD] simp: param_typed_more)
  ultimately show ?thesis using True i by (simp add: bound_def)
qed

lemmas good_bind_simps = good_bind_def param_typed_def param_value_def buffer_content_def no_bind_def

lemma bind_exec_bound:
  assumes "bound ts mem n vs st" and "valid_bind op"
  shows "bound ts mem n (if length vs < n then vs @ [intended mem op] else vs) (bind_exec ts op st)"
proof -
  have "\<exists>f. bind_exec ts op st = bind_next f st \<and> good_bind ts mem f (intended mem op)"
  proof (cases op)
    case (Int_ref k u a)
    with assms(2) show ?thesis
      by (intro exI conjI, simp add: bind_int_ref_def) (auto simp: good_bind_simps)
  next
    case (Int_value u v)
    with assms(2) show ?thesis
      by (intro exI conjI, simp add: bind_int_def) (auto simp: good_bind_simps)
  next
    case (Float_ref k a)
    with assms(2) show ?thesis
      by (intro exI conjI, simp add: bind_float_ref_def) (auto simp: good_bind_simps)
  next
    case (Float_value v)
    with assms(2) show ?thesis
      by (intro exI conjI, simp add: bind_float_def) (auto simp: good_bind_simps)
  next
    case (String_ref a k)
    then show ?thesis
      by (intro exI conjI, simp add: bind_string_ref_def) (auto simp: good_bind_simps)
  next
    case (String_copy s k)
    with assms(2) show ?thesis
      by (intro exI conjI, simp add: bindString_def) (auto simp: good_bind_simps split: option.splits if_splits)
  next
    case (Date y m d)
    then show ?thesis
      by (intro exI conjI, simp add: bind_date_def bind_time_def) (auto simp: good_bind_simps)
  next
    case (Datetime p v)
    then show ?thesis
      by (intro exI conjI, simp add: bind_datetime_def bind_time_def) (auto simp: good_bind_simps)
  next
    case (Duration v)
    then show ?thesis
      by (intro exI conjI, simp add: bind_duration_def bind_time_def) (auto simp: good_bind_simps)
  next
    case (Bytes_ref a k)
    then show ?thesis
      by (intro exI conjI, simp add: bind_bytes_ref_def) (auto simp: good_bind_simps split: if_splits)
  next
    case (Blob_copy d k)
    with assms(2) show ?thesis
      by (intro exI conjI, simp add: bindBlob_def) (auto simp: good_bind_simps split: option.splits)
  next
    case Null_value
    then show ?thesis
      by (intro exI conjI, simp add: bind_null_def) (auto simp: good_bind_simps)
  qed
  then obtain f where "bind_exec ts op st = bind_next f st" "good_bind ts mem f (intended mem op)" by blast
  with bind_next_bound [OF assms(1)] show ?thesis by simp
qed

lemma binds_bound:
  "bound ts mem n vs st \<Longrightarrow> list_all valid_bind ops \<Longrightarrow>
     bound ts mem n (take n (vs @ map (intended mem) ops)) (fold (bind_exec ts) ops st)"
proof (induction ops arbitrary: vs st)
  case Nil
  then show ?case by (simp add: bound_def)
next
  case (Cons op ops)
  from Cons.prems have "length vs \<le> n" by (simp add: bound_def)
  from Cons.IH [OF bind_exec_bound [OF Cons.prems(1)]] Cons.prems(2) \<open>length vs \<le> n\<close>
  show ?case by (cases "length vs < n") auto
qed

lemma clear_bound: "bound ts mem (length (paramBind st)) [] (statement_clear st)"
  by (simp add: bound_def statement_clear_def)

lemma new_bound: "bound ts mem n [] (statement_new ts garbage n columns s now)"
  by (simp add: bound_def statement_new_def)

lemma bound_sent:
  assumes "bound ts mem n vs st"
  shows "sent_params mem st = vs @ replicate (n - length vs) (Some (MYSQL_TYPE_DECIMAL, False, Raw []))"
proof -
  let ?k = "length vs"
  have "sent_params mem st = map (param_value mem st) (take ?k (paramBind st)) @ map (param_value mem st) (drop ?k (paramBind st))"
    unfolding sent_params_def by (metis append_take_drop_id map_append)
  moreover have "map (param_value mem st) (drop ?k (paramBind st)) = replicate (n - ?k) (param_value mem st no_bind)"
    using assms by (simp add: bound_def)
  ultimately show ?thesis
    using assms by (simp add: bound_def param_value_def buffer_content_def no_bind_def)
qed

end
