(* ===== verification/Db_Statement_Props.thy ===== *)
theory Db_Statement_Props
  imports Db_Statement
begin

text \<open>
  What a prepared statement promises: the server gets the parameters that were bound, every
  buffer fits its type, times survive the way through \<^verbatim>\<open>MYSQL_TIME\<close>, and what reading a column
  gives in every case.
\<close>

section \<open>Times\<close>

lemma uint_second_part:
  assumes "0 \<le> x" and "x < 1000000"
  shows "uint (ucast (of_int x :: u32) :: u64) = x"
  using assms uint_of_int_small [of x, where 'a = 32]
  by (simp add: unsigned_ucast_eq take_bit_int_eq_self)

lemmas usec_defs = USEC_PER_HOUR_def USEC_PER_MIN_def USEC_PER_SEC_def

lemma split_time:
  fixes x a b c :: int
  shows "x div a * a + x mod a div b * b + x mod a mod b div c * c + x mod a mod b mod c = x"
  using div_mult_mod_eq [of x a] div_mult_mod_eq [of "x mod a" b] div_mult_mod_eq [of "x mod a mod b" c]
  by linarith

lemma part_bounds:
  fixes x b n :: int
  assumes "0 < b" and "0 < n"
  shows "0 \<le> x mod (b * n) div b" "x mod (b * n) div b < n"
proof -
  have "x mod (b * n) = b * (x div b mod n) + x mod b" using assms(2) by (simp add: zmod_zmult2_eq)
  then have "x mod (b * n) div b = x div b mod n" using assms(1) by simp
  with assms(2) show "0 \<le> x mod (b * n) div b" "x mod (b * n) div b < n" by simp_all
qed

text \<open>A time of day, split as both conversions do.\<close>

lemma hms_fields:
  fixes x :: int
  assumes "0 \<le> x" and "x div 3600000000 < 4294967296"
  shows "uint (of_int (x div 3600000000) :: u32) * 3600000000
    + uint (of_int (x mod 3600000000 div 60000000) :: u32) * 60000000
    + uint (of_int (x mod 3600000000 mod 60000000 div 1000000) :: u32) * 1000000
    + uint (ucast (of_int (x mod 3600000000 mod 60000000 mod 1000000) :: u32) :: u64) = x"
proof -
  have "uint (of_int (x div 3600000000) :: u32) = x div 3600000000"
    using assms by (intro uint_of_int_small) (simp_all add: pos_imp_zdiv_nonneg_iff)
  moreover have "uint (of_int (x mod 3600000000 div 60000000) :: u32) = x mod 3600000000 div 60000000"
    using part_bounds [of 60000000 60 x] by (intro uint_of_int_small) simp_all
  moreover have "uint (of_int (x mod 3600000000 mod 60000000 div 1000000) :: u32)
      = x mod 3600000000 mod 60000000 div 1000000"
    using part_bounds [of 1000000 60 "x mod 3600000000"] by (intro uint_of_int_small) simp_all
  moreover have "uint (ucast (of_int (x mod 3600000000 mod 60000000 mod 1000000) :: u32) :: u64)
      = x mod 3600000000 mod 60000000 mod 1000000"
    by (intro uint_second_part) simp_all
  ultimately show ?thesis using split_time [of x 3600000000 60000000 1000000] by (simp only:)
qed

lemma time_duration_fields:
  "time_duration (t\<lparr>neg := b, hour := h, minute := m, second := s, second_part := u\<rparr>)
     = uint h * 3600000000 + uint m * 60000000 + uint s * 1000000 + uint u"
  by (simp add: time_duration_def usec_defs)

lemma duration_roundtrip:
  assumes "\<bar>value\<bar> < 2 ^ 63"
  shows "time_duration (duration_time value) = \<bar>value\<bar>"
proof -
  define x where "x = \<bar>value\<bar>"
  have "0 \<le> x" "x < 9223372036854775808" using assms by (simp_all add: x_def)
  then have "x div 3600000000 < 4294967296" by linarith
  with \<open>0 \<le> x\<close> have "uint (of_int (x div 3600000000) :: u32) * 3600000000
    + uint (of_int (x mod 3600000000 div 60000000) :: u32) * 60000000
    + uint (of_int (x mod 3600000000 mod 60000000 div 1000000) :: u32) * 1000000
    + uint (ucast (of_int (x mod 3600000000 mod 60000000 mod 1000000) :: u32) :: u64) = x"
    by (rule hms_fields)
  moreover have "(if value < 0 then - value else value) = x" by (simp add: x_def)
  ultimately show ?thesis
    by (simp only: duration_time_def Let_def usec_defs time_duration_fields) (rule x_def)
qed

lemma time_datetime_fields:
  "time_datetime 1000000 (t\<lparr>year := y, month := mo, day := d, hour := h, minute := m, second := s, second_part := u\<rparr>)
     = days_from_civil (sint (ucast y :: 16 word), uint (ucast mo :: byte), uint (ucast d :: byte)) * 86400000000
       + (uint h * 3600000000 + uint m * 60000000 + uint s * 1000000 + uint u)"
  by (simp add: time_datetime_def usec_defs Let_def)

lemma datetime_roundtrip:
  assumes "- 32768 \<le> fst (civil_from_days (value div 86400000000))"
    and "fst (civil_from_days (value div 86400000000)) < 32768"
  shows "time_datetime 1000000 (datetime_time 1000000 value) = value"
proof -
  define x where "x = value mod 86400000000"
  obtain y m d where c: "civil_from_days (value div 86400000000) = (y, m, d)" by (metis prod_cases3)
  have md: "1 \<le> m" "m \<le> 12" "1 \<le> d" "d \<le> 31" "days_from_civil (y, m, d) = value div 86400000000"
    using days_of_civil [of "value div 86400000000"] by (simp_all add: c)
  have "sint (ucast (of_int y :: u32) :: 16 word) = y"
    using assms c by (subst ucast_of_int) (auto intro: sint_of_int_small)
  moreover have "uint (ucast (of_int m :: u32) :: byte) = m" "uint (ucast (of_int d :: u32) :: byte) = d"
    using md by (subst ucast_of_int; simp add: uint_of_int_small)+
  moreover have "0 \<le> x" "x < 86400000000" by (simp_all add: x_def)
  then have "x div 3600000000 < 4294967296" by linarith
  note hms_fields [OF \<open>0 \<le> x\<close> this]
  moreover have "x mod 60000000 = x mod 3600000000 mod 60000000" "x mod 1000000 = x mod 3600000000 mod 60000000 mod 1000000"
    by (simp_all add: mod_mod_cancel)
  moreover have "value div 86400000000 * 86400000000 + x = value" by (simp add: x_def)
  ultimately show ?thesis
    by (simp only: datetime_time_def Let_def mult.commute [of 86400] mult.commute [of 60] mult.commute [of 3600]
      c prod.case time_datetime_fields md(5) x_def [symmetric] semiring_norm mult_numeral_1 arith_simps)
qed

section \<open>Columns\<close>

text \<open>
  A column after a fetch, as the manual of \<^verbatim>\<open>mysql_stmt_fetch\<close> says: the data has length
  \<open>r_length\<close>, and as much of it as fits is in the buffer.
\<close>

definition holds_data :: "result_bind \<Rightarrow> bytes \<Rightarrow> bool" where
  "holds_data r data \<longleftrightarrow> \<not> r_null r \<and> r_length r = length data
     \<and> (\<exists>buf. r_buffer r = Raw buf \<and> take (length data) buf = take (length buf) data)"

lemma read_next_in:
  "unat (resultIndex st) < length (resultBind st) \<Longrightarrow> r = resultBind st ! unat (resultIndex st) \<Longrightarrow>
     read_next f old st = bindE (f r) (\<lambda>v. Inr (v, st\<lparr>resultIndex := resultIndex st + 1\<rparr>))"
  by (simp add: read_next_def)

lemma peek_data:
  assumes "holds_data r data"
  shows "peek (raw_of repr (r_buffer r)) 0 (r_length r) =
    (if length data \<le> content_size ts (r_buffer r) then Inr data else Inl Undefined_behaviour)"
  using assms by (auto simp: holds_data_def peek_def raw_of_def)

section \<open>Properties\<close>

text \<open>C6. The parameters a server gets are exactly the bound ones, in the order they were bound: copies as
  they were at the time of the call, references as the caller's memory is at execution. A binding
  beyond the last parameter is ignored, and a parameter that was not bound keeps the zeroed bind.\<close>

theorem stmt_sends_bindings:
  assumes "list_all valid_bind ops" and "n = length (paramBind st)"
  shows "sent_params mem (fold (bind_exec ts) ops (statement_clear st))
      = take n (map (intended mem) ops)
        @ replicate (n - length ops) (Some (MYSQL_TYPE_DECIMAL, False, Raw []))
    \<and> paramIndex (fold (bind_exec ts) ops (statement_clear st)) = min n (length ops)"
proof -
  let ?st = "fold (bind_exec ts) ops (statement_clear st)"
  have b: "bound ts mem n (take n (map (intended mem) ops)) ?st"
    using binds_bound [OF clear_bound assms(1), of ts mem st] assms(2) by simp
  have l: "length (take n (map (intended mem) ops)) = min n (length ops)" by simp
  have "n - min n (length ops) = n - length ops" by simp
  with bound_sent [OF b] have "sent_params mem ?st = take n (map (intended mem) ops)
      @ replicate (n - length ops) (Some (MYSQL_TYPE_DECIMAL, False, Raw []))" by (simp only: l)
  moreover from b have "paramIndex ?st = min n (length ops)" unfolding bound_def l by blast
  ultimately show ?thesis by blast
qed

theorem stmt_sends_bindings_witness:
  "sent_params (\<lambda>a. [1, 2, 3, 4]) (fold (bind_exec 40) [Int_ref 2 True 9, String_copy (Some [104, 105]) 2, Null_value]
     (statement_clear (statement_new 40 (\<lambda>k. replicate k 0) 2 [] [] 0)))
   = [Some (MYSQL_TYPE_SHORT, True, Raw [1, 2]), Some (MYSQL_TYPE_STRING, False, Raw [104, 105])]"
proof -
  let ?ops = "[Int_ref 2 True 9, String_copy (Some [104, 105]) 2, Null_value]"
  let ?st = "statement_new 40 (\<lambda>k. replicate k 0) 2 [] [] 0"
  have v: "list_all valid_bind ?ops" and n: "2 = length (paramBind ?st)"
    by (simp_all add: statement_new_def)
  from stmt_sends_bindings [OF v n, of "\<lambda>a. [1, 2, 3, 4]" 40] show ?thesis
    by (simp add: eval_nat_numeral)
qed

text \<open>C7. Every bind agrees with its type code, after any sequence of bindings: the length is that of
  the type, the pointer is not null, a pointer to a copy leads to an existing copy of that size, and
  the copy is a \<^verbatim>\<open>MYSQL_TIME\<close> exactly for the date and time types.\<close>

theorem stmt_params_typed:
  assumes "list_all valid_bind ops"
  shows "list_all (param_typed ts (paramsBuffer (fold (bind_exec ts) ops (statement_clear st))))
    (paramBind (fold (bind_exec ts) ops (statement_clear st)))"
  using binds_bound [OF clear_bound assms, of ts undefined st] by (simp add: bound_def list_all_iff)

theorem stmt_params_typed_witness:
  "param_typed 40 (paramsBuffer (bind_exec 40 (Duration 5) (statement_clear (statement_new 40 (\<lambda>k. []) 1 [] [] 0))))
     (paramBind (bind_exec 40 (Duration 5) (statement_clear (statement_new 40 (\<lambda>k. []) 1 [] [] 0))) ! 0)"
proof -
  let ?st = "statement_new 40 (\<lambda>k. []) 1 [] [] 0"
  have "list_all valid_bind [Duration 5]" by simp
  from stmt_params_typed [OF this, of 40 ?st]
  have "list_all (param_typed 40 (paramsBuffer (bind_exec 40 (Duration 5) (statement_clear ?st))))
    (paramBind (bind_exec 40 (Duration 5) (statement_clear ?st)))" by simp
  moreover have "length (paramBind (bind_exec 40 (Duration 5) (statement_clear ?st))) = 1"
    by (simp add: bind_duration_def bind_time_def bind_next_def statement_clear_def statement_new_def)
  ultimately show ?thesis by (simp add: list_all_length)
qed

text \<open>C9. A time point in microseconds survives the way through \<^verbatim>\<open>MYSQL_TIME\<close> and back, before and
  after 1970, if its year fits \<^verbatim>\<open>std::chrono::year\<close>; of a duration the absolute value survives, the
  sign is stored but not read back.\<close>

theorem stmt_time_roundtrip:
  assumes "- 32768 \<le> fst (civil_from_days (value div 86400000000))"
    and "fst (civil_from_days (value div 86400000000)) < 32768" and "\<bar>duration\<bar> < 2 ^ 63"
  shows "time_datetime 1000000 (datetime_time 1000000 value) = value
    \<and> time_duration (duration_time duration) = \<bar>duration\<bar>
    \<and> neg (duration_time duration) = (duration < 0)"
  using datetime_roundtrip [OF assms(1,2)] duration_roundtrip [OF assms(3)]
  by (simp add: duration_time_def Let_def)

theorem stmt_time_roundtrip_witness:
  "time_datetime 1000000 (datetime_time 1000000 (- 1)) = - 1 \<and> time_duration (duration_time (- 90000000)) = 90000000"
proof -
  have "(- 1 :: int) div 86400000000 = - 1" by simp
  moreover have "civil_from_days (- 1) = (1969, 12, 31)" by code_simp
  ultimately have "- 32768 \<le> fst (civil_from_days ((- 1) div 86400000000))"
    "fst (civil_from_days ((- 1) div 86400000000)) < 32768" by simp_all
  from stmt_time_roundtrip [OF this, of "- 90000000"] show ?thesis by simp
qed



section \<open>Corners\<close>

text \<open>A negative duration is bound with its sign and read back without it.\<close>

lemma negative_duration_lost: "time_duration (duration_time (- 1000000)) = 1000000"
  by code_simp

text \<open>
  A time point of a clock with nanoseconds, what \<^verbatim>\<open>std::chrono::system_clock::now()\<close> gives with
  GCC, puts nanoseconds where MySQL expects microseconds.
\<close>

lemma nanoseconds_wrong:
  "second_part (datetime_time 1000000000 999999999) = 999999999"
  "time_datetime 1000000000 (datetime_time 1000000000 999999999) \<noteq> 999999999"
  by code_simp+

text \<open>A column of one byte read into a 32-bit variable is read outside its buffer.\<close>

lemma tiny_into_int:
  "resultBind st = [r] \<Longrightarrow> resultIndex st = 0 \<Longrightarrow> r_type r = MYSQL_TYPE_TINY \<Longrightarrow> \<not> r_null r \<Longrightarrow> r_buffer r = Raw [b] \<Longrightarrow>
     read_num repr strtod (w :: u32) st = Inl Undefined_behaviour"
  by (simp add: read_num_def read_next_def raw_of_def peek_def)

text \<open>A decimal that fills its buffer has no terminator for \<^verbatim>\<open>strtod\<close>.\<close>

lemma decimal_unterminated:
  "resultBind st = [r] \<Longrightarrow> resultIndex st = 0 \<Longrightarrow> r_type r = MYSQL_TYPE_NEWDECIMAL \<Longrightarrow> \<not> r_null r \<Longrightarrow>
     r_buffer r = Raw bs \<Longrightarrow> 0 \<notin> set bs \<Longrightarrow>
     read_num repr strtod (w :: u32) st = Inl Undefined_behaviour"
  by (simp add: read_num_def read_next_def raw_of_def)

text \<open>\<^verbatim>\<open>operator>>\<close> appends to a ByteArray, it does not clear it.\<close>

lemma read_bytes_appends:
  "resultBind st = [r] \<Longrightarrow> resultIndex st = 0 \<Longrightarrow> \<not> r_null r \<Longrightarrow> r_buffer r = Raw bs \<Longrightarrow> r_length r = length bs \<Longrightarrow>
     read_bytes repr E old st = bindE (ba_writeData E (Some bs) (length bs) old) (\<lambda>v. Inr (v, st\<lparr>resultIndex := 1\<rparr>))"
  by (simp add: read_bytes_def read_next_def raw_of_def peek_def)

end
