(* ===== verification/Database.thy ===== *)
theory Database
  imports Db_Statement "HOL-Library.Char_ord" "HOL-Library.List_Lexorder"
begin

text \<open>
  \<^verbatim>\<open>Database\<close> and \<^verbatim>\<open>Recordset\<close> (Database.h, Database.cpp): the connection with its cache of
  prepared statements, queries and their result sets, and reading the fields of a row, which
  come as text. The results of the MySQL calls are arguments.
\<close>

section \<open>Numbers in text\<close>

definition is_space :: "byte \<Rightarrow> bool" where
  "is_space c \<longleftrightarrow> c = 32 \<or> 9 \<le> c \<and> c \<le> 13"

definition is_digit :: "byte \<Rightarrow> bool" where
  "is_digit c \<longleftrightarrow> 48 \<le> c \<and> c \<le> 57"

definition digits_value :: "bytes \<Rightarrow> nat" where
  "digits_value ds = foldl (\<lambda>n c. 10 * n + (unat c - 48)) 0 ds"

text \<open>
  The number at the front of a text, as \<^verbatim>\<open>atoi\<close>, \<^verbatim>\<open>atoll\<close> and \<^verbatim>\<open>strtoull\<close> find it: blanks,
  a sign, digits.
\<close>

definition number_of :: "bytes \<Rightarrow> int" where
  "number_of txt =
     (let s = dropWhile is_space txt;
          negative = (case s of c # r \<Rightarrow> c = 45 | [] \<Rightarrow> False);
          s = (case s of c # r \<Rightarrow> if c = 45 \<or> c = 43 then r else s | [] \<Rightarrow> s);
          n = int (digits_value (takeWhile is_digit s))
      in if negative then - n else n)"

text \<open>\<^verbatim>\<open>atoi\<close> and \<^verbatim>\<open>atoll\<close> are undefined outside the range of their result; \<^verbatim>\<open>strtoull\<close> saturates.\<close>

definition atoi :: "bytes \<Rightarrow> error + 32 word" where
  "atoi txt = (let n = number_of txt in
     if - (2 ^ 31) \<le> n \<and> n < 2 ^ 31 then Inr (of_int n) else Inl Undefined_behaviour)"

definition atoll :: "bytes \<Rightarrow> error + 64 word" where
  "atoll txt = (let n = number_of txt in
     if - (2 ^ 63) \<le> n \<and> n < 2 ^ 63 then Inr (of_int n) else Inl Undefined_behaviour)"

definition strtoull :: "bytes \<Rightarrow> 64 word" where
  "strtoull txt = (let n = number_of txt in if \<bar>n\<bar> < 2 ^ 64 then of_int n else - 1)"

section \<open>Recordset\<close>

text \<open>A column: whether its type is a blob type, and the length of its longest value in the set.\<close>

record rs_field =
  is_blob :: bool
  max_length :: nat

text \<open>\<open>mysqlRow\<close> is None for the null pointer; a field of a row is None for NULL.\<close>

record recordset =
  fieldIndex :: u32
  rs_fields :: "rs_field list"
  mysqlRow :: "bytes option list option"
  rows_left :: "bytes option list list"
  rs_sql :: string

definition recordset_new :: "rs_field list \<Rightarrow> bytes option list list \<Rightarrow> string \<Rightarrow> recordset" where
  "recordset_new columns rows s =
     \<lparr>fieldIndex = 0, rs_fields = columns, mysqlRow = None, rows_left = rows, rs_sql = s\<rparr>"

definition rs_nextRow :: "recordset \<Rightarrow> bool \<times> recordset" where
  "rs_nextRow rs = (case rows_left rs of
     [] \<Rightarrow> (False, rs\<lparr>fieldIndex := 0, mysqlRow := None\<rparr>)
   | row # rows \<Rightarrow> (True, rs\<lparr>fieldIndex := 0, mysqlRow := Some row, rows_left := rows\<rparr>))"

definition rs_skipFields :: "int \<Rightarrow> recordset \<Rightarrow> recordset" where
  "rs_skipFields num rs = rs\<lparr>fieldIndex := fieldIndex rs + of_int num\<rparr>"

text \<open>The row and the place of the next field, if there is one.\<close>

definition current_field :: "recordset \<Rightarrow> (bytes option list \<times> nat) option" where
  "current_field rs = (case mysqlRow rs of
     Some row \<Rightarrow> if unat (fieldIndex rs) < length (rs_fields rs) then Some (row, unat (fieldIndex rs)) else None
   | None \<Rightarrow> None)"

datatype number_kind = Is_int64 | Is_uint64 | Is_other

text \<open>
  An integer variable: \<open>Is_int64\<close> and \<open>Is_uint64\<close> are the types \<^verbatim>\<open>int64_t\<close> and \<^verbatim>\<open>uint64_t\<close>,
  \<open>Is_other\<close> is any other; the result is converted to the width of the variable.
\<close>

definition rs_read_int :: "number_kind \<Rightarrow> 'a::len word \<Rightarrow> recordset \<Rightarrow> error + ('a word \<times> recordset)" where
  "rs_read_int kind old rs = (case current_field rs of
     None \<Rightarrow> Inr (old, rs)
   | Some (row, i) \<Rightarrow>
       let rs' = rs\<lparr>fieldIndex := fieldIndex rs + 1\<rparr> in
       (case row ! i of
          None \<Rightarrow> Inr (old, rs')
        | Some txt \<Rightarrow> (case kind of
              Is_int64 \<Rightarrow> bindE (atoll txt) (\<lambda>v. Inr (scast v, rs'))
            | Is_uint64 \<Rightarrow> Inr (ucast (strtoull txt), rs')
            | Is_other \<Rightarrow> bindE (atoi txt) (\<lambda>v. Inr (scast v, rs')))))"

definition rs_read_enum :: "number_kind \<Rightarrow> 'a::len word \<Rightarrow> recordset \<Rightarrow> error + ('a word \<times> recordset)" where
  "rs_read_enum kind old rs = rs_read_int kind old rs"

definition rs_read_string :: "bytes \<Rightarrow> recordset \<Rightarrow> bytes \<times> recordset" where
  "rs_read_string old rs = (case current_field rs of
     None \<Rightarrow> (old, rs)
   | Some (row, i) \<Rightarrow>
       (case row ! i of Some txt \<Rightarrow> if length txt \<noteq> 0 then txt else [] | None \<Rightarrow> [],
        rs\<lparr>fieldIndex := fieldIndex rs + 1\<rparr>))"

definition rs_read_bytes :: "env \<Rightarrow> byte_array \<Rightarrow> recordset \<Rightarrow> error + (byte_array \<times> recordset)" where
  "rs_read_bytes E ba rs = (case current_field rs of
     None \<Rightarrow> Inr (ba, rs)
   | Some (row, i) \<Rightarrow>
       if is_blob (rs_fields rs ! i)
       then let datasize = (case row ! i of Some d \<Rightarrow> length d | None \<Rightarrow> 0);
                rs' = rs\<lparr>fieldIndex := fieldIndex rs + 1\<rparr> in
         if 0 < datasize
         then bindE (ba_writeData E (row ! i) datasize ba) (\<lambda>ba'. Inr (ba', rs'))
         else Inr (ba, rs')
       else Inr (ba, rs))"

text \<open>\<^verbatim>\<open>getBlob\<close>: the copy, None for the null pointer, and the size it reports.\<close>

definition rs_getBlob :: "nat \<Rightarrow> recordset \<Rightarrow> error + (bytes option \<times> nat \<times> recordset)" where
  "rs_getBlob old_size rs = (case current_field rs of
     None \<Rightarrow> Inr (None, old_size, rs)
   | Some (row, i) \<Rightarrow>
       if is_blob (rs_fields rs ! i)
       then let datasize = max_length (rs_fields rs ! i); rs' = rs\<lparr>fieldIndex := fieldIndex rs + 1\<rparr> in
         if 0 < datasize
         then (case row ! i of
             None \<Rightarrow> Inl Undefined_behaviour
           | Some d \<Rightarrow> bindE (peek d 0 datasize) (\<lambda>copy. Inr (Some copy, datasize, rs')))
         else Inr (None, datasize, rs')
       else Inr (None, old_size, rs))"

section \<open>Database\<close>

text \<open>The configuration, with the values that its members and its constructor give it; the greatest 32-bit
  number is what the initialiser \<^verbatim>\<open>-1\<close> of the limit is.\<close>

record mysql_config =
  cfg_port :: "16 word"
  autoCommit :: bool
  maxStmtCache :: u32
  cfg_host :: string
  cfg_user :: string
  cfg_password :: string
  cfg_database :: string
  unixSock :: string
  characterset :: string

definition mysql_config_new :: mysql_config where
  "mysql_config_new = \<lparr>cfg_port = 3306, autoCommit = True, maxStmtCache = - 1, cfg_host = ''localhost'',
     cfg_user = ''root'', cfg_password = [], cfg_database = [], unixSock = [], characterset = ''utf8mb4''\<rparr>"

text \<open>\<open>mysql\<close> says whether the handle is not null.\<close>

record database =
  dbConfig :: mysql_config
  mysql :: bool
  numAffectedRows :: u64
  numResultRows :: u64
  lastRecords :: "recordset option"
  lastSQL :: string
  stmtCache :: "string \<rightharpoonup> db_statement"

definition database_new :: database where
  "database_new = \<lparr>dbConfig = mysql_config_new, mysql = False, numAffectedRows = 0, numResultRows = 0,
     lastRecords = None, lastSQL = [], stmtCache = Map.empty\<rparr>"

definition setDBConfig :: "mysql_config \<Rightarrow> database \<Rightarrow> database" where
  "setDBConfig cfg db = db\<lparr>dbConfig := cfg\<rparr>"

definition logoff :: "database \<Rightarrow> database" where
  "logoff db = (if mysql db then db\<lparr>stmtCache := Map.empty, mysql := False\<rparr> else db)"

text \<open>What \<^verbatim>\<open>mysql_real_connect\<close> is called with besides the handle and the flags; the socket is a null
  pointer when its name is empty.\<close>

record connect_args =
  a_host :: string
  a_user :: string
  a_password :: string
  a_database :: string
  a_port :: "16 word"
  a_socket :: "string option"

definition connect_args_of :: "mysql_config \<Rightarrow> connect_args" where
  "connect_args_of cfg = \<lparr>a_host = cfg_host cfg, a_user = cfg_user cfg, a_password = cfg_password cfg,
     a_database = cfg_database cfg, a_port = cfg_port cfg,
     a_socket = (if unixSock cfg = [] then None else Some (unixSock cfg))\<rparr>"

text \<open>\<open>init_ok\<close> is whether \<^verbatim>\<open>mysql_init\<close> gives a handle, \<open>connect\<close> what \<^verbatim>\<open>mysql_real_connect\<close> answers.\<close>

definition logon :: "bool \<Rightarrow> (connect_args \<Rightarrow> bool) \<Rightarrow> database \<Rightarrow> bool \<times> database" where
  "logon init_ok connect db =
     (let db = logoff db in
      if \<not> init_ok then (False, db)
      else (connect (connect_args_of (dbConfig db)), db\<lparr>mysql := True\<rparr>))"

text \<open>What is set for the connection when it has been made.\<close>

definition session_settings :: "bool \<Rightarrow> (connect_args \<Rightarrow> bool) \<Rightarrow> database \<Rightarrow> (string \<times> bool) option" where
  "session_settings init_ok connect db = (if fst (logon init_ok connect db)
     then Some (characterset (dbConfig db), autoCommit (dbConfig db)) else None)"

definition isConnected :: "bool \<Rightarrow> database \<Rightarrow> bool" where
  "isConnected ping_ok db \<longleftrightarrow> mysql db \<and> ping_ok"

definition getAffectedRows :: "database \<Rightarrow> u64" where
  "getAffectedRows db = numAffectedRows db"

definition getResultRows :: "database \<Rightarrow> u64" where
  "getResultRows db = numResultRows db"

definition getInsertId :: "u64 \<Rightarrow> database \<Rightarrow> u64" where
  "getInsertId mysql_insert_id db = (if \<not> mysql db then 0 else mysql_insert_id)"

text \<open>\<^verbatim>\<open>commit\<close> and \<^verbatim>\<open>rollback\<close> negate what the library returns, and hand it the handle without a look at
  it.\<close>

definition end_transaction :: "bool \<Rightarrow> database \<Rightarrow> error + bool" where
  "end_transaction failed db = (if mysql db then Inr (\<not> failed) else Inl Undefined_behaviour)"

definition changeDatabase :: "bool \<Rightarrow> string \<Rightarrow> database \<Rightarrow> bool \<times> database" where
  "changeDatabase select_ok s db = (if mysql db \<and> select_ok
     then (True, db\<lparr>dbConfig := (dbConfig db)\<lparr>cfg_database := s\<rparr>\<rparr>) else (False, db))"

abbreviation stmt_limit :: "database \<Rightarrow> u32" where
  "stmt_limit db \<equiv> maxStmtCache (dbConfig db)"

definition freeStatement :: "string \<Rightarrow> database \<Rightarrow> database" where
  "freeStatement s db = db\<lparr>stmtCache := (stmtCache db)(s := None)\<rparr>"

definition clearCache :: "database \<Rightarrow> database" where
  "clearCache db = db\<lparr>stmtCache := Map.empty\<rparr>"

definition cacheSize :: "database \<Rightarrow> nat" where
  "cacheSize db = card (dom (stmtCache db))"

text \<open>
  The eviction: \<open>by_use\<close> gives the iterators of the cache in the order \<^verbatim>\<open>std::sort\<close> leaves them in,
  by \<open>lastUseTime\<close>, and half of the limit is erased from the front; an index beyond the vector would be
  an access outside it.
\<close>

fun erase_all :: "string list \<Rightarrow> (string \<rightharpoonup> db_statement) \<Rightarrow> (string \<rightharpoonup> db_statement)" where
  "erase_all [] m = m"
| "erase_all (s # ss) m = erase_all ss (m(s := None))"

definition evict :: "((string \<rightharpoonup> db_statement) \<Rightarrow> string list) \<Rightarrow> database \<Rightarrow> error + database" where
  "evict by_use db =
     (if unat (stmt_limit db) \<le> cacheSize db
      then let vec = by_use (stmtCache db); n = unat (drop_bit 1 (stmt_limit db)) in
        if n \<le> length vec then Inr (db\<lparr>stmtCache := erase_all (take n vec) (stmtCache db)\<rparr>)
        else Inl Undefined_behaviour
      else Inr db)"

text \<open>
  \<^verbatim>\<open>prepare\<close>: \<open>now\<close> is the clock, \<open>compile\<close> what the library and the constructor make of the
  text, None when it reports an error. The result says whether a statement is returned; it is the
  one the cache has for the text.
\<close>

definition prepare ::
    "((string \<rightharpoonup> db_statement) \<Rightarrow> string list) \<Rightarrow> nat \<Rightarrow> (string \<Rightarrow> db_statement option) \<Rightarrow> string
      \<Rightarrow> database \<Rightarrow> error + (bool \<times> database)" where
  "prepare by_use now compile s db = (case stmtCache db s of
     Some st \<Rightarrow> Inr (True, db\<lparr>stmtCache := (stmtCache db)(s \<mapsto> statement_clear (st\<lparr>lastUseTime := now\<rparr>))\<rparr>)
   | None \<Rightarrow> (case compile s of
       None \<Rightarrow> Inr (False, db)
     | Some st \<Rightarrow> bindE (evict by_use db) (\<lambda>db.
         Inr (True, db\<lparr>stmtCache := (stmtCache db)(s \<mapsto> st\<lparr>lastUseTime := now\<rparr>)\<rparr>))))"

text \<open>
  What the server has answered to a statement: the number of columns and, with columns, the stored
  result (None if storing failed), without, the affected rows.
\<close>

datatype answer = Rows "(rs_field list \<times> bytes option list list) option" | Affected u64

definition take_answer :: "string \<Rightarrow> answer \<Rightarrow> database \<Rightarrow> database" where
  "take_answer s a db = (case a of
     Rows None \<Rightarrow> db
   | Rows (Some (columns, rows)) \<Rightarrow>
       let db = db\<lparr>numResultRows := of_nat (length rows)\<rparr> in
       if 0 < numResultRows db then db\<lparr>lastRecords := Some (recordset_new columns rows s)\<rparr> else db
   | Affected n \<Rightarrow> db\<lparr>lastRecords := None, numAffectedRows := n\<rparr>)"

text \<open>A query: None is a failed \<^verbatim>\<open>mysql_query\<close>. The result sets left from the last one are dropped.\<close>

definition query :: "string \<Rightarrow> answer option \<Rightarrow> database \<Rightarrow> bool \<times> database" where
  "query s result db = (case result of
     Some a \<Rightarrow> (True, take_answer s a (db\<lparr>lastSQL := s\<rparr>))
   | None \<Rightarrow> (False, db\<lparr>lastSQL := [], lastRecords := None, numResultRows := 0, numAffectedRows := 0\<rparr>))"

definition nextRecordset :: "answer option \<Rightarrow> database \<Rightarrow> bool \<times> database" where
  "nextRecordset result db = (case result of
     Some a \<Rightarrow> (True, take_answer (lastSQL db) a db)
   | None \<Rightarrow> (False, db))"

definition getLastRecord :: "database \<Rightarrow> recordset option \<times> database" where
  "getLastRecord db = (lastRecords db, db\<lparr>lastRecords := None\<rparr>)"

section \<open>The cache\<close>

text \<open>What is used of \<^verbatim>\<open>std::sort\<close>: every statement once, by the time of its last use.\<close>

definition sorts_by_use :: "((string \<rightharpoonup> db_statement) \<Rightarrow> string list) \<Rightarrow> bool" where
  "sorts_by_use by_use \<longleftrightarrow> (\<forall>m. finite (dom m) \<longrightarrow> distinct (by_use m) \<and> set (by_use m) = dom m
     \<and> sorted_wrt (\<lambda>s t. lastUseTime (the (m s)) \<le> lastUseTime (the (m t))) (by_use m))"

lemma erase_all_eq: "erase_all ss m t = (if t \<in> set ss then None else m t)"
  by (induction ss arbitrary: m) auto

lemma sorts_length:
  assumes "sorts_by_use by_use" and "finite (dom m)"
  shows "length (by_use m) = card (dom m)"
  using assms distinct_card [of "by_use m"] unfolding sorts_by_use_def by simp

lemma half_le: "unat (drop_bit 1 (w :: u32)) \<le> unat w"
  unfolding unat_drop_bit_eq by (simp add: drop_bit_eq_div)

text \<open>What an eviction leaves: the statements used last.\<close>

lemma evict_ok:
  assumes srt: "sorts_by_use by_use" and fin: "finite (dom (stmtCache db))"
  obtains db' where "evict by_use db = Inr db'"
    and "\<exists>m. db' = db\<lparr>stmtCache := m\<rparr>"
    and "\<And>t. stmtCache db' t = None \<or> stmtCache db' t = stmtCache db t"
    and "\<And>t u st su. stmtCache db t = Some st \<Longrightarrow> stmtCache db' t = None \<Longrightarrow> stmtCache db' u = Some su \<Longrightarrow>
      lastUseTime st \<le> lastUseTime su"
    and "cacheSize db' = (if unat (stmt_limit db) \<le> cacheSize db
      then cacheSize db - unat (stmt_limit db) div 2 else cacheSize db)"
proof (cases "unat (stmt_limit db) \<le> cacheSize db")
  case False
  then show ?thesis by (intro that [of db]) (auto simp: evict_def intro: exI [of _ "stmtCache db"])
next
  case True
  let ?m = "stmtCache db" and ?n = "unat (drop_bit 1 (stmt_limit db))"
  let ?vec = "by_use ?m"
  from srt fin have v: "distinct ?vec" "set ?vec = dom ?m"
    "sorted_wrt (\<lambda>s t. lastUseTime (the (?m s)) \<le> lastUseTime (the (?m t))) ?vec"
    unfolding sorts_by_use_def by blast+
  have l: "length ?vec = cacheSize db" using sorts_length [OF srt fin] by (simp add: cacheSize_def)
  then have n: "?n \<le> length ?vec" using True half_le [of "stmt_limit db"] by linarith
  let ?db = "db\<lparr>stmtCache := erase_all (take ?n ?vec) ?m\<rparr>"
  have e: "evict by_use db = Inr ?db" using True n by (simp add: evict_def Let_def)
  have d: "dom (erase_all (take ?n ?vec) ?m) = set (drop ?n ?vec)"
  proof -
    have "set (take ?n ?vec) \<union> set (drop ?n ?vec) = dom ?m" by (metis append_take_drop_id set_append v(2))
    moreover have "set (take ?n ?vec) \<inter> set (drop ?n ?vec) = {}"
      using v(1) by (intro set_take_disj_set_drop_if_distinct) simp_all
    moreover have "dom (erase_all (take ?n ?vec) ?m) = dom ?m - set (take ?n ?vec)"
      by (auto simp: erase_all_eq dom_def)
    ultimately show ?thesis by blast
  qed
  have old: "lastUseTime st \<le> lastUseTime su"
    if "?m t = Some st" "stmtCache ?db t = None" "stmtCache ?db u = Some su" for t u st su
  proof -
    from that have t: "t \<in> set (take ?n ?vec)" by (auto simp: erase_all_eq split: if_splits)
    from that(3) have u: "u \<in> set (drop ?n ?vec)" "?m u = Some su"
      using d by (auto simp: erase_all_eq split: if_splits)
    have "sorted_wrt (\<lambda>s t. lastUseTime (the (?m s)) \<le> lastUseTime (the (?m t))) (take ?n ?vec @ drop ?n ?vec)"
      using v(3) by simp
    with t u(1) have "lastUseTime (the (?m t)) \<le> lastUseTime (the (?m u))"
      by (simp only: sorted_wrt_append)
    with that(1) u(2) show ?thesis by simp
  qed
  have "cacheSize ?db = card (set (drop ?n ?vec))" using d by (simp add: cacheSize_def)
  also have "\<dots> = cacheSize db - ?n" using v(1) l by (simp add: distinct_card)
  finally have c: "cacheSize ?db = cacheSize db - unat (stmt_limit db) div 2"
    unfolding unat_drop_bit_eq by (simp add: drop_bit_eq_div)
  show ?thesis
  proof (rule that)
    show "evict by_use db = Inr ?db" by (rule e)
    show "\<exists>m. ?db = db\<lparr>stmtCache := m\<rparr>" by blast
    show "stmtCache ?db t = None \<or> stmtCache ?db t = stmtCache db t" for t by (simp add: erase_all_eq)
    show "lastUseTime st \<le> lastUseTime su" if "stmtCache db t = Some st" "stmtCache ?db t = None"
      "stmtCache ?db u = Some su" for t u st su using that by (rule old)
    show "cacheSize ?db = (if unat (stmt_limit db) \<le> cacheSize db
      then cacheSize db - unat (stmt_limit db) div 2 else cacheSize db)" using c True by simp
  qed
qed

section \<open>Numbers as text\<close>

text \<open>How a server writes an integer: the digits from the least one, then the sign.\<close>

function back_digits :: "nat \<Rightarrow> bytes" where
  "back_digits n = of_nat (48 + n mod 10) # (if n div 10 = 0 then [] else back_digits (n div 10))"
  by pat_completeness auto
termination by (relation "measure id") auto

declare back_digits.simps [simp del]

definition int_text :: "int \<Rightarrow> bytes" where
  "int_text n = (if n < 0 then [45] else []) @ rev (back_digits (nat \<bar>n\<bar>))"

lemma digit_byte: "d < 10 \<Longrightarrow> unat (of_nat (48 + d) :: byte) = 48 + d"
  unfolding unat_of_nat by simp

lemma is_digit_byte: "d < 10 \<Longrightarrow> is_digit (of_nat (48 + d))"
  unfolding is_digit_def word_le_nat_alt by (simp only: digit_byte) simp

lemma back_digits_all: "\<forall>c\<in>set (back_digits n). is_digit c"
proof (induction n rule: back_digits.induct)
  case (1 n)
  have "is_digit (of_nat (48 + n mod 10))" by (rule is_digit_byte) simp
  with 1 show ?case by (subst back_digits.simps) simp
qed

lemma back_digits_neq_Nil [simp]: "back_digits n \<noteq> []"
  by (subst back_digits.simps) simp

lemma digits_value_back: "digits_value (rev (back_digits n)) = n"
proof (induction n rule: back_digits.induct)
  case (1 n)
  have "unat (of_nat (48 + n mod 10) :: byte) = 48 + n mod 10" by (rule digit_byte) simp
  with 1 show ?case
    by (subst back_digits.simps) (simp add: digits_value_def del: of_nat_add)
qed

lemma digit_not_special:
  assumes "is_digit c"
  shows "\<not> is_space c" "c \<noteq> 45" "c \<noteq> 43"
  using assms unfolding is_digit_def is_space_def word_le_nat_alt by (auto simp: word_unat_eq_iff)

lemma number_of_text: "number_of (int_text n) = n"
proof -
  obtain c r where d: "rev (back_digits (nat \<bar>n\<bar>)) = c # r"
    by (cases "rev (back_digits (nat \<bar>n\<bar>))") auto
  have all: "\<forall>x\<in>set (c # r). is_digit x"
    using back_digits_all [of "nat \<bar>n\<bar>"] d by (metis set_rev)
  then have sp: "\<not> is_space c" "c \<noteq> 45" "c \<noteq> 43" using digit_not_special [of c] by simp_all
  have t: "takeWhile is_digit (c # r) = c # r" using all by (intro takeWhile_eq_all_conv [THEN iffD2])
  have v: "digits_value (c # r) = nat \<bar>n\<bar>" using digits_value_back [of "nat \<bar>n\<bar>"] d by simp
  show ?thesis
  proof (cases "n < 0")
    case True
    then have i: "int_text n = 45 # c # r" using d by (simp add: int_text_def)
    have "\<not> is_space 45" by code_simp
    with True t v show ?thesis by (simp add: number_of_def i Let_def)
  next
    case False
    then have i: "int_text n = c # r" using d by (simp add: int_text_def)
    from False sp t v show ?thesis by (simp add: number_of_def i Let_def)
  qed
qed

lemma sort_key_by_use:
  "sorts_by_use (\<lambda>m. sort_key (\<lambda>s. lastUseTime (the (m s))) (sorted_list_of_set (dom m)))"
  unfolding sorts_by_use_def
proof (intro allI impI conjI)
  fix m :: "string \<rightharpoonup> db_statement"
  let ?f = "\<lambda>s. lastUseTime (the (m s))" and ?xs = "sorted_list_of_set (dom m)"
  show "distinct (sort_key ?f ?xs)" by simp
  show "set (sort_key ?f ?xs) = dom m" if "finite (dom m)" using that by simp
  have "sorted (map ?f (sort_key ?f ?xs))" by (rule sorted_sort_key)
  then show "sorted_wrt (\<lambda>s t. ?f s \<le> ?f t) (sort_key ?f ?xs)" by (simp only: sorted_map)
qed

lemma scast_of_int_small:
  assumes "- (2 ^ (LENGTH('b) - 1)) \<le> x" and "x < 2 ^ (LENGTH('b) - 1)"
  shows "(scast (of_int x :: 'b::len word) :: 'a::len word) = of_int x"
  using sint_of_int_small [OF assms] by (simp add: scast_eq)

section \<open>Properties\<close>



text \<open>An integer that the server writes as text is read back exactly: by \<^verbatim>\<open>int64_t\<close> and
  \<^verbatim>\<open>uint64_t\<close> over their whole range, by every other integer type, also the wider \<^verbatim>\<open>long long\<close> and the
  unsigned ones, only as far as \<^verbatim>\<open>int\<close> goes; beyond that the conversion is undefined.\<close>

theorem rs_int_roundtrip:
  fixes old :: "'a::len word"
  assumes "current_field rs = Some (row, i)" and "row ! i = Some (int_text n)"
  shows "rs_read_int Is_int64 old rs =
      (if - (2 ^ 63) \<le> n \<and> n < 2 ^ 63 then Inr (of_int n, rs\<lparr>fieldIndex := fieldIndex rs + 1\<rparr>)
       else Inl Undefined_behaviour)
    \<and> (0 \<le> n \<and> n < 2 ^ 64 \<longrightarrow>
        rs_read_int Is_uint64 old rs = Inr (of_int n, rs\<lparr>fieldIndex := fieldIndex rs + 1\<rparr>))
    \<and> rs_read_int Is_other old rs =
      (if - (2 ^ 31) \<le> n \<and> n < 2 ^ 31 then Inr (of_int n, rs\<lparr>fieldIndex := fieldIndex rs + 1\<rparr>)
       else Inl Undefined_behaviour)"
proof (intro conjI impI)
  show "rs_read_int Is_int64 old rs =
      (if - (2 ^ 63) \<le> n \<and> n < 2 ^ 63 then Inr (of_int n, rs\<lparr>fieldIndex := fieldIndex rs + 1\<rparr>)
       else Inl Undefined_behaviour)"
    using assms scast_of_int_small [of n, where 'b = 64 and 'a = 'a]
    by (simp add: rs_read_int_def atoll_def number_of_text)
  show "rs_read_int Is_uint64 old rs = Inr (of_int n, rs\<lparr>fieldIndex := fieldIndex rs + 1\<rparr>)"
    if "0 \<le> n \<and> n < 2 ^ 64"
    using assms that uint_of_int_small [of n, where 'a = 64]
    by (simp add: rs_read_int_def strtoull_def number_of_text ucast_eq)
  show "rs_read_int Is_other old rs =
      (if - (2 ^ 31) \<le> n \<and> n < 2 ^ 31 then Inr (of_int n, rs\<lparr>fieldIndex := fieldIndex rs + 1\<rparr>)
       else Inl Undefined_behaviour)"
    using assms scast_of_int_small [of n, where 'b = 32 and 'a = 'a]
    by (simp add: rs_read_int_def atoi_def number_of_text)
qed

theorem rs_int_roundtrip_witness:
  "rs_read_int Is_other (0 :: u32) \<lparr>fieldIndex = 0, rs_fields = [\<lparr>is_blob = False, max_length = 10\<rparr>],
      mysqlRow = Some [Some (int_text 3000000000)], rows_left = [], rs_sql = []\<rparr> = Inl Undefined_behaviour"
proof -
  let ?rs = "\<lparr>fieldIndex = 0, rs_fields = [\<lparr>is_blob = False, max_length = 10\<rparr>],
      mysqlRow = Some [Some (int_text 3000000000)], rows_left = [], rs_sql = []\<rparr>"
  have "current_field ?rs = Some ([Some (int_text 3000000000)], 0)" by (simp add: current_field_def)
  from rs_int_roundtrip [OF this, of 3000000000 "0 :: u32"] show ?thesis by simp
qed

section \<open>Corners\<close>

text \<open>With a limit of 0 or 1 half of it is nothing: no statement is ever evicted.\<close>

lemma small_limit_grows:
  assumes "stmt_limit db \<le> 1" and "stmtCache db s = None" and "compile s = Some st" and "finite (dom (stmtCache db))"
  shows "\<exists>db'. prepare by_use now compile s db = Inr (True, db') \<and> cacheSize db' = cacheSize db + 1"
proof -
  have "stmt_limit db = 0 \<or> stmt_limit db = 1"
    using assms(1) by (metis linorder_not_less word_le_sub1 word_less_1 order_antisym_conv)
  then have "drop_bit 1 (stmt_limit db) = 0" by auto
  then have "evict by_use db = Inr db" by (simp add: evict_def Let_def)
  with assms show ?thesis by (simp add: prepare_def cacheSize_def domIff)
qed

text \<open>A query that gives no row leaves the rows of an earlier one to be read.\<close>

lemma stale_records:
  "lastRecords (snd (query s (Some (Rows (Some (columns, [])))) db)) = lastRecords db"
  "lastRecords (snd (query s (Some (Rows None)) db)) = lastRecords db"
  by (simp_all add: query_def take_answer_def)

text \<open>\<^verbatim>\<open>getBlob\<close> copies as many bytes as the longest value of the set has.\<close>

lemma blob_overread:
  "current_field rs = Some (row, i) \<Longrightarrow> is_blob (rs_fields rs ! i) \<Longrightarrow> row ! i = Some d \<Longrightarrow>
     length d < max_length (rs_fields rs ! i) \<Longrightarrow> rs_getBlob old rs = Inl Undefined_behaviour"
  by (simp add: rs_getBlob_def peek_def)

text \<open>Reading a field that is not a blob into a ByteArray does not go on to the next field.\<close>

lemma no_blob_stuck:
  "current_field rs = Some (row, i) \<Longrightarrow> \<not> is_blob (rs_fields rs ! i) \<Longrightarrow> rs_read_bytes E ba rs = Inr (ba, rs)"
  by (simp add: rs_read_bytes_def)

end
