(* ===== verification/Db_Handles.thy ===== *)
theory Db_Handles
  imports Database
begin

text \<open>
  The handles of the MySQL library that a \<^verbatim>\<open>Database\<close> owns (Database.h, Database.cpp): the connection,
  one statement for every entry of the cache, the rows of \<^verbatim>\<open>lastRecords\<close> and those that
  \<^verbatim>\<open>getLastRecord\<close> has handed out; and \<^verbatim>\<open>DBQueue::DBWorkThread\<close>, which opens a \<^verbatim>\<open>Database\<close> for its
  requests. The operations are those of the theory on databases, with the calls that open, use and
  close handles in the order in which the code makes them.
\<close>

section \<open>Handles and what may be done with them\<close>

datatype handle = Connection | Is_statement: Statement string | Result nat

datatype call = Opened handle | Used handle | Closed handle

text \<open>
  The handles that are open after some calls, None if a handle is opened twice or without a connection,
  used or closed when it is not open, or if the connection is closed before its statements.
\<close>

fun live :: "handle set \<Rightarrow> call list \<Rightarrow> handle set option" where
  "live H [] = Some H"
| "live H (Opened h # cs) = (if h \<in> H \<or> h \<noteq> Connection \<and> Connection \<notin> H then None else live (insert h H) cs)"
| "live H (Used h # cs) = (if h \<in> H then live H cs else None)"
| "live H (Closed h # cs) = (if h \<notin> H \<or> h = Connection \<and> (\<exists>s\<in>H. Is_statement s) then None
     else live (H - {h}) cs)"

lemma live_append: "live H (cs @ ds) = Option.bind (live H cs) (\<lambda>K. live K ds)"
  by (induction H cs rule: live.induct) auto

lemma live_close_statements:
  "distinct ss \<Longrightarrow> Statement ` set ss \<subseteq> H \<Longrightarrow>
     live H (map (Closed \<circ> Statement) ss) = Some (H - Statement ` set ss)"
proof (induction ss arbitrary: H)
  case Nil
  then show ?case by simp
next
  case (Cons s ss)
  then have "live (H - {Statement s}) (map (Closed \<circ> Statement) ss) = Some (H - {Statement s} - Statement ` set ss)"
    by (intro Cons.IH) auto
  moreover have "H - {Statement s} - Statement ` set ss = H - Statement ` set (s # ss)" by auto
  ultimately show ?case using Cons.prems(2) by (simp add: comp_def)
qed

section \<open>Operations\<close>

text \<open>
  \<open>last_result\<close> numbers the rows that \<^verbatim>\<open>lastRecords\<close> owns, \<open>taken\<close> those that the program has taken over
  from it, \<open>calls\<close> is the history.
\<close>

record db_use =
  db :: database
  next_result :: nat
  last_result :: "nat option"
  taken_results :: "nat list"
  calls :: "call list"

text \<open>\<open>order\<close> is the order in which the hash table destroys its elements.\<close>

type_synonym cache_order = "(string \<rightharpoonup> db_statement) \<Rightarrow> string list"

definition close_cache :: "cache_order \<Rightarrow> database \<Rightarrow> call list" where
  "close_cache order d = map (Closed \<circ> Statement) (order (stmtCache d))"

definition logoff_calls :: "cache_order \<Rightarrow> database \<Rightarrow> call list" where
  "logoff_calls order d = (if mysql d then close_cache order d @ [Closed Connection] else [])"

definition logon_calls :: "cache_order \<Rightarrow> bool \<Rightarrow> database \<Rightarrow> call list" where
  "logon_calls order init_ok d = logoff_calls order d @ (if init_ok then [Opened Connection] else [])"

definition logon_use :: "cache_order \<Rightarrow> bool \<Rightarrow> (connect_args \<Rightarrow> bool) \<Rightarrow> db_use \<Rightarrow> db_use" where
  "logon_use order init_ok connect u =
     u\<lparr>db := snd (logon init_ok connect (db u)), calls := calls u @ logon_calls order init_ok (db u)\<rparr>"

definition evicted :: "cache_order \<Rightarrow> database \<Rightarrow> string list" where
  "evicted by_use d = (if unat (stmt_limit d) \<le> cacheSize d
     then take (unat (drop_bit 1 (stmt_limit d))) (by_use (stmtCache d)) else [])"

definition prepare_calls :: "cache_order \<Rightarrow> (string \<Rightarrow> db_statement option) \<Rightarrow> string \<Rightarrow> database \<Rightarrow> call list" where
  "prepare_calls by_use compile s d = (case stmtCache d s of
     Some st \<Rightarrow> [Used (Statement s)]
   | None \<Rightarrow> Opened (Statement s) # (case compile s of
       None \<Rightarrow> [Closed (Statement s)]
     | Some st \<Rightarrow> map (Closed \<circ> Statement) (evicted by_use d)))"

definition close_last :: "nat option \<Rightarrow> call list" where
  "close_last r = (case r of None \<Rightarrow> [] | Some k \<Rightarrow> [Closed (Result k)])"

text \<open>Result sets that nobody has asked for: each one that has rows is stored and freed.\<close>

fun drop_results :: "nat \<Rightarrow> answer list \<Rightarrow> call list" where
  "drop_results k [] = []"
| "drop_results k (Rows (Some rows) # as) = Opened (Result k) # Closed (Result k) # drop_results k as"
| "drop_results k (Rows None # as) = drop_results k as"
| "drop_results k (Affected n # as) = drop_results k as"

text \<open>An answer to a statement: a set with rows becomes \<^verbatim>\<open>lastRecords\<close> and the one before is freed.\<close>

definition answer_use :: "answer \<Rightarrow> database \<Rightarrow> db_use \<Rightarrow> db_use" where
  "answer_use a d u = (let k = next_result u; u = u\<lparr>db := d, next_result := k + 1\<rparr> in case a of
     Rows None \<Rightarrow> u
   | Rows (Some (columns, rows)) \<Rightarrow>
       if 0 < (of_nat (length rows) :: u64)
       then u\<lparr>last_result := Some k, calls := calls u @ [Opened (Result k)] @ close_last (last_result u)\<rparr>
       else u\<lparr>calls := calls u @ [Opened (Result k), Closed (Result k)]\<rparr>
   | Affected n \<Rightarrow> u\<lparr>last_result := None, calls := calls u @ close_last (last_result u)\<rparr>)"

definition query_use :: "string \<Rightarrow> answer list \<Rightarrow> answer option \<Rightarrow> db_use \<Rightarrow> db_use" where
  "query_use s pending result u =
     (let d = snd (query s result (db u));
          u = u\<lparr>calls := calls u @ drop_results (next_result u) pending @ [Used Connection]\<rparr> in
      case result of
        Some a \<Rightarrow> answer_use a d u
      | None \<Rightarrow> u\<lparr>db := d, last_result := None, calls := calls u @ close_last (last_result u)\<rparr>)"

text \<open>What a program does with a database and with the records and statements that it gets from it.\<close>

datatype db_op =
    Logon bool "connect_args \<Rightarrow> bool"
  | Logoff
  | Change_database bool string
  | Prepare nat "string \<Rightarrow> db_statement option" string
  | Execute string
  | Free_statement string
  | Clear_cache
  | Query string "answer list" "answer option"
  | Next_recordset "answer option"
  | Get_last_record
  | Drop_record nat

text \<open>
  One operation. A call of the library without a connection, a statement that is not in the cache any more
  and a record that is not held are errors of the program.
\<close>

definition exec :: "cache_order \<Rightarrow> cache_order \<Rightarrow> db_op \<Rightarrow> db_use \<Rightarrow> error + db_use" where
  "exec by_use order op u = (case op of
     Logon init_ok connect \<Rightarrow> Inr (logon_use order init_ok connect u)
   | Logoff \<Rightarrow> Inr (u\<lparr>db := logoff (db u), calls := calls u @ logoff_calls order (db u)\<rparr>)
   | Change_database select_ok s \<Rightarrow> Inr (u\<lparr>db := snd (changeDatabase select_ok s (db u))\<rparr>)
   | Prepare now compile s \<Rightarrow>
       if \<not> mysql (db u) then Inl Undefined_behaviour
       else bindE (prepare by_use now compile s (db u)) (\<lambda>(ok, d).
         Inr (u\<lparr>db := d, calls := calls u @ prepare_calls by_use compile s (db u)\<rparr>))
   | Execute s \<Rightarrow>
       if stmtCache (db u) s = None then Inl Undefined_behaviour
       else Inr (u\<lparr>calls := calls u @ [Used (Statement s)]\<rparr>)
   | Free_statement s \<Rightarrow>
       Inr (u\<lparr>db := freeStatement s (db u),
              calls := calls u @ (if stmtCache (db u) s = None then [] else [Closed (Statement s)])\<rparr>)
   | Clear_cache \<Rightarrow> Inr (u\<lparr>db := clearCache (db u), calls := calls u @ close_cache order (db u)\<rparr>)
   | Query s pending result \<Rightarrow>
       if \<not> mysql (db u) then Inl Undefined_behaviour else Inr (query_use s pending result u)
   | Next_recordset result \<Rightarrow>
       if \<not> mysql (db u) then Inl Undefined_behaviour
       else (let d = snd (nextRecordset result (db u)); u = u\<lparr>calls := calls u @ [Used Connection]\<rparr> in
         case result of Some a \<Rightarrow> Inr (answer_use a d u) | None \<Rightarrow> Inr u)
   | Get_last_record \<Rightarrow>
       Inr (u\<lparr>db := snd (getLastRecord (db u)), last_result := None,
              taken_results := (case last_result u of Some k \<Rightarrow> [k] | None \<Rightarrow> []) @ taken_results u\<rparr>)
   | Drop_record k \<Rightarrow>
       if k \<in> set (taken_results u)
       then Inr (u\<lparr>taken_results := remove1 k (taken_results u), calls := calls u @ [Closed (Result k)]\<rparr>)
       else Inl Undefined_behaviour)"

text \<open>The constructor, and the destructor: \<^verbatim>\<open>logoff\<close>, then the member \<^verbatim>\<open>lastRecords\<close>.\<close>

definition use_new :: "mysql_config \<Rightarrow> db_use" where
  "use_new cfg = \<lparr>db = setDBConfig cfg database_new, next_result = 0, last_result = None, taken_results = [],
     calls = []\<rparr>"

definition destroy_database :: "cache_order \<Rightarrow> db_use \<Rightarrow> db_use" where
  "destroy_database order u = u\<lparr>db := (logoff (db u))\<lparr>lastRecords := None\<rparr>, last_result := None,
     calls := calls u @ logoff_calls order (db u) @ close_last (last_result u)\<rparr>"

section \<open>The worker thread\<close>

text \<open>
  The loop that connects: each round has what \<^verbatim>\<open>mysql_ping\<close>, \<^verbatim>\<open>mysql_init\<close> and
  \<^verbatim>\<open>mysql_real_connect\<close> answer in it; when the rounds are used up the loop is still running.
\<close>

fun connect_loop :: "cache_order \<Rightarrow> (bool \<times> bool \<times> (connect_args \<Rightarrow> bool)) list \<Rightarrow> db_use \<Rightarrow> error + db_use" where
  "connect_loop order [] u = Inl Diverges"
| "connect_loop order ((ping_ok, init_ok, connect) # rounds) u =
    (if isConnected ping_ok (db u) then Inr u
     else connect_loop order rounds (logon_use order init_ok connect u))"

text \<open>A request is what the server answers until there is a connection, and what \<^verbatim>\<open>onRequest\<close> does.\<close>

type_synonym db_request = "(bool \<times> bool \<times> (connect_args \<Rightarrow> bool)) list \<times> db_op list"

definition serve_request :: "cache_order \<Rightarrow> cache_order \<Rightarrow> db_request \<Rightarrow> db_use \<Rightarrow> error + db_use" where
  "serve_request by_use order req u =
     bindE (connect_loop order (fst req) u) (\<lambda>u.
       runE (exec by_use order) (snd req) (u\<lparr>calls := calls u @ [Used Connection]\<rparr>))"

text \<open>\<^verbatim>\<open>DBWorkThread\<close> from its start to the end of the thread, for the requests that it takes from the queue.\<close>

definition DBWorkThread :: "cache_order \<Rightarrow> cache_order \<Rightarrow> mysql_config \<Rightarrow> db_request list \<Rightarrow> error + db_use" where
  "DBWorkThread by_use order cfg requests =
     bindE (runE (serve_request by_use order) requests (use_new cfg)) (\<lambda>u. Inr (destroy_database order u))"

section \<open>The handles of a database\<close>

definition owned :: "db_use \<Rightarrow> handle set" where
  "owned u = {h. h = Connection \<and> mysql (db u)} \<union> Statement ` dom (stmtCache (db u))
     \<union> Result ` (set_option (last_result u) \<union> set (taken_results u))"

definition handles_inv :: "db_use \<Rightarrow> bool" where
  "handles_inv u \<longleftrightarrow> live {} (calls u) = Some (owned u) \<and> finite (dom (stmtCache (db u)))
     \<and> (stmtCache (db u) = Map.empty \<or> mysql (db u))
     \<and> distinct (taken_results u) \<and> set_option (last_result u) \<inter> set (taken_results u) = {}
     \<and> (\<forall>k \<in> set_option (last_result u) \<union> set (taken_results u). k < next_result u)"

text \<open>What is used of the orders: every element of the table once.\<close>

definition visits_all :: "cache_order \<Rightarrow> bool" where
  "visits_all order \<longleftrightarrow> (\<forall>m. finite (dom m) \<longrightarrow> distinct (order m) \<and> set (order m) = dom m)"

lemma visits_all_by_use: "sorts_by_use by_use \<Longrightarrow> visits_all by_use"
  by (simp add: sorts_by_use_def visits_all_def)

lemma handles_inv_step:
  assumes "handles_inv u" and "calls u' = calls u @ cs" and "live (owned u) cs = Some (owned u')"
    and "finite (dom (stmtCache (db u')))" and "stmtCache (db u') = Map.empty \<or> mysql (db u')"
    and "distinct (taken_results u')" and "set_option (last_result u') \<inter> set (taken_results u') = {}"
    and "\<forall>k \<in> set_option (last_result u') \<union> set (taken_results u'). k < next_result u'"
  shows "handles_inv u'"
  using assms unfolding handles_inv_def by (simp add: live_append)

lemma handles_invD:
  assumes "handles_inv u"
  shows "live {} (calls u) = Some (owned u)" "finite (dom (stmtCache (db u)))"
    "stmtCache (db u) = Map.empty \<or> mysql (db u)" "distinct (taken_results u)"
    "set_option (last_result u) \<inter> set (taken_results u) = {}"
    "k \<in> set_option (last_result u) \<Longrightarrow> k < next_result u" "k \<in> set (taken_results u) \<Longrightarrow> k < next_result u"
  using assms unfolding handles_inv_def by blast+

lemma owned_iff [simp]:
  "Connection \<in> owned u \<longleftrightarrow> mysql (db u)"
  "Statement s \<in> owned u \<longleftrightarrow> stmtCache (db u) s \<noteq> None"
  "Result k \<in> owned u \<longleftrightarrow> k \<in> set_option (last_result u) \<or> k \<in> set (taken_results u)"
  by (auto simp: owned_def)

lemma handle_set_eqI:
  assumes "Connection \<in> A \<longleftrightarrow> Connection \<in> B" and "\<And>s. Statement s \<in> A \<longleftrightarrow> Statement s \<in> B"
    and "\<And>k. Result k \<in> A \<longleftrightarrow> Result k \<in> B"
  shows "A = B"
proof (rule set_eqI)
  fix h show "h \<in> A \<longleftrightarrow> h \<in> B" using assms by (cases h) simp_all
qed

lemma live_close_cache:
  assumes "handles_inv u" and "visits_all order"
  shows "live (owned u) (close_cache order (db u)) = Some (owned u - Statement ` dom (stmtCache (db u)))"
proof -
  have "distinct (order (stmtCache (db u)))" "set (order (stmtCache (db u))) = dom (stmtCache (db u))"
    using assms handles_invD(2) [OF assms(1)] by (auto simp: visits_all_def)
  then show ?thesis unfolding close_cache_def by (subst live_close_statements) (auto simp: domIff)
qed

lemma live_logoff:
  assumes "handles_inv u" and "visits_all order"
  shows "live (owned u) (logoff_calls order (db u)) = Some (owned (u\<lparr>db := logoff (db u)\<rparr>))"
proof (cases "mysql (db u)")
  case False
  then show ?thesis by (simp add: logoff_calls_def logoff_def)
next
  case True
  have "owned u - Statement ` dom (stmtCache (db u)) - {Connection} = owned (u\<lparr>db := logoff (db u)\<rparr>)"
    using True by (intro handle_set_eqI) (auto simp: logoff_def domIff)
  moreover have "\<not> (\<exists>h\<in>owned u - Statement ` dom (stmtCache (db u)). Is_statement h)"
    by (auto simp: owned_def)
  ultimately show ?thesis
    using True live_close_cache [OF assms] by (simp add: logoff_calls_def live_append image_iff)
qed

lemma logoff_inv:
  assumes "handles_inv u" and "visits_all order"
  shows "handles_inv (u\<lparr>db := logoff (db u), calls := calls u @ logoff_calls order (db u)\<rparr>)"
  by (rule handles_inv_step [OF assms(1)])
    (use live_logoff [OF assms] handles_invD [OF assms(1)] in
      \<open>auto simp: logoff_def owned_def\<close>)

lemma logon_inv:
  assumes "handles_inv u" and "visits_all order"
  shows "handles_inv (logon_use order init_ok connect u)"
proof -
  let ?v = "u\<lparr>db := logoff (db u), calls := calls u @ logoff_calls order (db u)\<rparr>"
  note v = logoff_inv [OF assms]
  have l: "\<not> mysql (db ?v)" "stmtCache (db ?v) = Map.empty"
    using handles_invD(3) [OF assms(1)] by (auto simp: logoff_def)
  have "owned (logon_use order init_ok connect u) = (if init_ok then insert Connection (owned ?v) else owned ?v)"
    using l by (intro handle_set_eqI) (simp_all add: logon_use_def logon_def Let_def)
  moreover have "live (owned ?v) (if init_ok then [Opened Connection] else []) =
      Some (if init_ok then insert Connection (owned ?v) else owned ?v)"
    using l by simp
  ultimately show ?thesis
    using l handles_invD [OF v]
    by (intro handles_inv_step [OF v, of _ "if init_ok then [Opened Connection] else []"])
      (auto simp: logon_use_def logon_calls_def logon_def Let_def)
qed

lemma live_close_last:
  "set_option r \<subseteq> {k. Result k \<in> H} \<Longrightarrow> live H (close_last r) = Some (H - Result ` set_option r)"
  by (cases r) (auto simp: close_last_def)

lemma live_drop_results:
  "Connection \<in> H \<Longrightarrow> Result k \<notin> H \<Longrightarrow> live H (drop_results k as) = Some H"
  by (induction k as rule: drop_results.induct) auto

text \<open>An answer leaves at most the new rows with the database.\<close>

lemma answer_inv:
  assumes inv: "handles_inv u" and m: "mysql (db u)"
    and d: "mysql d = mysql (db u)" "stmtCache d = stmtCache (db u)"
  shows "handles_inv (answer_use a d u)"
proof -
  let ?k = "next_result u" and ?L = "set_option (last_result u)"
  note i = handles_invD [OF inv]
  have fresh: "Result ?k \<notin> owned u" using i(6,7) by auto
  have last: "?L \<subseteq> {k. Result k \<in> owned u}" by auto
  consider (none) "a = Rows None" | (rows) columns rs where "a = Rows (Some (columns, rs))" "0 < (of_nat (length rs) :: u64)"
    | (empty) columns rs where "a = Rows (Some (columns, rs))" "\<not> 0 < (of_nat (length rs) :: u64)"
    | (affected) n where "a = Affected n"
    by (metis answer.exhaust option.exhaust surj_pair)
  then show ?thesis
  proof cases
    case none
    then show ?thesis
      using i d by (intro handles_inv_step [OF inv, of _ "[]"])
        (auto simp: answer_use_def Let_def owned_def intro: less_SucI)
  next
    case (rows columns rs)
    let ?u = "answer_use a d u"
    have u: "?u = u\<lparr>db := d, next_result := ?k + 1, last_result := Some ?k,
        calls := calls u @ [Opened (Result ?k)] @ close_last (last_result u)\<rparr>"
      using rows by (simp add: answer_use_def Let_def)
    have "live (insert (Result ?k) (owned u)) (close_last (last_result u)) =
        Some (insert (Result ?k) (owned u) - Result ` ?L)"
      using last by (intro live_close_last) auto
    moreover have "insert (Result ?k) (owned u) - Result ` ?L = owned ?u"
      unfolding u using d i(5,6) by (intro handle_set_eqI) auto
    ultimately have "live (owned u) ([Opened (Result ?k)] @ close_last (last_result u)) = Some (owned ?u)"
      using fresh m by simp
    then show ?thesis
      using i d by (intro handles_inv_step [OF inv, of _ "[Opened (Result ?k)] @ close_last (last_result u)"])
        (auto simp: u intro: less_SucI)
  next
    case (empty columns rs)
    have "owned u = owned (answer_use a d u)"
      using empty d by (intro handle_set_eqI) (simp_all add: answer_use_def Let_def)
    then show ?thesis
      using i d fresh m empty by (intro handles_inv_step [OF inv, of _ "[Opened (Result ?k), Closed (Result ?k)]"])
        (auto simp: answer_use_def Let_def intro: less_SucI)
  next
    case (affected n)
    have "owned u - Result ` ?L = owned (answer_use a d u)"
      using affected d i(5) by (intro handle_set_eqI) (auto simp: answer_use_def Let_def)
    then show ?thesis
      using i d live_close_last [OF last] affected
      by (intro handles_inv_step [OF inv, of _ "close_last (last_result u)"])
        (auto simp: answer_use_def Let_def intro: less_SucI)
  qed
qed

lemma used_inv:
  assumes "handles_inv u" and "h \<in> owned u"
  shows "handles_inv (u\<lparr>calls := calls u @ [Used h]\<rparr>)"
  using assms handles_invD [OF assms(1)]
  by (intro handles_inv_step [OF assms(1), of _ "[Used h]"]) (auto simp: owned_def)

lemma query_inv:
  assumes inv: "handles_inv u" and m: "mysql (db u)"
  shows "handles_inv (query_use s pending result u)"
proof -
  note i = handles_invD [OF inv]
  let ?cs = "drop_results (next_result u) pending @ [Used Connection]"
  let ?u = "u\<lparr>calls := calls u @ ?cs\<rparr>"
  have "Result (next_result u) \<notin> owned u" using i(6,7) by auto
  then have l: "live (owned u) ?cs = Some (owned u)"
    using m by (simp add: live_append live_drop_results)
  have u: "handles_inv ?u"
    using i l by (intro handles_inv_step [OF inv, of _ ?cs]) (auto simp: owned_def)
  show ?thesis
  proof (cases result)
    case (Some a)
    have "mysql (snd (query s (Some a) (db u))) = mysql (db u)"
      "stmtCache (snd (query s (Some a) (db u))) = stmtCache (db u)"
      by (cases a; auto simp: query_def take_answer_def Let_def split: option.splits)+
    with answer_inv [OF u, of "snd (query s (Some a) (db u))" a] m Some show ?thesis
      by (simp add: query_use_def Let_def)
  next
    case None
    let ?v = "query_use s pending None u"
    have v: "?v = ?u\<lparr>db := snd (query s None (db u)), last_result := None,
        calls := calls ?u @ close_last (last_result u)\<rparr>"
      by (simp add: query_use_def Let_def)
    have d: "mysql (snd (query s None (db u))) = mysql (db u)"
      "stmtCache (snd (query s None (db u))) = stmtCache (db u)" by (simp_all add: query_def)
    have "owned ?u - Result ` set_option (last_result u) = owned ?v"
      unfolding v using d i(5) by (intro handle_set_eqI) auto
    moreover have "set_option (last_result u) \<subseteq> {k. Result k \<in> owned ?u}" by auto
    ultimately have "handles_inv ?v"
      using handles_invD [OF u] live_close_last d
      by (intro handles_inv_step [OF u, of _ "close_last (last_result u)"]) (auto simp: v)
    with None show ?thesis by simp
  qed
qed

lemma prepare_inv:
  assumes inv: "handles_inv u" and m: "mysql (db u)" and srt: "sorts_by_use by_use"
    and p: "prepare by_use now compile s (db u) = Inr (ok, d)"
  shows "handles_inv (u\<lparr>db := d, calls := calls u @ prepare_calls by_use compile s (db u)\<rparr>)"
proof -
  note i = handles_invD [OF inv]
  let ?cache = "stmtCache (db u)" and ?cs = "prepare_calls by_use compile s (db u)"
  let ?u = "u\<lparr>db := d, calls := calls u @ ?cs\<rparr>"
  have "live (owned u) ?cs = Some (owned ?u) \<and> mysql d \<and> finite (dom (stmtCache d))"
  proof (cases "?cache s")
    case (Some st)
    then have d: "d = (db u)\<lparr>stmtCache := ?cache(s \<mapsto> statement_clear (st\<lparr>lastUseTime := now\<rparr>))\<rparr>"
      using p by (simp add: prepare_def)
    then have "owned u = owned ?u" using Some by (intro handle_set_eqI) auto
    then show ?thesis using Some m i(2) d by (simp add: prepare_calls_def)
  next
    case None
    show ?thesis
    proof (cases "compile s")
      case c: None
      then have "d = db u" using p None by (simp add: prepare_def)
      then have "owned u = owned ?u" by (intro handle_set_eqI) simp_all
      then show ?thesis using None c m i(2) \<open>d = db u\<close> by (simp add: prepare_calls_def)
    next
      case c: (Some st)
      let ?ev = "evicted by_use (db u)"
      from p None c obtain d1 where e: "evict by_use (db u) = Inr d1"
        and d: "d = d1\<lparr>stmtCache := (stmtCache d1)(s \<mapsto> st\<lparr>lastUseTime := now\<rparr>)\<rparr>"
        by (auto simp: prepare_def bindE_eq_Inr)
      have d1: "d1 = (db u)\<lparr>stmtCache := erase_all ?ev ?cache\<rparr>"
        using e by (auto simp: evict_def evicted_def Let_def split: if_splits)
      have ev: "distinct ?ev" "set ?ev \<subseteq> dom ?cache"
        using srt i(2) set_take_subset by (fastforce simp: evicted_def sorts_by_use_def)+
      have n: "Statement s \<notin> owned u" using None by simp
      have "live (insert (Statement s) (owned u)) (map (Closed \<circ> Statement) ?ev) =
          Some (insert (Statement s) (owned u) - Statement ` set ?ev)"
        using ev by (intro live_close_statements) (auto simp: domIff)
      moreover have "insert (Statement s) (owned u) - Statement ` set ?ev = owned ?u"
        using ev(2) None by (intro handle_set_eqI) (auto simp: d d1 erase_all_eq domIff)
      moreover have "finite (dom (stmtCache d))"
        by (rule finite_subset [OF _ finite.insertI [OF i(2)]]) (auto simp: d d1 erase_all_eq split: if_splits)
      ultimately show ?thesis using None c m n by (simp add: prepare_calls_def d d1)
    qed
  qed
  with i show ?thesis by (intro handles_inv_step [OF inv, of _ ?cs]) auto
qed

lemma db_exec_inv:
  assumes inv: "handles_inv u" and srt: "sorts_by_use by_use" and ord: "visits_all order"
    and e: "exec by_use order op u = Inr u'"
  shows "handles_inv u'"
proof -
  note i = handles_invD [OF inv]
  show ?thesis
  proof (cases op)
    case (Logon init_ok connect)
    with e logon_inv [OF inv ord] show ?thesis by (auto simp: exec_def)
  next
    case Logoff
    with e logoff_inv [OF inv ord] show ?thesis by (simp add: exec_def)
  next
    case (Change_database ok s)
    have "mysql (snd (changeDatabase ok s (db u))) = mysql (db u)"
      "stmtCache (snd (changeDatabase ok s (db u))) = stmtCache (db u)"
      by (simp_all add: changeDatabase_def)
    with Change_database e i show ?thesis
      by (intro handles_inv_step [OF inv, of _ "[]"]) (auto simp: exec_def owned_def)
  next
    case (Prepare now compile s)
    with e prepare_inv [OF inv _ srt] show ?thesis
      by (auto simp: exec_def bindE_eq_Inr split: if_splits)
  next
    case (Execute s)
    with e used_inv [OF inv, of "Statement s"] show ?thesis by (auto simp: exec_def split: if_splits)
  next
    case (Free_statement s)
    let ?cs = "if stmtCache (db u) s = None then [] else [Closed (Statement s)]"
    have u': "u' = u\<lparr>db := freeStatement s (db u), calls := calls u @ ?cs\<rparr>"
      using Free_statement e by (simp add: exec_def)
    have o: "owned u' = owned u - {Statement s}"
      by (intro handle_set_eqI) (simp_all add: u' freeStatement_def)
    have "live (owned u) ?cs = Some (owned u')" unfolding o by (cases "stmtCache (db u) s") simp_all
    moreover have "finite (dom (stmtCache (db u')))" using i(2) by (simp add: u' freeStatement_def)
    ultimately show ?thesis using i
      by (intro handles_inv_step [OF inv, of _ ?cs]) (auto simp: u' freeStatement_def)
  next
    case Clear_cache
    have u': "u' = u\<lparr>db := clearCache (db u), calls := calls u @ close_cache order (db u)\<rparr>"
      using Clear_cache e by (simp add: exec_def)
    have "owned u - Statement ` dom (stmtCache (db u)) = owned u'"
      by (intro handle_set_eqI) (auto simp: u' clearCache_def domIff)
    with live_close_cache [OF inv ord] have l: "live (owned u) (close_cache order (db u)) = Some (owned u')" by simp
    show ?thesis
      by (rule handles_inv_step [OF inv _ l]) (use i in \<open>auto simp: u' clearCache_def\<close>)
  next
    case (Query s pending result)
    with e query_inv [OF inv] show ?thesis by (auto simp: exec_def split: if_splits)
  next
    case (Next_recordset result)
    then have m: "mysql (db u)" using e by (auto simp: exec_def split: if_splits)
    then have u: "handles_inv (u\<lparr>calls := calls u @ [Used Connection]\<rparr>)" by (intro used_inv [OF inv]) simp
    show ?thesis
    proof (cases result)
      case None
      with Next_recordset e m u show ?thesis by (simp add: exec_def Let_def)
    next
      case (Some a)
      have "mysql (snd (nextRecordset (Some a) (db u))) = mysql (db u)"
        "stmtCache (snd (nextRecordset (Some a) (db u))) = stmtCache (db u)"
        by (cases a; auto simp: nextRecordset_def take_answer_def Let_def split: option.splits)+
      with answer_inv [OF u, of "snd (nextRecordset (Some a) (db u))" a] m Some Next_recordset e
      show ?thesis by (simp add: exec_def Let_def)
    qed
  next
    case Get_last_record
    let ?new = "(case last_result u of Some k \<Rightarrow> [k] | None \<Rightarrow> []) @ taken_results u"
    have u': "u' = u\<lparr>db := snd (getLastRecord (db u)), last_result := None, taken_results := ?new\<rparr>"
      using Get_last_record e by (simp add: exec_def)
    have "owned u = owned u'"
      by (intro handle_set_eqI) (auto simp: u' getLastRecord_def split: option.splits)
    with i show ?thesis
      by (intro handles_inv_step [OF inv, of _ "[]"]) (auto simp: u' getLastRecord_def split: option.splits)
  next
    case (Drop_record k)
    then have k: "k \<in> set (taken_results u)"
      and u': "u' = u\<lparr>taken_results := remove1 k (taken_results u), calls := calls u @ [Closed (Result k)]\<rparr>"
      using e by (auto simp: exec_def split: if_splits)
    have "owned u - {Result k} = owned u'"
      using k i(4,5) by (intro handle_set_eqI) (auto simp: u')
    with i k show ?thesis
      by (intro handles_inv_step [OF inv, of _ "[Closed (Result k)]"]) (auto simp: u')
  qed
qed

lemma use_new_inv: "handles_inv (use_new cfg)"
proof -
  have "owned (use_new cfg) = {}"
    by (intro handle_set_eqI) (simp_all add: use_new_def setDBConfig_def database_new_def)
  then show ?thesis by (simp add: handles_inv_def) (simp add: use_new_def setDBConfig_def database_new_def)
qed

lemma connect_loop_inv:
  assumes "visits_all order"
  shows "handles_inv u \<Longrightarrow> connect_loop order rounds u = Inr u' \<Longrightarrow> handles_inv u' \<and> mysql (db u')"
proof (induction rounds arbitrary: u)
  case Nil
  then show ?case by simp
next
  case (Cons round rounds)
  obtain ping_ok init_ok connect where "round = (ping_ok, init_ok, connect)" by (metis surj_pair)
  with Cons logon_inv [OF Cons.prems(1) assms] show ?case by (auto simp: isConnected_def split: if_splits)
qed

lemma serve_request_inv:
  assumes "handles_inv u" and "sorts_by_use by_use" and "visits_all order"
    and "serve_request by_use order req u = Inr u'"
  shows "handles_inv u'"
proof -
  from assms(4) obtain v where v: "connect_loop order (fst req) u = Inr v"
    and r: "runE (exec by_use order) (snd req) (v\<lparr>calls := calls v @ [Used Connection]\<rparr>) = Inr u'"
    by (auto simp: serve_request_def bindE_eq_Inr)
  have "handles_inv (v\<lparr>calls := calls v @ [Used Connection]\<rparr>)"
    using connect_loop_inv [OF assms(3,1) v] by (intro used_inv) simp_all
  from runE_invariant [where P = handles_inv, OF _ this r] db_exec_inv [OF _ assms(2,3)] show ?thesis by blast
qed

lemma destroy_live:
  assumes "handles_inv u" and "visits_all order"
  shows "live {} (calls (destroy_database order u)) = Some (Result ` set (taken_results u))"
proof -
  let ?v = "u\<lparr>db := logoff (db u), calls := calls u @ logoff_calls order (db u)\<rparr>"
  note v = logoff_inv [OF assms] and i = handles_invD [OF assms(1)]
  have "set_option (last_result u) \<subseteq> {k. Result k \<in> owned ?v}" by auto
  moreover have "owned ?v - Result ` set_option (last_result u) = Result ` set (taken_results u)"
    using i(3,5) by (intro handle_set_eqI) (auto simp: logoff_def split: if_splits)
  ultimately have "live (owned ?v) (close_last (last_result u)) = Some (Result ` set (taken_results u))"
    using live_close_last by metis
  then have "live {} (calls ?v @ close_last (last_result u)) = Some (Result ` set (taken_results u))"
    unfolding live_append handles_invD(1) [OF v] by simp
  then show ?thesis by (simp add: destroy_database_def)
qed

section \<open>Properties\<close>


text \<open>The example: the first ping fails, one connection is made; a statement is prepared, a query gives a row,
  which the request takes over and drops.\<close>

definition example_order :: cache_order where
  "example_order = (\<lambda>m. sort_key (\<lambda>s. lastUseTime (the (m s))) (sorted_list_of_set (dom m)))"

definition example_request :: db_request where
  "example_request = ([(False, True, \<lambda>a. a_port a = 3306), (True, True, \<lambda>a. True)],
     [Prepare 5 (\<lambda>s. Some (statement_new 40 (\<lambda>k. []) 0 [] s 0)) ''a'', Execute ''a'',
      Query ''b'' [Rows None] (Some (Rows (Some ([], [[]])))), Get_last_record, Drop_record 0])"


section \<open>Corners\<close>

text \<open>A statement that \<^verbatim>\<open>prepare\<close> has returned is gone when a later \<^verbatim>\<open>prepare\<close> evicts it: whoever still uses
  the pointer reads freed memory.\<close>

lemma evicted_statement_used:
  assumes "prepare by_use now compile t (db u) = Inr (True, d)" and "mysql (db u)" and "stmtCache d s = None"
  shows "runE (exec by_use order) [Prepare now compile t, Execute s] u = Inl Undefined_behaviour"
  using assms by (simp add: exec_def)

text \<open>The records of the last query outlive the connection.\<close>

lemma records_outlive_connection:
  "exec by_use order Logoff u = Inr u' \<Longrightarrow> last_result u' = last_result u"
  by (auto simp: exec_def)

end
