(* ===== verification/Random_Numbers.thy ===== *)
theory Random_Numbers
  imports Strings
begin

text \<open>
  Random numbers (class Math of Math.h). The 32-bit output of the generator
  \<^verbatim>\<open>std::mt19937\<close> is an argument. A double is modelled by an integer over 2 to the 32: dividing a
  32-bit number by that is exact, the product with a 32-bit number is rounded to 53 significant
  bits, half to even.
\<close>

section \<open>Rounding\<close>

fun bit_len :: "nat \<Rightarrow> nat" where
  "bit_len n = (if n = 0 then 0 else bit_len (n div 2) + 1)"

declare bit_len.simps [simp del]

definition round_even :: "nat \<Rightarrow> nat \<Rightarrow> nat" where
  "round_even e n =
     (let q = n div 2 ^ e; r = n mod 2 ^ e; up = 2 ^ e < 2 * r \<or> 2 ^ e = 2 * r \<and> odd q
      in (if up then q + 1 else q) * 2 ^ e)"

definition round53 :: "nat \<Rightarrow> nat" where
  "round53 n = round_even (bit_len n - 53) n"

section \<open>The operations\<close>

text \<open>\<^verbatim>\<open>random()\<close>: the numerator over 2 to the 32.\<close>

definition random_unit :: "u32 \<Rightarrow> nat" where
  "random_unit g = unat g"

definition random_below :: "u32 \<Rightarrow> u32 \<Rightarrow> u32" where
  "random_below g bound = of_nat (round53 (random_unit g * unat bound) div 2 ^ 32)"

text \<open>The sum and the difference of two ints; overflow is undefined.\<close>

definition int_add :: "u32 \<Rightarrow> u32 \<Rightarrow> error + u32" where
  "int_add a b = (if sint (a + b) = sint a + sint b then Inr (a + b) else Inl Undefined_behaviour)"

definition int_sub :: "u32 \<Rightarrow> u32 \<Rightarrow> error + u32" where
  "int_sub a b = (if sint (a - b) = sint a - sint b then Inr (a - b) else Inl Undefined_behaviour)"

definition random_between :: "u32 \<Rightarrow> u32 \<Rightarrow> u32 \<Rightarrow> error + u32" where
  "random_between g start end' =
     (if sint start \<le> sint end'
      then bindE (int_sub end' start) (\<lambda>d. bindE (int_add d 1) (\<lambda>n. int_add start (random_below g n)))
      else bindE (int_sub start end') (\<lambda>d. bindE (int_add d 1) (\<lambda>n. int_add end' (random_below g n))))"

definition isTrigger :: "u32 \<Rightarrow> u32 \<Rightarrow> u32 \<Rightarrow> bool" where
  "isTrigger g chance totalChance \<longleftrightarrow> random_below g totalChance < chance"

lemma bit_len_numeral [simp]:
  "bit_len 0 = 0" "bit_len (Suc 0) = 1" "bit_len (numeral k) = bit_len (numeral k div 2) + 1"
  by (subst bit_len.simps; simp add: bit_len.simps [of 0])+

lemma random_examples:
  "random_below 0 10000 = 0" "random_below 0xFFFFFFFF 10000 = 9999"
  "random_below 0xFFFFFFFF 0xFFFFFFFF = 0xFFFFFFFE"
  "random_between 0x80000000 0xFFFFFFFB 5 = Inr 0"
  "random_between 7 0 0x7FFFFFFF = Inl Undefined_behaviour"
  by (simp_all add: random_below_def random_unit_def round53_def round_even_def Let_def
      random_between_def int_add_def int_sub_def)

section \<open>Rounding errors\<close>

lemma bit_len_bounds: "n < 2 ^ bit_len n \<and> (0 < n \<longrightarrow> 2 ^ (bit_len n - 1) \<le> n)"
proof (induction n rule: bit_len.induct)
  case (1 n)
  show ?case
  proof (cases "n = 0")
    case True
    then show ?thesis by simp
  next
    case False
    with 1 have IH: "n div 2 < 2 ^ bit_len (n div 2)" "0 < n div 2 \<Longrightarrow> 2 ^ (bit_len (n div 2) - 1) \<le> n div 2"
      by simp_all
    have len: "bit_len n = bit_len (n div 2) + 1" using False by (simp add: bit_len.simps [of n])
    show ?thesis
    proof (cases "n div 2 = 0")
      case True
      then have "bit_len (n div 2) = 0" by (simp add: bit_len.simps)
      with len True False show ?thesis by simp
    next
      case False
      then have "bit_len (n div 2) \<noteq> 0" by (simp add: bit_len.simps [of "n div 2"])
      then have "(2 :: nat) ^ bit_len (n div 2) = 2 * 2 ^ (bit_len (n div 2) - 1)" by (metis power_eq_if)
      with IH False have "2 ^ bit_len (n div 2) \<le> n" by linarith
      with IH(1) show ?thesis by (simp add: len)
    qed
  qed
qed

lemma bit_len_le:
  assumes "n < 2 ^ k"
  shows "bit_len n \<le> k"
proof (cases "n = 0")
  case False
  with bit_len_bounds [of n] assms have "(2 :: nat) ^ (bit_len n - 1) < 2 ^ k" by linarith
  from power_less_imp_less_exp [OF _ this] show ?thesis by simp
qed (simp add: bit_len.simps)

lemma round_even_error:
  "round_even e n \<le> n + 2 ^ e div 2" "n \<le> round_even e n + 2 ^ e div 2"
proof -
  define q r where d: "q = n div 2 ^ e" "r = n mod 2 ^ e"
  have "n = q * 2 ^ e + r" unfolding d by (rule div_mult_mod_eq [symmetric])
  moreover have "r < 2 ^ e" by (simp add: d)
  ultimately have n: "n = q * 2 ^ e + r" "r < 2 ^ e" .
  have "round_even e n = (if 2 ^ e < 2 * r \<or> 2 ^ e = 2 * r \<and> odd q then q * 2 ^ e + 2 ^ e else q * 2 ^ e)"
    by (simp add: round_even_def Let_def d algebra_simps)
  then show "round_even e n \<le> n + 2 ^ e div 2" "n \<le> round_even e n + 2 ^ e div 2"
    using n by (auto split: if_splits)
qed

text \<open>Up to 53 bits nothing is lost.\<close>

lemma round53_exact: "n < 2 ^ 53 \<Longrightarrow> round53 n = n"
proof -
  assume "n < 2 ^ 53"
  then have "bit_len n \<le> 53" by (rule bit_len_le)
  then show "round53 n = n" by (simp add: round53_def round_even_def)
qed

text \<open>The error is less than a factor that is 20 bits shorter than the number.\<close>

lemma round53_below:
  assumes "n + b \<le> b * 2 ^ 32" and "0 < b"
  shows "round53 n < b * 2 ^ 32"
proof (cases "bit_len n \<le> 53")
  case True
  then show ?thesis using assms by (simp add: round53_def round_even_def)
next
  case False
  define e where "e = bit_len n - 53"
  have pos: "0 < n" using False by (cases n) (simp_all add: bit_len.simps)
  have "2 ^ (bit_len n - 1) \<le> n" using bit_len_bounds pos by blast
  moreover have "bit_len n - 1 = e + 20 + 32" using False by (simp add: e_def)
  ultimately have "2 ^ e * 2 ^ 20 * 2 ^ 32 \<le> n" by (simp only: power_add)
  also have "n < b * 2 ^ 32" using assms by linarith
  finally have "2 ^ e * 2 ^ 20 < b" by simp
  then have "(2 :: nat) ^ e div 2 < b" by simp
  moreover have "round53 n \<le> n + 2 ^ e div 2" by (simp add: round53_def round_even_error e_def)
  ultimately show ?thesis using assms(1) by linarith
qed

lemma random_product:
  fixes g bound :: u32
  assumes "0 < bound"
  shows "round53 (unat g * unat bound) div 2 ^ 32 < unat bound"
proof -
  have "unat g < 2 ^ 32" using unsigned_less [of g, where 'a = nat] by simp
  then have "unat g + 1 \<le> 2 ^ 32" by linarith
  then have "(unat g + 1) * unat bound \<le> 2 ^ 32 * unat bound" by (rule mult_right_mono) simp
  then have "round53 (unat g * unat bound) < unat bound * 2 ^ 32"
    using assms by (intro round53_below) (simp_all add: algebra_simps unat_gt_0)
  then show ?thesis by (simp add: less_mult_imp_div_less)
qed

lemma unat_random_below:
  "unat (random_below g bound) = round53 (unat g * unat bound) div 2 ^ 32"
proof -
  have "round53 (unat g * unat bound) div 2 ^ 32 < 2 ^ 32"
  proof (cases "bound = 0")
    case True
    then show ?thesis by (simp add: round53_exact)
  next
    case False
    then have "0 < bound" by (simp add: word_gt_0)
    have "unat bound < 2 ^ 32" using unsigned_less [of bound, where 'a = nat] by simp
    with random_product [OF \<open>0 < bound\<close>] show ?thesis by (rule less_trans)
  qed
  then show ?thesis by (simp add: random_below_def random_unit_def unat_of_nat)
qed


text \<open>In a product of less than 53 bits nothing is rounded.\<close>

lemma random_below_exact:
  assumes "unat bound \<le> 2 ^ 21"
  shows "unat (random_below g bound) = unat g * unat bound div 2 ^ 32"
proof -
  have "unat g < 2 ^ 32" using unsigned_less [of g, where 'a = nat] by simp
  then have "unat g * 2 ^ 21 < 2 ^ 53" by simp
  moreover have "unat g * unat bound \<le> unat g * 2 ^ 21" using assms by (rule mult_left_mono) simp
  ultimately have "unat g * unat bound < 2 ^ 53" by (rule le_less_trans [rotated])
  then show ?thesis by (simp add: unat_random_below round53_exact)
qed

section \<open>Fairness\<close>

text \<open>The multiples of \<open>b\<close> below \<open>m\<close> are counted by rounding \<open>m / b\<close> up.\<close>

lemma card_multiples_below:
  fixes b m :: nat
  assumes "0 < b"
  shows "card {g. g * b < m} = (m + b - 1) div b"
proof -
  have "g * b < m \<longleftrightarrow> g < (m + b - 1) div b" for g
  proof -
    have "g < (m + b - 1) div b \<longleftrightarrow> Suc g \<le> (m + b - 1) div b" by linarith
    also have "\<dots> \<longleftrightarrow> Suc g * b \<le> m + b - 1" using assms by (rule less_eq_div_iff_mult_less_eq)
    also have "\<dots> \<longleftrightarrow> g * b < m" using assms by simp linarith
    finally show ?thesis by simp
  qed
  then have "{g. g * b < m} = {..<(m + b - 1) div b}" by auto
  then show ?thesis by simp
qed

lemma round_up_bounds:
  fixes b m :: nat
  assumes "0 < b"
  shows "m \<le> (m + b - 1) div b * b" "(m + b - 1) div b * b < m + b"
proof -
  have "(m + b - 1) div b * b + (m + b - 1) mod b = m + b - 1" by (rule div_mult_mod_eq)
  moreover have "(m + b - 1) mod b < b" using assms by simp
  ultimately show "m \<le> (m + b - 1) div b * b" "(m + b - 1) div b * b < m + b" using assms by linarith+
qed

text \<open>How many of the generator's values lead below \<open>k\<close>.\<close>

lemma random_count:
  assumes "0 < bound" and "unat bound \<le> 2 ^ 21" and "k \<le> unat bound"
  shows "card {g. unat (random_below g bound) < k} = (k * 2 ^ 32 + unat bound - 1) div unat bound"
proof -
  let ?b = "unat bound"
  have b: "0 < ?b" using assms(1) by (simp add: unat_gt_0)
  have iff: "unat (random_below g bound) < k \<longleftrightarrow> unat g * ?b < k * 2 ^ 32" for g :: u32
    using assms(2) by (simp add: random_below_exact div_less_iff_less_mult)
  have small: "n < 2 ^ 32" if "n * ?b < k * 2 ^ 32" for n
  proof -
    have "k * 2 ^ 32 \<le> ?b * 2 ^ 32" using assms(3) by (rule mult_right_mono) simp
    with that have "n * ?b < 2 ^ 32 * ?b" by (simp only: mult.commute [of "2 ^ 32"])
    then show ?thesis using b by simp
  qed
  have "unat ` {g :: u32. unat g * ?b < k * 2 ^ 32} = {n. n * ?b < k * 2 ^ 32}"
  proof (intro equalityI subsetI)
    fix n
    assume "n \<in> {n. n * ?b < k * 2 ^ 32}"
    then have n: "n * ?b < k * 2 ^ 32" by simp
    with small have "unat (of_nat n :: u32) = n" by (simp add: unat_of_nat)
    with n show "n \<in> unat ` {g :: u32. unat g * ?b < k * 2 ^ 32}" by (intro image_eqI [of _ _ "of_nat n"]) simp_all
  qed auto
  moreover have "inj_on unat {g :: u32. unat g * ?b < k * 2 ^ 32}" by (rule inj_onI) (simp add: word_unat_eq_iff)
  ultimately have "card {g :: u32. unat g * ?b < k * 2 ^ 32} = card {n. n * ?b < k * 2 ^ 32}"
    by (metis card_image)
  then show ?thesis by (simp add: iff card_multiples_below [OF b])
qed


section \<open>Ranges\<close>

lemma sint_i32:
  assumes "- (2 ^ 31) \<le> x" and "x < 2 ^ 31"
  shows "sint (of_int x :: u32) = x"
  using sint_of_int_small [of x, where 'a = 32] assms by simp

lemma sint_uint_i32:
  fixes w :: u32
  shows "0 \<le> sint w \<Longrightarrow> uint w = sint w" "uint w < 2 ^ 31 \<Longrightarrow> sint w = uint w"
proof -
  show "uint w = sint w" if "0 \<le> sint w"
    using uint_of_int_small [OF that, where 'a = 32] sint_lt [of w] by simp
  show "sint w = uint w" if "uint w < 2 ^ 31"
    using sint_i32 [OF _ that] uint_ge_0 [of w] by simp
qed

lemma int_add_ok:
  fixes a b :: u32
  assumes "- (2 ^ 31) \<le> sint a + sint b" and "sint a + sint b < 2 ^ 31"
  shows "int_add a b = Inr (a + b)" "sint (a + b) = sint a + sint b"
proof -
  have "a + b = of_int (sint a + sint b)" by simp
  then show "sint (a + b) = sint a + sint b" by (simp only: sint_i32 [OF assms])
  then show "int_add a b = Inr (a + b)" by (simp add: int_add_def)
qed

lemma int_sub_ok:
  fixes a b :: u32
  assumes "- (2 ^ 31) \<le> sint a - sint b" and "sint a - sint b < 2 ^ 31"
  shows "int_sub a b = Inr (a - b)" "sint (a - b) = sint a - sint b"
proof -
  have "a - b = of_int (sint a - sint b)" by simp
  then show "sint (a - b) = sint a - sint b" by (simp only: sint_i32 [OF assms])
  then show "int_sub a b = Inr (a - b)" by (simp add: int_sub_def)
qed

lemma sint_range_i32: "- (2 ^ 31) \<le> sint (w :: u32)" "sint (w :: u32) < 2 ^ 31"
  using sint_ge [of w] sint_lt [of w] by simp_all

text \<open>Counting from \<open>lo\<close>, the smaller end.\<close>

lemma random_span:
  assumes "sint lo \<le> sint hi" and "sint hi - sint lo < 2 ^ 31 - 1"
  shows "\<exists>r. bindE (int_sub hi lo) (\<lambda>d. bindE (int_add d 1) (\<lambda>n. int_add lo (random_below g n))) = Inr r
    \<and> sint lo \<le> sint r \<and> sint r \<le> sint (hi :: u32)"
proof -
  define n where "n = hi - lo + 1"
  have d: "int_sub hi lo = Inr (hi - lo)" "sint (hi - lo) = sint hi - sint lo"
    using int_sub_ok [of hi lo] assms by simp_all
  have "sint (1 :: u32) = 1" by simp
  with int_add_ok [of "hi - lo" 1] assms d(2)
  have n: "int_add (hi - lo) 1 = Inr n" "sint n = sint hi - sint lo + 1" by (simp_all add: n_def)
  have un: "uint n = sint n" using n(2) assms by (intro sint_uint_i32) simp
  have "0 < uint n" using un n(2) assms(1) by linarith
  then have "0 < n" by (simp add: word_less_def)
  from random_product [OF this, of g] have "random_below g n < n"
    by (simp add: word_less_nat_alt unat_random_below)
  then have lt: "uint (random_below g n) < uint n" by (simp add: word_less_def)
  then have r: "sint (random_below g n) = uint (random_below g n)"
    using un n(2) sint_range_i32 [of n] by (intro sint_uint_i32) linarith
  have "sint lo + sint (random_below g n) \<le> sint hi" "0 \<le> sint (random_below g n)"
    using r lt un n(2) uint_ge_0 [of "random_below g n"] by linarith+
  moreover from this have "int_add lo (random_below g n) = Inr (lo + random_below g n)"
    "sint (lo + random_below g n) = sint lo + sint (random_below g n)"
    using sint_range_i32 [of lo] sint_range_i32 [of hi] by (intro int_add_ok; linarith)+
  ultimately show ?thesis by (simp add: d n)
qed

lemma random_span_overflow:
  assumes "2 ^ 31 - 1 \<le> sint hi - sint (lo :: u32)"
  shows "bindE (int_sub hi lo) (\<lambda>d. bindE (int_add d 1) k) = (Inl Undefined_behaviour :: error + u32)"
proof (cases "sint (hi - lo) = sint hi - sint lo")
  case True
  with assms sint_range_i32 [of "hi - lo"] have "sint (hi - lo) = 2 ^ 31 - 1" by linarith
  moreover have "sint (hi - lo + 1) < 2 ^ 31" by (rule sint_range_i32)
  ultimately show ?thesis using True by (simp add: int_sub_def int_add_def)
next
  case False
  then show ?thesis by (simp add: int_sub_def)
qed

section \<open>Properties\<close>

text \<open>C17. The random number between two bounds, in either order, lies between them, both
  included, for every output of the generator; this holds exactly if the distance of the bounds
  is less than \<^verbatim>\<open>INT_MAX\<close>. From there on the count of the numbers overflows an int, which is
  undefined.\<close>

theorem random_between_range:
  "if \<bar>sint end' - sint start\<bar> < 2 ^ 31 - 1
   then \<exists>r. random_between g start end' = Inr r
     \<and> min (sint start) (sint end') \<le> sint r \<and> sint r \<le> max (sint start) (sint end')
   else random_between g start end' = Inl Undefined_behaviour"
proof (cases "sint start \<le> sint end'")
  case True
  then show ?thesis
    using random_span [of start end' g] random_span_overflow [of end' start]
    by (auto simp: random_between_def)
next
  case False
  then show ?thesis
    using random_span [of end' start g] random_span_overflow [of start end']
    by (auto simp: random_between_def)
qed

text \<open>A chance is met fairly: for a total of at most 2 to the 21, of all 2 to the 32
  outputs of the generator the share on which \<^verbatim>\<open>isTrigger\<close> says yes is the chance over the
  total, up to less than one output.\<close>

theorem trigger_fair:
  assumes "0 < tot" and "unat tot \<le> 2 ^ 21" and "chance \<le> tot"
  shows "let n = card {g. isTrigger g chance tot}; m = unat chance * 2 ^ 32
    in m \<le> n * unat tot \<and> n * unat tot < m + unat tot"
proof -
  have "unat chance \<le> unat tot" using assms(3) by (simp add: word_le_nat_alt)
  from random_count [OF assms(1,2) this]
  have "card {g. isTrigger g chance tot} = (unat chance * 2 ^ 32 + unat tot - 1) div unat tot"
    by (simp add: isTrigger_def word_less_nat_alt)
  moreover have "0 < unat tot" using assms(1) by (simp add: unat_gt_0)
  ultimately show ?thesis using round_up_bounds by (simp add: Let_def)
qed

theorem trigger_fair_witness:
  "card {g. isTrigger g 2500 10000} = 2 ^ 30"
  using trigger_fair [of 10000 2500] by (simp add: Let_def word_le_nat_alt)

text \<open>No value of a smaller range is left out, and the extreme chances are certain.\<close>

lemma random_below_less: "0 < bound \<Longrightarrow> random_below g bound < bound"
  using random_product [of bound g] by (simp add: word_less_nat_alt unat_random_below)

lemma trigger_certain: "0 < tot \<Longrightarrow> tot \<le> chance \<Longrightarrow> isTrigger g chance tot"
  using random_below_less [of tot g] by (simp add: isTrigger_def less_le_trans)

lemma trigger_never: "\<not> isTrigger g 0 tot"
  by (simp add: isTrigger_def)

text \<open>\<^verbatim>\<open>String::random\<close> with these numbers takes its characters from the given ones.\<close>

lemma random_string_chars:
  assumes "cs \<noteq> []" and "length cs < 2 ^ 32"
  shows "set (random_string (\<lambda>i n. unat (random_below (g i) (of_nat n))) len (Some cs)) \<subseteq> set cs"
proof -
  have n: "unat (of_nat (length cs) :: u32) = length cs" using assms(2) by (simp add: unat_of_nat)
  with assms(1) have "0 < (of_nat (length cs) :: u32)" by (simp add: word_less_nat_alt)
  from random_below_less [OF this] n have "unat (random_below (g i) (of_nat (length cs))) < length cs" for i
    by (metis word_less_nat_alt)
  then show ?thesis by (auto simp: random_string_def Let_def)
qed

end
