(* ===== verification/Geometry.thy ===== *)
theory Geometry
  imports Random_Numbers Complex_Main
begin

text \<open>
  \<^verbatim>\<open>Vector2D\<close> and \<^verbatim>\<open>Rectangle\<close> (Math.h). Doubles are idealised as real numbers, without
  rounding, signed zeros and infinities; where a double would become infinite or NaN because of a
  division by zero the result is None. Rectangles over int keep their 32 bits.
\<close>

section \<open>Vectors\<close>

record 'a Vector2D =
  vx :: 'a
  vy :: 'a

abbreviation vec :: "'a \<Rightarrow> 'a \<Rightarrow> 'a Vector2D" where
  "vec a b \<equiv> \<lparr>vx = a, vy = b\<rparr>"

definition vec_zero :: "real Vector2D \<Rightarrow> real Vector2D" where
  "vec_zero v = v\<lparr>vx := 0, vy := 0\<rparr>"

definition getLength :: "real Vector2D \<Rightarrow> real" where
  "getLength v = sqrt (vx v * vx v + vy v * vy v)"

text \<open>\<^verbatim>\<open>atan2\<close> of the C library.\<close>

definition atan2 :: "real \<Rightarrow> real \<Rightarrow> real" where
  "atan2 b a =
     (if 0 < a then arctan (b / a)
      else if a < 0 then (if 0 \<le> b then arctan (b / a) + pi else arctan (b / a) - pi)
      else if 0 < b then pi / 2 else if b < 0 then - (pi / 2) else 0)"

definition getAngle :: "real Vector2D \<Rightarrow> real" where
  "getAngle v = atan2 (vy v) (vx v)"

definition setLength :: "real Vector2D \<Rightarrow> real \<Rightarrow> real Vector2D" where
  "setLength v value = (let angle = getAngle v in v\<lparr>vx := cos angle * value, vy := sin angle * value\<rparr>)"

definition setAngle :: "real Vector2D \<Rightarrow> real \<Rightarrow> real Vector2D" where
  "setAngle v value = (let len = getLength v in v\<lparr>vx := cos value * len, vy := sin value * len\<rparr>)"

definition normalize_vec :: "real Vector2D \<Rightarrow> real Vector2D" where
  "normalize_vec v =
     (let len = getLength v in
      if len = 0 then v\<lparr>vx := 1\<rparr> else v\<lparr>vx := vx v / len, vy := vy v / len\<rparr>)"

definition truncate_vec :: "real Vector2D \<Rightarrow> real \<Rightarrow> real Vector2D" where
  "truncate_vec v value = setLength v (min value (getLength v))"

definition reverse_vec :: "'a::linordered_idom Vector2D \<Rightarrow> 'a Vector2D" where
  "reverse_vec v = v\<lparr>vx := - vx v, vy := - vy v\<rparr>"

definition vec_add :: "'a::linordered_idom Vector2D \<Rightarrow> 'a Vector2D \<Rightarrow> 'a Vector2D" where
  "vec_add v other = vec (vx v + vx other) (vy v + vy other)"

definition vec_sub :: "'a::linordered_idom Vector2D \<Rightarrow> 'a Vector2D \<Rightarrow> 'a Vector2D" where
  "vec_sub v other = vec (vx v - vx other) (vy v - vy other)"

definition vec_mul :: "'a::linordered_idom Vector2D \<Rightarrow> 'a \<Rightarrow> 'a Vector2D" where
  "vec_mul v value = vec (vx v * value) (vy v * value)"

definition vec_div :: "'a::linordered_field Vector2D \<Rightarrow> 'a \<Rightarrow> 'a Vector2D option" where
  "vec_div v value = (if value = 0 then None else Some (vec (vx v / value) (vy v / value)))"

definition vec_eq :: "'a::linordered_idom Vector2D \<Rightarrow> 'a Vector2D \<Rightarrow> bool" where
  "vec_eq v other \<longleftrightarrow> vx v = vx other \<and> vy v = vy other"

definition vec_neq :: "'a::linordered_idom Vector2D \<Rightarrow> 'a Vector2D \<Rightarrow> bool" where
  "vec_neq v other \<longleftrightarrow> vx v \<noteq> vx other \<or> vy v \<noteq> vy other"

definition vec_add_assign :: "'a::linordered_idom Vector2D \<Rightarrow> 'a Vector2D \<Rightarrow> 'a Vector2D" where
  "vec_add_assign v other = v\<lparr>vx := vx v + vx other, vy := vy v + vy other\<rparr>"

definition vec_sub_assign :: "'a::linordered_idom Vector2D \<Rightarrow> 'a Vector2D \<Rightarrow> 'a Vector2D" where
  "vec_sub_assign v other = v\<lparr>vx := vx v - vx other, vy := vy v - vy other\<rparr>"

definition dotProduct :: "'a::linordered_idom Vector2D \<Rightarrow> 'a Vector2D \<Rightarrow> 'a" where
  "dotProduct v other = vx v * vx other + vy v * vy other"

definition crossProduct :: "'a::linordered_idom Vector2D \<Rightarrow> 'a Vector2D \<Rightarrow> 'a" where
  "crossProduct v other = vx v * vy other - vy v * vx other"

definition sign_vec :: "'a::linordered_idom Vector2D \<Rightarrow> 'a Vector2D \<Rightarrow> int" where
  "sign_vec v other = (let cp = crossProduct v other in if cp = 0 then 0 else if cp < 0 then - 1 else 1)"

definition getPerpendicular :: "'a::linordered_idom Vector2D \<Rightarrow> 'a Vector2D" where
  "getPerpendicular v = vec (- vy v) (vx v)"

definition distance_xy :: "real \<Rightarrow> real \<Rightarrow> real \<Rightarrow> real \<Rightarrow> real" where
  "distance_xy x1 y1 x2 y2 = (let dx = x2 - x1; dy = y2 - y1 in sqrt (dx * dx + dy * dy))"

definition distance :: "real Vector2D \<Rightarrow> real Vector2D \<Rightarrow> real" where
  "distance v other =
     (let dx = vx other - vx v; dy = vy other - vy v in sqrt (dx * dx + dy * dy))"

definition inRectRange :: "'a::linordered_idom Vector2D \<Rightarrow> 'a \<Rightarrow> 'a Vector2D \<Rightarrow> bool" where
  "inRectRange v rng other \<longleftrightarrow> \<bar>vx v - vx other\<bar> \<le> rng \<and> \<bar>vy v - vy other\<bar> \<le> rng"

definition angleBetween :: "real Vector2D \<Rightarrow> real Vector2D \<Rightarrow> real option" where
  "angleBetween v1 v2 =
     (let d = getLength v1 * getLength v2 in
      if d = 0 then None else Some (arccos (dotProduct v1 v2 / d)))"

section \<open>Rectangles\<close>

record 'a Rectangle =
  rx :: 'a
  ry :: 'a
  width :: 'a
  height :: 'a

text \<open>Over int: the left operand of \<^verbatim>\<open>&&\<close> decides whether the right one is evaluated.\<close>

definition lazy_and :: "bool \<Rightarrow> error + bool \<Rightarrow> error + bool" where
  "lazy_and b k = (if b then k else Inr False)"

definition contains_int :: "u32 Rectangle \<Rightarrow> u32 Vector2D \<Rightarrow> error + bool" where
  "contains_int r point =
     lazy_and (sint (rx r) \<le> sint (vx point))
      (bindE (int_add (rx r) (width r)) (\<lambda>right.
       lazy_and (sint (vx point) \<le> sint right)
        (lazy_and (sint (ry r) \<le> sint (vy point))
         (bindE (int_add (ry r) (height r)) (\<lambda>bottom. Inr (sint (vy point) \<le> sint bottom))))))"

definition randomPoint_int :: "u32 \<Rightarrow> u32 \<Rightarrow> u32 Rectangle \<Rightarrow> error + u32 Vector2D" where
  "randomPoint_int gx gy r =
     bindE (random_between gx 0 (width r)) (\<lambda>dx. bindE (int_add (rx r) dx) (\<lambda>a.
     bindE (random_between gy 0 (height r)) (\<lambda>dy. bindE (int_add (ry r) dy) (\<lambda>b. Inr (vec a b)))))"

text \<open>Over double.\<close>

definition random_real :: "u32 \<Rightarrow> real" where
  "random_real g = real (random_unit g) / 2 ^ 32"

definition randomPoint_real :: "u32 \<Rightarrow> u32 \<Rightarrow> real Rectangle \<Rightarrow> real Vector2D" where
  "randomPoint_real gx gy r =
     vec (rx r + random_real gx * width r) (ry r + random_real gy * height r)"

definition contains_real :: "real Rectangle \<Rightarrow> real Vector2D \<Rightarrow> bool" where
  "contains_real r point \<longleftrightarrow>
     rx r \<le> vx point \<and> vx point \<le> rx r + width r \<and> ry r \<le> vy point \<and> vy point \<le> ry r + height r"

section \<open>Polar coordinates\<close>

lemma getLength_eq_0: "getLength v = 0 \<longleftrightarrow> vx v = 0 \<and> vy v = 0"
  by (simp add: getLength_def sum_squares_eq_zero_iff)

lemma getLength_ge_0: "0 \<le> getLength v"
  by (simp add: getLength_def)

lemma getLength_scaled: "getLength (v\<lparr>vx := cos a * r, vy := sin a * r\<rparr>) = \<bar>r\<bar>"
proof -
  have "cos a * r * (cos a * r) + sin a * r * (sin a * r) = ((cos a)\<^sup>2 + (sin a)\<^sup>2) * (r * r)"
    by (simp only: power2_eq_square) algebra
  then show ?thesis by (simp add: getLength_def)
qed

lemma length_right: "0 < a \<Longrightarrow> sqrt (a * a + b * b) = a * sqrt (1 + (b / a)\<^sup>2)"
proof -
  assume a: "0 < a"
  then have "a * a + b * b = (a * a) * (1 + (b / a)\<^sup>2)" by (simp add: field_simps power2_eq_square)
  then show ?thesis using a by (simp add: real_sqrt_mult)
qed

lemma polar_right:
  assumes "0 < a"
  shows "sqrt (a * a + b * b) * cos (arctan (b / a)) = a" "sqrt (a * a + b * b) * sin (arctan (b / a)) = b"
proof -
  have "sqrt (1 + (b / a)\<^sup>2) \<noteq> 0" by (metis add_pos_nonneg less_numeral_extra(1,3) real_sqrt_eq_zero_cancel_iff zero_le_power2)
  then show "sqrt (a * a + b * b) * cos (arctan (b / a)) = a" "sqrt (a * a + b * b) * sin (arctan (b / a)) = b"
    using assms by (simp_all add: length_right cos_arctan sin_arctan)
qed

lemma polar:
  "getLength v * cos (getAngle v) = vx v" "getLength v * sin (getAngle v) = vy v"
proof -
  consider "0 < vx v" | "vx v < 0" | "vx v = 0" by linarith
  then have "getLength v * cos (getAngle v) = vx v \<and> getLength v * sin (getAngle v) = vy v"
  proof cases
    case 1
    then show ?thesis using polar_right [of "vx v" "vy v"] by (simp add: getLength_def getAngle_def atan2_def)
  next
    case 2
    then show ?thesis using polar_right [of "- vx v" "- vy v"]
      by (auto simp: getLength_def getAngle_def atan2_def cos_diff sin_diff)
  next
    case 3
    then show ?thesis by (auto simp: getLength_def getAngle_def atan2_def)
  qed
  then show "getLength v * cos (getAngle v) = vx v" "getLength v * sin (getAngle v) = vy v" by simp_all
qed

lemma atan2_range: "- pi < atan2 b a" "atan2 b a \<le> pi"
proof -
  have "b / a \<le> 0" if "a < 0" "0 \<le> b" using that by (simp add: divide_nonneg_neg)
  moreover have "0 < b / a" if "a < 0" "b < 0" using that by (simp add: divide_neg_neg)
  ultimately show "- pi < atan2 b a" "atan2 b a \<le> pi"
    using arctan_bounded [of "b / a"] pi_gt_zero by (auto simp: atan2_def)
qed

lemma polar_unique:
  assumes "- pi < a" and "a \<le> pi" and "0 < r"
  shows "atan2 (sin a * r) (cos a * r) = a"
proof -
  let ?v = "vec (cos a * r) (sin a * r)"
  let ?b = "getAngle ?v"
  have "getLength ?v = r" using getLength_scaled [where v = ?v and a = a and r = r] assms(3) by simp
  with polar [of ?v] assms(3) have "cos ?b = cos a" "sin ?b = sin a" by (simp_all add: mult.commute)
  then obtain n :: int where n: "?b = a + 2 * pi * of_int n" by (metis sin_cos_eq_iff)
  have "- pi < ?b" "?b \<le> pi" by (simp_all add: getAngle_def atan2_range)
  with n assms(1,2) have "- (2 * pi) < 2 * pi * of_int n" "2 * pi * of_int n < 2 * pi" by linarith+
  then have "2 * pi * of_int (- 1) < 2 * pi * of_int n" "2 * pi * of_int n < 2 * pi * of_int 1" by simp_all
  then have "- 1 < n" "n < 1" using pi_gt_zero by (simp_all only: mult_less_cancel_left_pos of_int_less_iff mult_pos_pos zero_less_numeral)
  then have "n = 0" by simp
  with n show ?thesis by (simp add: getAngle_def)
qed

lemma setLength_scales:
  assumes "getLength v \<noteq> 0"
  shows "setLength v r = v\<lparr>vx := vx v * (r / getLength v), vy := vy v * (r / getLength v)\<rparr>"
proof -
  have "cos (getAngle v) = vx v / getLength v" "sin (getAngle v) = vy v / getLength v"
    using polar [of v] assms by (simp_all add: field_simps)
  then show ?thesis by (simp add: setLength_def Let_def)
qed

lemma getLength_setLength: "getLength (setLength v r) = \<bar>r\<bar>"
  by (simp add: setLength_def Let_def getLength_scaled)

lemma getLength_setAngle: "getLength (setAngle v a) = getLength v"
  by (simp add: setAngle_def Let_def getLength_scaled getLength_ge_0)

lemma setLength_same: "setLength v (getLength v) = v"
  using polar [of v] by (simp add: setLength_def Let_def mult.commute)

text \<open>\<^verbatim>\<open>setAngle\<close> and \<^verbatim>\<open>getAngle\<close> are inverse, up to full turns and for a vector with a direction.\<close>

lemma getAngle_setAngle:
  assumes "- pi < a" and "a \<le> pi" and "getLength v \<noteq> 0"
  shows "getAngle (setAngle v a) = a"
  using assms polar_unique [of a "getLength v"] getLength_ge_0 [of v] by (simp add: getAngle_def setAngle_def Let_def)

section \<open>Products and distances\<close>

lemma distance_length: "distance v w = getLength (vec_sub w v)"
  by (simp add: distance_def getLength_def vec_sub_def Let_def)

lemma distance_static: "distance_xy (vx v) (vy v) (vx w) (vy w) = distance v w"
  by (simp add: distance_xy_def distance_def Let_def)

lemma distance_commute: "distance v w = distance w v"
proof -
  have "(vx w - vx v) * (vx w - vx v) = (vx v - vx w) * (vx v - vx w)"
    "(vy w - vy v) * (vy w - vy v) = (vy v - vy w) * (vy v - vy w)" by algebra+
  then show ?thesis by (simp add: distance_def Let_def)
qed

lemma cross_antisym: "crossProduct v w = - crossProduct w v"
  by (simp add: crossProduct_def algebra_simps)

lemma sign_antisym: "sign_vec v w = - sign_vec w v"
  by (simp add: sign_vec_def Let_def cross_antisym [of v w])

lemma perpendicular_dot: "dotProduct v (getPerpendicular v) = 0"
  by (simp add: dotProduct_def getPerpendicular_def)

text \<open>The squares of both products add up to the square of the lengths.\<close>

lemma lagrange:
  fixes v w :: "real Vector2D"
  shows "(dotProduct v w)\<^sup>2 + (crossProduct v w)\<^sup>2 = (getLength v * getLength w)\<^sup>2"
proof -
  have "(getLength v)\<^sup>2 = vx v * vx v + vy v * vy v" "(getLength w)\<^sup>2 = vx w * vx w + vy w * vy w"
    by (simp_all add: getLength_def)
  then show ?thesis
    unfolding power_mult_distrib
    by (simp add: dotProduct_def crossProduct_def power2_eq_square algebra_simps)
qed

lemma cauchy_schwarz:
  fixes v w :: "real Vector2D"
  shows "\<bar>dotProduct v w\<bar> \<le> getLength v * getLength w"
proof -
  have "(dotProduct v w)\<^sup>2 \<le> (getLength v * getLength w)\<^sup>2"
    using lagrange [of v w] by (smt (verit) zero_le_power2)
  then show ?thesis
    by (metis abs_le_square_iff abs_of_nonneg getLength_ge_0 mult_nonneg_nonneg)
qed

lemma reverse_neg: "vec_add v (reverse_vec v) = vec 0 0"
  by (simp add: vec_add_def reverse_vec_def)

lemma add_sub: "vec_eq (vec_sub (vec_add v w) w) v"
  by (simp add: vec_eq_def vec_sub_def vec_add_def)

lemma assign_forms:
  "vec_add_assign v w = vec_add v w" "vec_sub_assign v w = vec_sub v (w :: 'a::linordered_idom Vector2D)"
  by (simp_all add: vec_add_assign_def vec_sub_assign_def vec_add_def vec_sub_def)

lemma neq_eq: "vec_neq v w \<longleftrightarrow> \<not> vec_eq v w"
  by (simp add: vec_neq_def vec_eq_def)

section \<open>Properties\<close>

text \<open>Setting the length of a vector keeps its direction: both coordinates are multiplied by
  the same factor, and the new length is the one asked for; truncating gives the smaller of both
  lengths and leaves a shorter vector alone; a normalised vector has length 1, also if it was
  zero; setting the angle keeps the length and can be read back.\<close>

theorem vector_polar:
  fixes v :: "real Vector2D"
  assumes "0 \<le> r" and "- pi < a" and "a \<le> pi"
  shows "getLength (setLength v r) = r
    \<and> (getLength v \<noteq> 0 \<longrightarrow> setLength v r = vec_mul v (r / getLength v))
    \<and> getLength (truncate_vec v r) = min r (getLength v) \<and> (getLength v \<le> r \<longrightarrow> truncate_vec v r = v)
    \<and> getLength (normalize_vec v) = 1
    \<and> getLength (setAngle v a) = getLength v \<and> (getLength v \<noteq> 0 \<longrightarrow> getAngle (setAngle v a) = a)"
proof (intro conjI impI)
  show "getLength (setLength v r) = r" using assms(1) by (simp add: getLength_setLength)
  show "setLength v r = vec_mul v (r / getLength v)" if "getLength v \<noteq> 0"
    using setLength_scales [OF that, of r] by (simp add: vec_mul_def)
  show "getLength (truncate_vec v r) = min r (getLength v)"
    using assms(1) getLength_ge_0 [of v] by (simp add: truncate_vec_def getLength_setLength)
  show "truncate_vec v r = v" if "getLength v \<le> r"
    using that by (simp add: truncate_vec_def min_absorb2 setLength_same)
  show "getLength (normalize_vec v) = 1"
  proof (cases "getLength v = 0")
    case True
    then show ?thesis by (simp add: normalize_vec_def getLength_eq_0 [of v]) (simp add: getLength_def)
  next
    case False
    then have "normalize_vec v = setLength v 1" by (simp add: normalize_vec_def Let_def setLength_scales)
    then show ?thesis by (simp add: getLength_setLength)
  qed
  show "getLength (setAngle v a) = getLength v" by (rule getLength_setAngle)
  show "getAngle (setAngle v a) = a" if "getLength v \<noteq> 0" using assms(2,3) that by (rule getAngle_setAngle)
qed

theorem vector_polar_witness:
  "setLength (vec 3 4) 10 = vec 6 8 \<and> getAngle (setAngle (vec 3 4) 1) = 1"
proof -
  have len: "getLength (vec 3 4) = 5"
    by (simp add: getLength_def real_sqrt_unique)
  have "1 < pi" using pi_ge_two by simp
  with vector_polar [of 10 1 "vec 3 4"] show ?thesis by (simp add: len vec_mul_def)
qed

text \<open>A random point of a rectangle lies in it, borders included: over int for every
  rectangle with non-negative sides below \<^verbatim>\<open>INT_MAX\<close> whose far corner is an int, without
  overflow, and over double for non-negative sides.\<close>

theorem random_point_inside:
  assumes "0 \<le> sint (width r)" and "sint (width r) < 2 ^ 31 - 1" and "sint (rx r) + sint (width r) < 2 ^ 31"
    and "0 \<le> sint (height r)" and "sint (height r) < 2 ^ 31 - 1" and "sint (ry r) + sint (height r) < 2 ^ 31"
    and "0 \<le> width q" and "0 \<le> height q"
  shows "(\<exists>p. randomPoint_int gx gy r = Inr p \<and> contains_int r p = Inr True)
    \<and> contains_real q (randomPoint_real gx gy q)"
proof -
  have side: "\<exists>d. random_between g 0 w = Inr d \<and> int_add z d = Inr (z + d) \<and> sint z \<le> sint (z + d)
      \<and> int_add z w = Inr (z + w) \<and> sint (z + d) \<le> sint (z + w)"
    if "0 \<le> sint w" "sint w < 2 ^ 31 - 1" "sint z + sint w < 2 ^ 31" for g z w :: u32
  proof -
    from random_span [of 0 w g] that obtain d where d: "random_between g 0 w = Inr d" "0 \<le> sint d" "sint d \<le> sint w"
      by (auto simp: random_between_def)
    with that sint_range_i32(1) [of z] show ?thesis
      using int_add_ok [of z d] int_add_ok [of z w] by auto
  qed
  from side [OF assms(1-3), of gx] side [OF assms(4-6), of gy]
  have "\<exists>p. randomPoint_int gx gy r = Inr p \<and> contains_int r p = Inr True"
    by (auto simp: randomPoint_int_def contains_int_def lazy_and_def)
  moreover have "0 \<le> random_real g \<and> random_real g \<le> 1" for g
  proof -
    have "unat g < 2 ^ 32" using unsigned_less [of g, where 'a = nat] by simp
    then have "real (unat g) < 2 ^ 32" by (metis of_nat_less_numeral_power_cancel_iff)
    then show ?thesis unfolding random_real_def random_unit_def by (simp del: of_nat_unat)
  qed
  with assms(7,8) have "contains_real q (randomPoint_real gx gy q)"
    by (simp add: contains_real_def randomPoint_real_def mult_left_le_one_le)
  ultimately show ?thesis by blast
qed

theorem random_point_inside_witness:
  "\<exists>p. randomPoint_int 7 8 \<lparr>rx = 1, ry = 2, width = 3, height = 4\<rparr> = Inr p
    \<and> contains_int \<lparr>rx = 1, ry = 2, width = 3, height = 4\<rparr> p = Inr True"
  using random_point_inside [of "\<lparr>rx = 1, ry = 2, width = 3, height = 4\<rparr>"
      "\<lparr>rx = 0, ry = 0, width = 1, height = 1\<rparr>" 7 8] by simp

text \<open>The angle between two vectors: its cosine is the quotient of the products.\<close>

lemma angleBetween_cos:
  assumes "angleBetween v w = Some a"
  shows "cos a * (getLength v * getLength w) = dotProduct v w \<and> 0 \<le> a \<and> a \<le> pi"
proof -
  let ?d = "getLength v * getLength w"
  from assms have d: "?d \<noteq> 0" and a: "a = arccos (dotProduct v w / ?d)"
    by (auto simp: angleBetween_def Let_def split: if_splits)
  have "0 < ?d" using d getLength_ge_0 [of v] getLength_ge_0 [of w] by (metis mult_nonneg_nonneg less_eq_real_def)
  then have "\<bar>dotProduct v w / ?d\<bar> \<le> 1" using cauchy_schwarz [of v w] by simp
  then have "- 1 \<le> dotProduct v w / ?d" "dotProduct v w / ?d \<le> 1" by linarith+
  then show ?thesis using d a by (simp add: cos_arccos arccos_lbound arccos_ubound)
qed

lemma rect_range_square:
  "inRectRange v rng other \<longleftrightarrow>
     contains_real \<lparr>rx = vx v - rng, ry = vy v - rng, width = 2 * rng, height = 2 * rng\<rparr> other"
  by (auto simp: inRectRange_def contains_real_def abs_le_iff)

text \<open>A zero vector has length 0 and no angle to another one.\<close>

lemma zero_no_angle: "getLength (vec_zero v) = 0 \<and> angleBetween (vec_zero v) w = None"
  by (simp add: vec_zero_def getLength_def angleBetween_def)

lemma div_mul: "vec_div v c = Some w \<Longrightarrow> vec_mul w c = vec (vx v) (vy v)"
  by (auto simp: vec_div_def vec_mul_def split: if_splits)

end
