(* ===== verification/Utils.thy ===== *)
theory Utils
  imports Prelude "HOL-Library.Log_Nat"
begin

text \<open>
  Utilities (Utils.h, Utils.cpp): the number of decimal digits, the next power of two, checked and
  bit-mask enums, the hash combiner, literals of small integers and the pid file, whose system
  calls are arguments.
\<close>

section \<open>Numbers\<close>

definition getNumDigitsOfDemical :: "u32 \<Rightarrow> u32" where
  "getNumDigitsOfDemical value =
     (let result = 1;
          (value, result) = (if 100000000 \<le> value then (value div 100000000, result + 8) else (value, result));
          (value, result) = (if 10000 \<le> value then (value div 10000, result + 4) else (value, result));
          (value, result) = (if 100 \<le> value then (value div 100, result + 2) else (value, result));
          (value, result) = (if 10 \<le> value then (value div 10, result + 1) else (value, result))
      in result)"

definition nextPowOf2 :: "u32 \<Rightarrow> u32" where
  "nextPowOf2 value =
     (let value = value OR drop_bit 1 value;
          value = value OR drop_bit 2 value;
          value = value OR drop_bit 4 value;
          value = value OR drop_bit 8 value;
          value = value OR drop_bit 16 value
      in value + 1)"

text \<open>\<open>h\<close> is \<^verbatim>\<open>std::hash\<close>; \<^verbatim>\<open>size_t\<close> has 64 bits.\<close>

definition hash_combine :: "('v \<Rightarrow> u64) \<Rightarrow> u64 \<Rightarrow> 'v \<Rightarrow> u64" where
  "hash_combine h seed v = seed XOR (h v + 0x9e3779b9 + push_bit 6 seed + drop_bit 2 seed)"

text \<open>The literals of one and two bytes.\<close>

definition lit_i8 :: "u64 \<Rightarrow> 8 word" where "lit_i8 i = ucast i"
definition lit_ui8 :: "u64 \<Rightarrow> 8 word" where "lit_ui8 i = ucast i"
definition lit_i16 :: "u64 \<Rightarrow> u16" where "lit_i16 i = ucast i"
definition lit_ui16 :: "u64 \<Rightarrow> u16" where "lit_ui16 i = ucast i"

section \<open>Enums\<close>

text \<open>
  An enum is the word of its underlying type, \<open>lt\<close> and \<open>le\<close> the comparison of that type, and \<open>mn\<close>,
  \<open>mx\<close> its bounds. The second overload converts any integer to the underlying type first.
\<close>

definition validateEnum :: "bool \<Rightarrow> 'a::len word \<Rightarrow> 'a word \<Rightarrow> 'a word \<Rightarrow> bool" where
  "validateEnum is_signed mn mx rhs \<longleftrightarrow>
     (if is_signed then sint mn \<le> sint rhs \<and> sint rhs < sint mx else mn \<le> rhs \<and> rhs < mx)"

definition validateEnum_int :: "bool \<Rightarrow> 'a::len word \<Rightarrow> 'a word \<Rightarrow> int \<Rightarrow> bool" where
  "validateEnum_int is_signed mn mx rhs \<longleftrightarrow> validateEnum is_signed mn mx (of_int rhs)"

definition enum_and :: "'a::len word \<Rightarrow> 'a word \<Rightarrow> 'a word" where "enum_and lhs rhs = lhs AND rhs"
definition enum_or :: "'a::len word \<Rightarrow> 'a word \<Rightarrow> 'a word" where "enum_or lhs rhs = lhs OR rhs"
definition enum_xor :: "'a::len word \<Rightarrow> 'a word \<Rightarrow> 'a word" where "enum_xor lhs rhs = lhs XOR rhs"
definition enum_not :: "'a::len word \<Rightarrow> 'a word" where "enum_not rhs = NOT rhs"

text \<open>The assigning forms: the new value of the left operand, which is also their result.\<close>

definition enum_and_assign :: "'a::len word \<Rightarrow> 'a word \<Rightarrow> 'a word" where "enum_and_assign lhs rhs = lhs AND rhs"
definition enum_or_assign :: "'a::len word \<Rightarrow> 'a word \<Rightarrow> 'a word" where "enum_or_assign lhs rhs = lhs OR rhs"
definition enum_xor_assign :: "'a::len word \<Rightarrow> 'a word \<Rightarrow> 'a word" where "enum_xor_assign lhs rhs = lhs XOR rhs"

section \<open>Pid file and machine id\<close>

text \<open>
  The results of the system calls: the descriptor of \<^verbatim>\<open>open\<close>, whether \<^verbatim>\<open>fcntl\<close> fails, the
  process id and what \<^verbatim>\<open>write\<close> returns for a text. The outcome is the result, the descriptor that
  stays open, which holds the lock, and what was written.
\<close>

definition createPidfile ::
    "string option \<Rightarrow> int \<Rightarrow> bool \<Rightarrow> string \<Rightarrow> (string \<Rightarrow> int) \<Rightarrow> bool \<times> int option \<times> string" where
  "createPidfile pidfile fd lock_fails pid write_result =
     (case pidfile of
        None \<Rightarrow> (False, None, [])
      | Some name \<Rightarrow>
          if fd < 0 then (False, None, [])
          else if lock_fails then (False, None, [])
          else let buf = pid @ [CHR 0x0A] in
            if write_result buf \<noteq> int (length buf) then (False, None, buf)
            else (True, Some fd, buf))"

text \<open>
  The platforms in the order of the conditions of the code. On Windows the id comes from the registry, whose
  key may not open and whose value may not be found, through a buffer of 256 zeros; on Linux it is the first
  line of a file, None if it cannot be opened; on macOS it is what \<^verbatim>\<open>gethostname\<close> leaves in a buffer. A
  buffer without a terminator is read past its end.
\<close>

datatype platform = Windows | Solaris | Apple | Linux | Other_unix

record machine_info =
  registry_opens :: bool
  registry_value :: "string option"
  machine_id :: "string option"
  dbus_id :: "string option"
  host_buffer :: string

definition string_in :: "string \<Rightarrow> error + string" where
  "string_in buffer = (if CHR 0x00 \<in> set buffer then Inr (takeWhile (\<lambda>c. c \<noteq> CHR 0x00) buffer)
     else Inl Undefined_behaviour)"

definition getMachineRawId :: "platform \<Rightarrow> machine_info \<Rightarrow> error + string" where
  "getMachineRawId os r = (case os of
     Windows \<Rightarrow>
       if registry_opens r
       then (case registry_value r of
           None \<Rightarrow> Inr []
         | Some v \<Rightarrow> string_in (take 256 (v @ replicate 256 (CHR 0x00))))
       else Inr []
   | Linux \<Rightarrow>
       (case (case machine_id r of None \<Rightarrow> dbus_id r | Some c \<Rightarrow> Some c) of
          None \<Rightarrow> Inr []
        | Some c \<Rightarrow> Inr (takeWhile (\<lambda>x. x \<noteq> CHR 0x0A) c))
   | Apple \<Rightarrow> string_in (host_buffer r)
   | _ \<Rightarrow> Inr [])"

section \<open>Digits\<close>

text \<open>The reference: dividing by ten until nothing is left.\<close>

fun digit_count :: "nat \<Rightarrow> nat" where
  "digit_count n = (if n < 10 then 1 else digit_count (n div 10) + 1)"

declare digit_count.simps [simp del]

lemma digit_count_small: "n < 10 \<Longrightarrow> digit_count n = 1"
  by (simp add: digit_count.simps)

lemma digit_count_pow: "10 ^ k \<le> n \<Longrightarrow> digit_count n = digit_count (n div 10 ^ k) + k"
proof (induction k arbitrary: n)
  case 0
  then show ?case by simp
next
  case (Suc k)
  then have "10 * 10 ^ k \<le> n" by simp
  then have "10 \<le> n" by (metis dual_order.trans mult.right_neutral mult_le_mono2 one_le_numeral one_le_power)
  then have "digit_count n = digit_count (n div 10) + 1" by (subst digit_count.simps) simp
  moreover have "10 ^ k \<le> n div 10" using \<open>10 * 10 ^ k \<le> n\<close> by (simp add: less_eq_div_iff_mult_less_eq mult.commute)
  ultimately show ?case using Suc.IH by (simp add: div_mult2_eq)
qed

lemma digits_range: "10 ^ (digit_count n - 1) \<le> max 1 n \<and> n < 10 ^ digit_count n"
proof (induction n rule: digit_count.induct)
  case (1 n)
  show ?case
  proof (cases "n < 10")
    case True
    then show ?thesis by (simp add: digit_count_small)
  next
    case False
    with 1 have *: "10 ^ (digit_count (n div 10) - 1) \<le> n div 10" "n div 10 < 10 ^ digit_count (n div 10)"
      by (auto simp: max_def split: if_splits)
    have "digit_count (n div 10) \<noteq> 0" by (simp add: digit_count.simps [of "n div 10"])
    then have "(10 :: nat) ^ digit_count (n div 10) = 10 * 10 ^ (digit_count (n div 10) - 1)"
      by (metis power_eq_if)
    with * have "10 * 10 ^ (digit_count (n div 10) - 1) \<le> n" "n < 100 * 10 ^ (digit_count (n div 10) - 1)"
      by linarith+
    with * \<open>_ = 10 * _\<close> False show ?thesis by (subst (1 2) digit_count.simps) auto
  qed
qed

text \<open>One step of the code: a limit \<open>10 ^ k\<close> that the value reaches.\<close>

lemma digit_step:
  assumes "unat v < 10 ^ (2 * k)" and "unat (c :: u32) = 10 ^ k"
  shows "digit_count (unat v) = digit_count (unat (if c \<le> v then v div c else v)) + (if c \<le> v then k else 0)"
    and "unat (if c \<le> v then v div c else v) < 10 ^ k"
proof -
  have le: "c \<le> v \<longleftrightarrow> 10 ^ k \<le> unat v" by (simp add: word_le_nat_alt assms(2))
  show "digit_count (unat v) = digit_count (unat (if c \<le> v then v div c else v)) + (if c \<le> v then k else 0)"
    using digit_count_pow [of k "unat v"] by (simp add: le unat_div assms(2))
  have "unat v div 10 ^ k < 10 ^ k"
    using assms(1) by (simp add: less_mult_imp_div_less power_add mult_2)
  with le show "unat (if c \<le> v then v div c else v) < 10 ^ k"
    by (simp add: unat_div assms(2) not_le)
qed

section \<open>Smearing bits\<close>

definition smeared :: "nat \<Rightarrow> u32 \<Rightarrow> u32 \<Rightarrow> bool" where
  "smeared d v w \<longleftrightarrow> (\<forall>i. bit w i \<longleftrightarrow> (\<exists>j<d. bit v (i + j)))"

lemma smeared_step:
  assumes "smeared d v w"
  shows "smeared (2 * d) v (w OR drop_bit d w)"
  unfolding smeared_def
proof
  fix i
  have "bit (w OR drop_bit d w) i \<longleftrightarrow> bit w i \<or> bit w (i + d)"
    by (simp add: bit_or_iff bit_drop_bit_eq add.commute)
  also have "\<dots> \<longleftrightarrow> (\<exists>j<d. bit v (i + j)) \<or> (\<exists>j<d. bit v (i + d + j))"
    using assms by (simp add: smeared_def)
  also have "\<dots> \<longleftrightarrow> (\<exists>j<2 * d. bit v (i + j))"
  proof
    assume "(\<exists>j<d. bit v (i + j)) \<or> (\<exists>j<d. bit v (i + d + j))"
    then show "\<exists>j<2 * d. bit v (i + j)"
      by (metis add.assoc add_less_mono mult_2 nat_add_left_cancel_less trans_less_add1)
  next
    assume "\<exists>j<2 * d. bit v (i + j)"
    then obtain j where j: "j < 2 * d" "bit v (i + j)" by blast
    show "(\<exists>j<d. bit v (i + j)) \<or> (\<exists>j<d. bit v (i + d + j))"
    proof (cases "j < d")
      case False
      then have "bit v (i + d + (j - d))" "j - d < d" using j by simp_all
      then show ?thesis by blast
    qed (use j in blast)
  qed
  finally show "bit (w OR drop_bit d w) i \<longleftrightarrow> (\<exists>j<2 * d. bit v (i + j))" .
qed

definition fill_ones :: "u32 \<Rightarrow> u32" where
  "fill_ones value = nextPowOf2 value - 1"

lemma fill_ones_smeared: "smeared 32 v (fill_ones v)"
proof -
  define w1 where "w1 = v OR drop_bit 1 v"
  define w2 where "w2 = w1 OR drop_bit 2 w1"
  define w4 where "w4 = w2 OR drop_bit 4 w2"
  define w8 where "w8 = w4 OR drop_bit 8 w4"
  define w16 where "w16 = w8 OR drop_bit 16 w8"
  have "smeared 1 v v" by (simp add: smeared_def)
  from smeared_step [OF this] have "smeared 2 v w1" by (simp add: w1_def)
  from smeared_step [OF this] have "smeared 4 v w2" by (simp add: w2_def)
  from smeared_step [OF this] have "smeared 8 v w4" by (simp add: w4_def)
  from smeared_step [OF this] have "smeared 16 v w8" by (simp add: w8_def)
  from smeared_step [OF this] have "smeared 32 v w16" by (simp add: w16_def)
  moreover have "fill_ones v = w16"
    by (simp only: fill_ones_def nextPowOf2_def Let_def w1_def w2_def w4_def w8_def w16_def add_diff_cancel_right')
  ultimately show ?thesis by simp
qed

lemma highest_bit:
  assumes "v \<noteq> (0 :: u32)"
  obtains m where "m < 32" and "2 ^ m \<le> unat v" and "unat v < 2 ^ (m + 1)"
    and "bit v m" and "\<And>i. bit v i \<Longrightarrow> i \<le> m"
proof -
  let ?m = "floorlog 2 (unat v) - 1"
  have pos: "0 < unat v" using assms by (simp add: unat_gt_0)
  have "floorlog 2 (unat v) \<noteq> 0" using pos by (simp add: floorlog_eq_zero_iff)
  with floorlog_bounds [OF pos, of 2] have lo: "2 ^ ?m \<le> unat v" and hi: "unat v < 2 ^ (?m + 1)"
    by (simp_all)
  have "?m < 32"
  proof (rule ccontr)
    assume "\<not> ?m < 32"
    then have "(2 :: nat) ^ 32 \<le> 2 ^ ?m" by (intro power_increasing) simp_all
    with lo unsigned_less [of v, where 'a = nat] show False by simp
  qed
  moreover have "bit v i \<longleftrightarrow> odd (unat v div 2 ^ i)" for i
  proof -
    have "bit v i \<longleftrightarrow> bit (unat v) i" by (simp add: bit_unsigned_iff)
    then show ?thesis by (simp only: bit_iff_odd)
  qed
  moreover have "unat v div 2 ^ ?m = 1"
    using lo hi by (intro div_nat_eqI) simp_all
  moreover have "i \<le> ?m" if "odd (unat v div 2 ^ i)" for i
  proof (rule ccontr)
    assume "\<not> i \<le> ?m"
    then have "(2 :: nat) ^ (?m + 1) \<le> 2 ^ i" by (intro power_increasing) simp_all
    with hi have "unat v div 2 ^ i = 0" by simp
    with that show False by simp
  qed
  ultimately show ?thesis using lo hi by (intro that [of ?m]) simp_all
qed

lemma fill_ones_mask:
  assumes "v \<noteq> 0" and "bit v m" and "\<And>i. bit v i \<Longrightarrow> i \<le> m" and "m < 32"
  shows "fill_ones v = mask (m + 1)"
proof (rule bit_word_eqI)
  fix i
  assume "i < LENGTH(32)"
  have "bit (fill_ones v) i \<longleftrightarrow> (\<exists>j<32. bit v (i + j))" using fill_ones_smeared [of v] by (simp add: smeared_def)
  also have "\<dots> \<longleftrightarrow> i \<le> m"
  proof
    assume "\<exists>j<32. bit v (i + j)"
    then show "i \<le> m" using assms(3) by (meson add_leD1)
  next
    assume "i \<le> m"
    then have "m - i < 32" "bit v (i + (m - i))" using assms(2,4) by simp_all
    then show "\<exists>j<32. bit v (i + j)" by blast
  qed
  also have "\<dots> \<longleftrightarrow> bit (mask (m + 1) :: u32) i"
    using \<open>i < LENGTH(32)\<close> by (auto simp: bit_mask_iff)
  finally show "bit (fill_ones v) i \<longleftrightarrow> bit (mask (m + 1) :: u32) i" .
qed

section \<open>Properties\<close>

text \<open>\<^verbatim>\<open>getNumDigitsOfDemical\<close> computes with four comparisons what the reference computes by
  dividing by ten: the number of decimal digits, for every 32-bit value.\<close>

theorem utils_digits:
  "unat (getNumDigitsOfDemical v) = digit_count (unat v)
   \<and> 10 ^ (digit_count (unat v) - 1) \<le> max 1 (unat v) \<and> unat v < 10 ^ digit_count (unat v)"
proof -
  let ?s = "\<lambda>c v :: u32. if c \<le> v then v div c else v"
  define v1 where "v1 = ?s 100000000 v"
  define v2 where "v2 = ?s 10000 v1"
  define v3 where "v3 = ?s 100 v2"
  define v4 where "v4 = ?s 10 v3"
  have "unat v < 10 ^ (2 * 8)" using unsigned_less [of v, where 'a = nat] by simp
  from digit_step [OF this, of 100000000]
  have 1: "digit_count (unat v) = digit_count (unat v1) + (if 100000000 \<le> v then 8 else 0)" "unat v1 < 10 ^ (2 * 4)"
    by (simp_all add: v1_def)
  from digit_step [OF 1(2), of 10000]
  have 2: "digit_count (unat v1) = digit_count (unat v2) + (if 10000 \<le> v1 then 4 else 0)" "unat v2 < 10 ^ (2 * 2)"
    by (simp_all add: v2_def)
  from digit_step [OF 2(2), of 100]
  have 3: "digit_count (unat v2) = digit_count (unat v3) + (if 100 \<le> v2 then 2 else 0)" "unat v3 < 10 ^ (2 * 1)"
    by (simp_all add: v3_def)
  from digit_step [OF 3(2), of 10]
  have 4: "digit_count (unat v3) = digit_count (unat v4) + (if 10 \<le> v3 then 1 else 0)" "unat v4 < 10"
    by (simp_all add: v4_def)
  have c: "(case (if b then (x, y) else (z, w)) of (p, q) \<Rightarrow> f p q) = f (if b then x else z) (if b then y else w)"
    for b and x y z w :: u32 and f :: "u32 \<Rightarrow> u32 \<Rightarrow> u32" by simp
  have "getNumDigitsOfDemical v = 1 + (if 100000000 \<le> v then 8 else 0) + (if 10000 \<le> v1 then 4 else 0)
      + (if 100 \<le> v2 then 2 else 0) + (if 10 \<le> v3 then 1 else 0)"
    unfolding getNumDigitsOfDemical_def Let_def c v1_def [symmetric] v2_def [symmetric] v3_def [symmetric] by auto
  then have "unat (getNumDigitsOfDemical v) = digit_count (unat v)"
    using 1(1) 2(1) 3(1) 4 digit_count_small [OF 4(2)] by (auto split: if_splits)
  with digits_range show ?thesis by blast
qed

text \<open>\<^verbatim>\<open>nextPowOf2\<close> gives the least power of two that is greater than its argument, for every
  argument below 2 to the 31; from there on the power does not fit and the result is 0.\<close>

theorem utils_next_pow:
  "if unat v < 2 ^ 31 then \<exists>n\<le>31. unat (nextPowOf2 v) = 2 ^ n \<and> unat v < 2 ^ n \<and> (\<forall>k. unat v < 2 ^ k \<longrightarrow> n \<le> k)
   else nextPowOf2 v = 0"
proof (cases "v = 0")
  case True
  have "nextPowOf2 0 = 1" by code_simp
  with True show ?thesis by (auto intro: exI [of _ 0])
next
  case False
  from highest_bit [OF this] obtain m where m: "m < 32" "2 ^ m \<le> unat v" "unat v < 2 ^ (m + 1)"
    "bit v m" "\<And>i. bit v i \<Longrightarrow> i \<le> m" by metis
  have p: "nextPowOf2 v = 2 ^ (m + 1)"
    using fill_ones_mask [OF False m(4,5,1)] by (simp add: fill_ones_def mask_eq_exp_minus_1 algebra_simps)
  show ?thesis
  proof (cases "unat v < 2 ^ 31")
    case True
    then have "(2 :: nat) ^ m < 2 ^ 31" using m(2) by simp
    then have "m < 31" by (rule power_less_imp_less_exp [rotated]) simp
    moreover have "m + 1 \<le> k" if "unat v < 2 ^ k" for k
    proof -
      have "(2 :: nat) ^ m < 2 ^ k" using m(2) that by (rule le_less_trans)
      from power_less_imp_less_exp [OF _ this] show ?thesis by simp
    qed
    moreover have "unat (2 ^ (m + 1) :: u32) = 2 ^ (m + 1)"
    proof -
      have "(2 :: nat) ^ (m + 1) < 2 ^ 32" using \<open>m < 31\<close> by (intro power_strict_increasing) simp_all
      moreover have "unat (of_nat (2 ^ (m + 1)) :: u32) = 2 ^ (m + 1) mod 2 ^ 32"
        unfolding unat_of_nat by simp
      ultimately show ?thesis by (simp only: mod_less of_nat_power of_nat_numeral)
    qed
    ultimately show ?thesis using True p m(3) by (intro if_P [THEN iffD2] exI [of _ "m + 1"]) auto
  next
    case False
    with m(3) have "(2 :: nat) ^ 31 < 2 ^ (m + 1)" by simp
    then have "31 < m + 1" using power_less_imp_less_exp [of "2 :: nat" 31 "m + 1"] by linarith
    with m(1) have "m + 1 = 32" by simp
    with p False show ?thesis by simp
  qed
qed

theorem utils_next_pow_witness:
  "\<exists>n\<le>31. unat (nextPowOf2 5) = 2 ^ n \<and> unat (5 :: u32) < 2 ^ n"
proof -
  have "unat (5 :: u32) < 2 ^ 31" by simp
  with utils_next_pow [of 5] show ?thesis by auto
qed

text \<open>A value of the underlying type is accepted exactly between the bounds; an integer of another
  type is cut to the width of the enum first, so one outside the bounds can be accepted.\<close>

lemma validate_signed: "validateEnum True mn mx rhs \<longleftrightarrow> sint rhs \<in> {sint mn ..< sint mx}"
  by (auto simp: validateEnum_def)

lemma validate_cut:
  "\<not> validateEnum_int False (0 :: byte) 5 200 \<and> validateEnum_int False (0 :: byte) 5 258"
  by code_simp

text \<open>The operators of a bit mask: setting flags and clearing them again.\<close>

lemma mask_clear:
  fixes flags f :: "'a::len word"
  assumes "flags AND f = 0"
  shows "enum_and_assign (enum_or_assign flags f) (enum_not f) = flags"
proof (rule bit_word_eqI)
  fix i
  assume "i < LENGTH('a)"
  moreover have "\<not> (bit flags i \<and> bit f i)" using assms by (metis bit_0_eq bit_and_iff bot_apply bot_bool_def)
  ultimately show "bit (enum_and_assign (enum_or_assign flags f) (enum_not f)) i = bit flags i"
    by (auto simp: enum_and_assign_def enum_or_assign_def enum_not_def bit_and_iff bit_or_iff bit_not_iff)
qed

lemma mask_toggle: "enum_xor_assign (enum_xor_assign flags f) f = flags"
  by (simp add: enum_xor_assign_def xor.assoc)

lemma mask_assigns:
  "enum_and_assign = enum_and" "enum_or_assign = enum_or" "enum_xor_assign = enum_xor"
  by (simp_all add: fun_eq_iff enum_and_def enum_and_assign_def enum_or_def enum_or_assign_def
      enum_xor_def enum_xor_assign_def)

text \<open>The descriptor, and with it the lock, is kept exactly when the result is true; what an older
  process has left behind the new number stays in the file, which is not truncated.\<close>

lemma pidfile_lock: "createPidfile name fd lock_fails pid wr = (ok, held, out) \<Longrightarrow> ok \<longleftrightarrow> held \<noteq> None"
  by (auto simp: createPidfile_def Let_def split: option.splits if_splits)

lemma pidfile_ok:
  "createPidfile (Some name) fd False pid (\<lambda>buf. int (length buf)) =
     (if fd < 0 then (False, None, []) else (True, Some fd, pid @ [CHR 0x0A]))"
  by (simp add: createPidfile_def)

lemma machine_id_line: "getMachineRawId Linux r = Inr i \<Longrightarrow> CHR 0x0A \<notin> set i"
  by (auto simp: getMachineRawId_def split: option.splits dest: set_takeWhileD)

text \<open>A registry value that is no longer than the buffer without its terminator is safe, a longer one is not.\<close>

lemma machine_id_registry:
  assumes "registry_opens r" and "registry_value r = Some v" and "CHR 0x00 \<notin> set v"
  shows "getMachineRawId Windows r = (if length v < 256 then Inr v else Inl Undefined_behaviour)"
proof (cases "length v < 256")
  case True
  then have "take 256 (v @ replicate 256 (CHR 0x00)) = v @ replicate (256 - length v) (CHR 0x00)" by simp
  moreover have "takeWhile (\<lambda>c. c \<noteq> CHR 0x00) (v @ replicate (256 - length v) (CHR 0x00)) = v"
    using assms(3) by (subst takeWhile_append2) auto
  ultimately show ?thesis using True assms(1,2) by (simp add: getMachineRawId_def string_in_def)
next
  case False
  then have "CHR 0x00 \<notin> set (take 256 (v @ replicate 256 (CHR 0x00)))"
    using assms(3) by (auto dest: in_set_takeD)
  with False assms(1,2) show ?thesis by (simp add: getMachineRawId_def string_in_def)
qed

end
