(* ===== verification/Diagnostics.thy ===== *)
theory Diagnostics
  imports Utils
begin

text \<open>
  What the library tells of a running program: memory in use (Profiler.cpp), the call stack
  (Utils.cpp, Linux and Windows) and the picture of a search that AStar draws when it is compiled for debugging.
  What the operating system, the dynamic linker and the demangler return are arguments.
\<close>

section \<open>Memory\<close>

text \<open>None is a call that fails.\<close>

record memory_info =
  peakWorkingSet :: u64
  workingSet :: u64
  pr_rssize :: "int option"
  ru_maxrss :: int
  resident_size :: "u64 option"
  statm_rss :: "int option"
  page_size :: int

definition getPeakRSS :: "platform \<Rightarrow> memory_info \<Rightarrow> u64" where
  "getPeakRSS os r =
     (case os of
        Windows \<Rightarrow> peakWorkingSet r
      | Solaris \<Rightarrow> (case pr_rssize r of None \<Rightarrow> 0 | Some n \<Rightarrow> of_int (n * 1024))
      | Apple \<Rightarrow> of_int (ru_maxrss r)
      | _ \<Rightarrow> of_int (ru_maxrss r * 1024))"

definition getCurrentRSS :: "platform \<Rightarrow> memory_info \<Rightarrow> u64" where
  "getCurrentRSS os r =
     (case os of
        Windows \<Rightarrow> workingSet r
      | Apple \<Rightarrow> (case resident_size r of None \<Rightarrow> 0 | Some n \<Rightarrow> n)
      | Linux \<Rightarrow> (case statm_rss r of None \<Rightarrow> 0 | Some rss \<Rightarrow> of_int rss * of_int (page_size r))
      | _ \<Rightarrow> 0)"

lemma rss_bytes:
  assumes "statm_rss r = Some n" and "0 \<le> n * page_size r" and "n * page_size r < 2 ^ 64"
  shows "uint (getCurrentRSS Linux r) = n * page_size r"
  using uint_of_int_small [OF assms(2), where 'a = 64] assms(1,3) by (simp add: getCurrentRSS_def)

section \<open>The call stack\<close>

text \<open>
  A frame: its address, what \<^verbatim>\<open>dladdr\<close> finds, the names of the symbol and of the file, None for a
  null pointer, and what demangling gives. The variable \<^verbatim>\<open>info\<close> lives through the loop; it is None
  before anything was stored in it. \<open>fmt\<close> makes a line from the width of the index, the index, the
  address and both names.
\<close>

record frame =
  f_address :: u64
  f_info :: "(string option \<times> string option) option"
  f_demangled :: "string option"

definition or_unknown :: "string option \<Rightarrow> string option" where
  "or_unknown s = (case s of None \<Rightarrow> Some ''??'' | Some x \<Rightarrow> Some x)"

fun stack_loop ::
    "(u32 \<Rightarrow> nat \<Rightarrow> u64 \<Rightarrow> string option \<Rightarrow> string option \<Rightarrow> string) \<Rightarrow> u32 \<Rightarrow> nat
      \<Rightarrow> (string option \<times> string option) option \<Rightarrow> frame list \<Rightarrow> error + string list" where
  "stack_loop fmt digits i info [] = Inr []"
| "stack_loop fmt digits i info (f # fs) =
     (let info1 = (case f_info f of None \<Rightarrow> info | Some x \<Rightarrow> Some x) in
      case info1 of
        None \<Rightarrow> Inl Undefined_behaviour
      | Some (sname, fname) \<Rightarrow>
          if f_info f \<noteq> None \<and> f_demangled f \<noteq> None
          then bindE (stack_loop fmt digits (Suc i) info1 fs) (\<lambda>ls.
                 Inr (fmt digits i (f_address f) (f_demangled f) fname # ls))
          else let s = or_unknown sname; n = or_unknown fname in
               bindE (stack_loop fmt digits (Suc i) (Some (s, n)) fs) (\<lambda>ls.
                 Inr (fmt digits i (f_address f) s n # ls)))"

text \<open>\<open>thread\<close> is the first line; \<open>skip\<close> is not negative. At most 128 frames are looked at.\<close>

definition callstack ::
    "(u32 \<Rightarrow> nat \<Rightarrow> u64 \<Rightarrow> string option \<Rightarrow> string option \<Rightarrow> string) \<Rightarrow> string \<Rightarrow> frame list \<Rightarrow> nat
      \<Rightarrow> error + string list" where
  "callstack fmt thread frames skip =
     (let stack = take 128 frames in
      bindE (stack_loop fmt (getNumDigitsOfDemical (of_nat (length stack))) 0 None (drop skip stack)) (\<lambda>ls.
        Inr (thread # ls)))"

lemma stack_loop_length: "stack_loop fmt digits i info fs = Inr ls \<Longrightarrow> length ls = length fs"
  by (induction fs arbitrary: i info ls) (auto simp: Let_def bindE_eq_Inr split: option.splits prod.splits if_splits)

lemma stack_loop_total:
  "info \<noteq> None \<or> fs = [] \<or> f_info (hd fs) \<noteq> None \<Longrightarrow> \<exists>ls. stack_loop fmt digits i info fs = Inr ls"
proof (induction fs arbitrary: i info)
  case Nil
  then show ?case by simp
next
  case (Cons f fs)
  then obtain s n where info: "(case f_info f of None \<Rightarrow> info | Some x \<Rightarrow> Some x) = Some (s, n)"
    by (cases "f_info f"; cases info) auto
  from Cons.IH [of "Some (s, n)" "Suc i"] Cons.IH [of "Some (or_unknown s, or_unknown n)" "Suc i"] show ?case
    by (auto simp: info Let_def)
qed

text \<open>One line for the thread and one for each frame that is not skipped, if the linker knows the first.\<close>

theorem callstack_lines:
  assumes "length frames \<le> 128" and "skip < length frames" and "f_info (frames ! skip) \<noteq> None"
  shows "\<exists>ls. callstack fmt thread frames skip = Inr (thread # ls) \<and> length ls = length frames - skip"
proof -
  have "hd (drop skip frames) = frames ! skip" using assms(2) by (rule hd_drop_conv_nth)
  then obtain ls where ls: "stack_loop fmt (getNumDigitsOfDemical (of_nat (length frames))) 0 None (drop skip frames) = Inr ls"
    using stack_loop_total [of None "drop skip frames"] assms(3) by metis
  from stack_loop_length [OF ls] ls assms(1) show ?thesis by (simp add: callstack_def)
qed

text \<open>A frame that the linker does not know is given the names of the frame before it; if it is the
  first one, the names are not initialised.\<close>

lemma callstack_stale:
  "callstack (\<lambda>d i a s n. the s) ''T'' [\<lparr>f_address = 1, f_info = Some (Some ''main'', Some ''a.out''), f_demangled = None\<rparr>,
     \<lparr>f_address = 2, f_info = None, f_demangled = None\<rparr>] 0 = Inr [''T'', ''main'', ''main'']"
  by (simp add: callstack_def or_unknown_def Let_def)

lemma callstack_uninitialised:
  "f_info f = None \<Longrightarrow> callstack fmt thread [f] 0 = Inl Undefined_behaviour"
  by (simp add: callstack_def)

text \<open>
  On Windows a frame has what \<^verbatim>\<open>SymFromAddr\<close> finds, address and name of the symbol, and what
  \<^verbatim>\<open>SymGetLineFromAddr64\<close> finds, file and line. The address lives in a buffer through the loop, which is
  zero at first; a name or a line that is not found is overwritten, the address is not.
\<close>

record win_frame =
  w_symbol :: "(u64 \<times> string) option"
  w_line :: "(string \<times> nat) option"

fun win_stack_loop ::
    "(u32 \<Rightarrow> nat \<Rightarrow> u64 \<Rightarrow> string \<Rightarrow> string \<Rightarrow> nat \<Rightarrow> string) \<Rightarrow> u32 \<Rightarrow> nat \<Rightarrow> u64 \<Rightarrow> win_frame list
      \<Rightarrow> string list" where
  "win_stack_loop fmt digits i address [] = []"
| "win_stack_loop fmt digits i address (f # fs) =
     (let (address1, name) = (case w_symbol f of None \<Rightarrow> (address, ''??'') | Some s \<Rightarrow> s);
          (fileName, lineNumber) = (case w_line f of None \<Rightarrow> (''??'', 0) | Some l \<Rightarrow> l)
      in fmt digits i address1 name fileName lineNumber # win_stack_loop fmt digits (Suc i) address1 fs)"

definition win_callstack ::
    "(u32 \<Rightarrow> nat \<Rightarrow> u64 \<Rightarrow> string \<Rightarrow> string \<Rightarrow> nat \<Rightarrow> string) \<Rightarrow> string \<Rightarrow> win_frame list \<Rightarrow> nat
      \<Rightarrow> string list" where
  "win_callstack fmt thread frames skip =
     (let stack = take 128 (drop skip frames) in
      thread # win_stack_loop fmt (getNumDigitsOfDemical (of_nat (length stack))) 0 0 stack)"

lemma win_callstack_lines: "length (win_callstack fmt thread frames skip) = 1 + min 128 (length frames - skip)"
proof -
  have "length (win_stack_loop fmt digits i address fs) = length fs" for digits i address fs
    by (induction fs arbitrary: i address) (auto simp: Let_def split: option.splits prod.splits)
  then show ?thesis by (simp add: win_callstack_def min.commute)
qed

text \<open>A frame without a symbol is printed with the address of the symbol before it.\<close>

lemma win_callstack_stale:
  "win_callstack (\<lambda>d i a s f n. if a = 7 then s else ''other'') ''T''
     [\<lparr>w_symbol = Some (7, ''main''), w_line = None\<rparr>, \<lparr>w_symbol = None, w_line = None\<rparr>] 0 = [''T'', ''main'', ''??'']"
  by (simp add: win_callstack_def)

section \<open>The picture of a search\<close>

text \<open>Rows are C strings: one cell for the terminator at their end.\<close>

type_synonym picture = "string list"

definition set_cell :: "picture \<Rightarrow> nat \<Rightarrow> nat \<Rightarrow> char \<Rightarrow> error + picture" where
  "set_cell g y x c =
     (if y < length g \<and> x < length (g ! y) then Inr (g[y := (g ! y)[x := c]]) else Inl Undefined_behaviour)"

definition initDebug :: "(nat \<Rightarrow> nat \<Rightarrow> bool) \<Rightarrow> nat \<Rightarrow> nat \<Rightarrow> nat \<times> nat \<Rightarrow> error + picture" where
  "initDebug isBlock width height finish =
     (let g = map (\<lambda>y. map (\<lambda>x. if isBlock x y then CHR ''#'' else CHR '' '') [0..<width] @ [CHR 0x00]) [0..<height]
      in set_cell g (snd finish) (fst finish) (CHR ''$''))"

text \<open>The picture after, and the lines printed.\<close>

definition debug :: "nat \<times> nat \<Rightarrow> char \<Rightarrow> picture \<Rightarrow> error + picture \<times> string list" where
  "debug node symbol g =
     bindE (set_cell g (snd node) (fst node) symbol) (\<lambda>g1.
       if \<exists>l\<in>set g1. CHR 0x00 \<notin> set l then Inl Undefined_behaviour
       else Inr (g1, map (takeWhile (\<lambda>c. c \<noteq> CHR 0x00)) g1))"

lemma debug_example:
  "bindE (initDebug (\<lambda>x y. x = y) 3 2 (2, 0)) (debug (0, 1) (CHR ''o'')) =
     Inr ([''# $'' @ [CHR 0x00], ''o# '' @ [CHR 0x00]], [''# $'', ''o# ''])"
  by code_simp

end
