(* ===== verification/Time_Tool.thy ===== *)
theory Time_Tool
  imports Civil_Time "HOL-Library.Signed_Division"
begin

text \<open>
  Calendar functions (TimeTool.h). Times are milliseconds since 1970 in \<^verbatim>\<open>uint64_t\<close>; what the
  clocks show is an argument. The local time zone of the C library is a fixed offset \<open>off\<close> to UTC in
  seconds, without daylight saving time.
\<close>

section \<open>Dates of the C library\<close>

record tm =
  tm_sec :: int
  tm_min :: int
  tm_hour :: int
  tm_mday :: int
  tm_mon :: int
  tm_year :: int
  tm_wday :: int

definition GMTime :: "int \<Rightarrow> tm" where
  "GMTime t =
     (let day = t div 86400; s = t mod 86400; (y, m, d) = civil_from_days day
      in \<lparr>tm_sec = s mod 60, tm_min = s div 60 mod 60, tm_hour = s div 3600,
          tm_mday = d, tm_mon = m - 1, tm_year = y - 1900, tm_wday = (day + 4) mod 7\<rparr>)"

definition LocalTime :: "int \<Rightarrow> int \<Rightarrow> tm" where
  "LocalTime off t = GMTime (t + off)"

definition mktime :: "int \<Rightarrow> tm \<Rightarrow> int" where
  "mktime off date =
     (let day = days_from_civil (tm_year date + 1900 + tm_mon date div 12, tm_mon date mod 12 + 1, tm_mday date)
      in day * 86400 + tm_hour date * 3600 + tm_min date * 60 + tm_sec date - off)"

section \<open>The functions\<close>

text \<open>The system clock counts nanoseconds, \<open>unit\<close> of which are one tick of the duration.\<close>

definition getUnixtime :: "int \<Rightarrow> int \<Rightarrow> int" where
  "getUnixtime unit ns = ns sdiv unit"

definition getSystemTime :: "int \<Rightarrow> int" where
  "getSystemTime ns = getUnixtime 1000000 ns"

definition getTickCount :: "int \<Rightarrow> int \<Rightarrow> u64" where
  "getTickCount tv_sec tv_nsec = of_int tv_sec * 1000 + of_int (tv_nsec sdiv 1000000)"

definition or_now :: "int \<Rightarrow> u64 \<Rightarrow> u64" where
  "or_now ns time = (if time = 0 then of_int (getSystemTime ns) else time)"

definition getZeroHourOfTime :: "int \<Rightarrow> int \<Rightarrow> u64 \<Rightarrow> u64" where
  "getZeroHourOfTime off ns time =
     (let time = or_now ns time;
          date = LocalTime off (uint (time div 1000));
          date = date\<lparr>tm_hour := 0, tm_min := 0, tm_sec := 0\<rparr>
      in of_int (mktime off date) * 1000)"

definition getFirstDayOfWeek :: "int \<Rightarrow> int \<Rightarrow> u64 \<Rightarrow> u32 \<Rightarrow> u64" where
  "getFirstDayOfWeek off ns time startOfWeek =
     (let time = or_now ns time;
          date = LocalTime off (uint (time div 1000));
          offset = tm_wday date - uint (startOfWeek mod 7);
          offset = (if offset < 0 then offset + 7 else offset);
          time = time - of_int offset * 86400000;
          date = LocalTime off (uint (time div 1000));
          date = date\<lparr>tm_hour := 0, tm_min := 0, tm_sec := 0\<rparr>
      in of_int (mktime off date) * 1000)"

definition getFirstDayOfMonth :: "int \<Rightarrow> int \<Rightarrow> u64 \<Rightarrow> u64" where
  "getFirstDayOfMonth off ns time =
     (let time = or_now ns time;
          date = LocalTime off (uint (time div 1000));
          date = date\<lparr>tm_mday := 1, tm_hour := 0, tm_min := 0, tm_sec := 0\<rparr>
      in of_int (mktime off date) * 1000)"

text \<open>\<open>ns2\<close> is the clock at the second look at it, if there is one.\<close>

definition isYesterdayBefore :: "int \<Rightarrow> int \<Rightarrow> int \<Rightarrow> u64 \<Rightarrow> u64 \<Rightarrow> bool" where
  "isYesterdayBefore off ns ns2 time offset =
     (if time = 0 then True
      else let now = of_int (getSystemTime ns) :: u64 in
        if now \<le> time then False
        else let diff = now - offset - getZeroHourOfTime off ns2 (time - offset)
          in 24 * 3600000 < diff)"

definition getDayOfWeek :: "int \<Rightarrow> int \<Rightarrow> u64 \<Rightarrow> int" where
  "getDayOfWeek off ns time = (let time = or_now ns time in tm_wday (LocalTime off (uint (time div 1000))))"

definition getDayOfMonth :: "int \<Rightarrow> int \<Rightarrow> u64 \<Rightarrow> int" where
  "getDayOfMonth off ns time = (let time = or_now ns time in tm_mday (LocalTime off (uint (time div 1000))))"

text \<open>\<open>t\<close> is what \<^verbatim>\<open>time(nullptr)\<close> returns.\<close>

definition getTimeZoneOffset :: "int \<Rightarrow> int \<Rightarrow> int" where
  "getTimeZoneOffset off t = (let gmt = GMTime t; gmts = mktime off gmt in (t - gmts) sdiv 60)"

text \<open>
  \<^verbatim>\<open>String::formatTime\<close> has room for 29 characters; a longer text leaves the buffer
  indeterminate. \<open>strftime\<close> is the function of the C library.
\<close>

definition formatTime :: "(string \<Rightarrow> tm \<Rightarrow> string) \<Rightarrow> int \<Rightarrow> int \<Rightarrow> string \<Rightarrow> string option" where
  "formatTime strftime off time format =
     (let date = LocalTime off time; s = strftime format date in if length s < 30 then Some s else None)"

lemma time_example:
  "GMTime 1700000000 = \<lparr>tm_sec = 20, tm_min = 13, tm_hour = 22, tm_mday = 14, tm_mon = 10, tm_year = 123, tm_wday = 2\<rparr>"
  by code_simp

section \<open>Local days\<close>

text \<open>The number of the local day of a time in seconds, and the first millisecond of a day.\<close>

definition local_day :: "int \<Rightarrow> int \<Rightarrow> int" where
  "local_day off s = (s + off) div 86400"

definition day_start :: "int \<Rightarrow> int \<Rightarrow> int" where
  "day_start off k = (k * 86400 - off) * 1000"

lemma mktime_GMTime: "mktime off (GMTime t) = t - off"
proof -
  obtain y m d where c: "civil_from_days (t div 86400) = (y, m, d)" by (metis prod_cases3)
  with days_of_civil [of "t div 86400"] have m: "1 \<le> m" "m \<le> 12" and z: "days_from_civil (y, m, d) = t div 86400"
    by auto
  have "(m - 1) div 12 = 0" "(m - 1) mod 12 = m - 1" using m by simp_all
  moreover have "s div 3600 * 3600 + (s div 60 mod 60 * 60 + s mod 60) = s" for s :: int
  proof -
    have "s div 60 div 60 = s div 3600" by (simp add: zdiv_zmult2_eq [symmetric])
    moreover have "s = s div 60 * 60 + s mod 60" "s div 60 = s div 60 div 60 * 60 + s div 60 mod 60"
      by (rule div_mult_mod_eq [symmetric])+
    ultimately show ?thesis by linarith
  qed
  moreover have "t div 86400 * 86400 + t mod 86400 = t" by (rule div_mult_mod_eq)
  ultimately show ?thesis by (simp add: mktime_def GMTime_def c z Let_def)
qed

lemma mktime_midnight:
  "mktime off ((LocalTime off s)\<lparr>tm_hour := 0, tm_min := 0, tm_sec := 0\<rparr>) = local_day off s * 86400 - off"
proof -
  obtain y m d where c: "civil_from_days ((s + off) div 86400) = (y, m, d)" by (metis prod_cases3)
  with days_of_civil [of "(s + off) div 86400"] have m: "1 \<le> m" "m \<le> 12"
    and z: "days_from_civil (y, m, d) = (s + off) div 86400" by auto
  have "(m - 1) div 12 = 0" "(m - 1) mod 12 = m - 1" using m by simp_all
  then show ?thesis by (simp add: mktime_def LocalTime_def GMTime_def c z Let_def local_day_def)
qed

lemma mktime_first:
  assumes "civil_from_days (local_day off s) = (y, m, d)"
  shows "mktime off ((LocalTime off s)\<lparr>tm_mday := 1, tm_hour := 0, tm_min := 0, tm_sec := 0\<rparr>)
    = (local_day off s - (d - 1)) * 86400 - off"
proof -
  have m: "1 \<le> m" "m \<le> 12" using days_of_civil [of "local_day off s"] assms by auto
  have "(m - 1) div 12 = 0" "(m - 1) mod 12 = m - 1" using m by simp_all
  with civil_first [OF assms] assms show ?thesis
    by (simp add: mktime_def LocalTime_def GMTime_def Let_def local_day_def)
qed

lemma day_bounds: "day_start off (local_day off (t div 1000)) \<le> t" "t < day_start off (local_day off (t div 1000) + 1)"
proof -
  define s where "s = t div 1000"
  define k where "k = local_day off s"
  have s: "1000 * s \<le> t" "t < 1000 * s + 1000" unfolding s_def by linarith+
  have "86400 * k \<le> s + off" "s + off < 86400 * k + 86400" unfolding k_def local_day_def by linarith+
  with s have "day_start off k \<le> t" "t < day_start off (k + 1)" by (simp_all add: day_start_def)
  then show "day_start off (local_day off (t div 1000)) \<le> t" "t < day_start off (local_day off (t div 1000) + 1)"
    by (simp_all add: k_def s_def)
qed

lemma day_start_le: "day_start off j \<le> t \<longleftrightarrow> j \<le> local_day off (t div 1000)"
proof
  assume "day_start off j \<le> t"
  with day_bounds(2) [of t off] have "day_start off j < day_start off (local_day off (t div 1000) + 1)" by linarith
  then show "j \<le> local_day off (t div 1000)" by (simp add: day_start_def)
next
  assume "j \<le> local_day off (t div 1000)"
  then have "day_start off j \<le> day_start off (local_day off (t div 1000))" by (simp add: day_start_def)
  with day_bounds(1) [of off t] show "day_start off j \<le> t" by linarith
qed

text \<open>Milliseconds that are not negative fit.\<close>

lemma uint_day_start:
  assumes "0 \<le> day_start off k" and "k \<le> local_day off (uint (time :: u64) div 1000)"
  shows "uint (of_int (k * 86400 - off) * 1000 :: u64) = day_start off k"
proof -
  have "day_start off k \<le> uint time" using assms(2) by (simp add: day_start_le)
  then have "day_start off k < 2 ^ 64" using uint_lt2p [of time] by simp
  with assms(1) have "uint (of_int (day_start off k) :: u64) = day_start off k"
    by (simp add: uint_of_int_small)
  then show ?thesis by (simp add: day_start_def)
qed

lemma local_seconds: "uint ((time :: u64) div 1000) = uint time div 1000"
  by (simp add: uint_div)

lemma day_start_mono: "j \<le> k \<Longrightarrow> day_start off j \<le> day_start off k"
  by (simp add: day_start_def)

text \<open>The tail of the functions for the day and for the week.\<close>

lemma midnight:
  assumes "0 \<le> day_start off (local_day off (uint (time :: u64) div 1000))"
  shows "uint (of_int (mktime off ((LocalTime off (uint (time div 1000)))\<lparr>tm_hour := 0, tm_min := 0, tm_sec := 0\<rparr>)) * 1000 :: u64)
    = day_start off (local_day off (uint time div 1000))"
  unfolding mktime_midnight local_seconds by (rule uint_day_start [OF assms order.refl])

lemma zero_hour:
  assumes "0 \<le> day_start off (local_day off (uint (or_now ns time) div 1000))"
  shows "uint (getZeroHourOfTime off ns time) = day_start off (local_day off (uint (or_now ns time) div 1000))"
  unfolding getZeroHourOfTime_def Let_def by (rule midnight [OF assms])

lemma days_back:
  assumes "0 \<le> n" and "n * 86400000 \<le> uint (time :: u64)"
  shows "local_day off (uint (time - of_int n * 86400000) div 1000) = local_day off (uint time div 1000) - n"
proof -
  have "n * 86400000 < 2 ^ 64" using assms(2) uint_lt2p [of time] by simp
  then have "uint (of_int (n * 86400000) :: u64) = n * 86400000"
    using assms(1) by (intro uint_of_int_small) simp_all
  then have n: "uint (of_int n * 86400000 :: u64) = n * 86400000" by simp
  with assms(2) have "of_int n * 86400000 \<le> time" by (simp only: Word.word_le_def)
  then have "uint (time - of_int n * 86400000) = uint time - n * 86400000"
    using n by (simp add: uint_minus_simple_alt)
  moreover have "(uint time - n * 86400000) div 1000 = uint time div 1000 - n * 86400" by linarith
  moreover have "(uint time div 1000 - n * 86400 + off) div 86400 = (uint time div 1000 + off) div 86400 - n" by linarith
  ultimately show ?thesis by (simp only: local_day_def)
qed

lemma week_offset:
  fixes w s :: int
  assumes "0 \<le> w" and "w < 7" and "0 \<le> s" and "s < 7"
  shows "(if w - s < 0 then w - s + 7 else w - s) = (w - s) mod 7"
proof (cases "w - s < 0")
  case True
  then have "(w - s + 7) mod 7 = w - s + 7" using assms by (intro mod_pos_pos_trivial) linarith+
  with True show ?thesis by simp
next
  case False
  then show ?thesis using assms by (simp add: mod_pos_pos_trivial)
qed

lemma tm_wday_local: "tm_wday (LocalTime off s) = (local_day off s + 4) mod 7"
  by (simp add: LocalTime_def GMTime_def Let_def local_day_def split: prod.splits)

lemma tm_mday_local: "civil_from_days (local_day off s) = (y, m, d) \<Longrightarrow> tm_mday (LocalTime off s) = d"
  by (simp add: LocalTime_def GMTime_def Let_def local_day_def)

section \<open>Properties\<close>

lemma first_of_week:
  assumes D': "D = local_day off (uint (or_now ns time) div 1000)" and "0 \<le> day_start off (D - 6)"
  shows "\<exists>k. uint (getFirstDayOfWeek off ns time startOfWeek) = day_start off k
    \<and> k \<le> D \<and> D < k + 7 \<and> (k + 4) mod 7 = uint startOfWeek mod 7"
proof -
  define T where "T = or_now ns time"
  define s where "s = uint startOfWeek mod 7"
  define n where "n = ((D + 4) mod 7 - s) mod 7"
  have s: "uint (startOfWeek mod 7) = s" "0 \<le> s" "s < 7" by (simp_all add: s_def uint_mod)
  have n: "0 \<le> n" "n \<le> 6" using pos_mod_bound [of 7 "(D + 4) mod 7 - s"] by (simp_all add: n_def)
  have off: "(if (D + 4) mod 7 - s < 0 then (D + 4) mod 7 - s + 7 else (D + 4) mod 7 - s) = n"
    unfolding n_def by (rule week_offset) (use s in simp_all)
  have D: "D = local_day off (uint T div 1000)" by (simp add: D' T_def)
  have "day_start off D \<le> uint T" unfolding D by (simp add: day_start_le)
  moreover have "day_start off D = day_start off (D - 6) + 6 * 86400000" by (simp add: day_start_def)
  ultimately have "n * 86400000 \<le> uint T" using assms(2) n(2) by linarith
  from days_back [OF n(1) this, of off]
  have behind: "local_day off (uint (T - of_int n * 86400000) div 1000) = D - n" by (simp add: D)
  have "0 \<le> day_start off (D - n)" using day_start_mono [of "D - 6" "D - n" off] n(2) assms(2) by linarith
  then have "uint (getFirstDayOfWeek off ns time startOfWeek) = day_start off (D - n)"
    unfolding getFirstDayOfWeek_def Let_def tm_wday_local local_seconds T_def [symmetric] D [symmetric] s off
    using midnight [of off "T - of_int n * 86400000", unfolded local_seconds] by (simp add: behind)
  moreover have "(D - n + 4) mod 7 = s"
  proof -
    have "(D - n + 4) mod 7 = ((D + 4) - ((D + 4) - s)) mod 7"
      unfolding n_def by (metis (no_types) add_diff_eq diff_add_eq mod_diff_left_eq mod_diff_right_eq)
    then show ?thesis using s by simp
  qed
  ultimately show ?thesis using n by (intro exI [of _ "D - n"]) (simp add: s_def)
qed

lemma first_of_month:
  assumes D: "D = local_day off (uint (or_now ns time) div 1000)" and c: "civil_from_days D = (y, m, d)"
    and "0 \<le> day_start off (D - 30)"
  shows "uint (getFirstDayOfMonth off ns time) = day_start off (D - (d - 1))"
    and "civil_from_days (D - (d - 1)) = (y, m, 1)"
proof -
  have d: "1 \<le> d" "d \<le> 31" using days_of_civil [of D] c by auto
  have "0 \<le> day_start off (D - (d - 1))"
    using day_start_mono [of "D - 30" "D - (d - 1)" off] d assms(3) by linarith
  then have "uint (of_int ((D - (d - 1)) * 86400 - off) * 1000 :: u64) = day_start off (D - (d - 1))"
    using d(1) D by (intro uint_day_start [of _ _ "or_now ns time"]) simp_all
  then show "uint (getFirstDayOfMonth off ns time) = day_start off (D - (d - 1))"
    unfolding getFirstDayOfMonth_def Let_def local_seconds mktime_first [OF c [unfolded D]] by (simp only: D)
  show "civil_from_days (D - (d - 1)) = (y, m, 1)" using civil_first [OF c] by blast
qed



text \<open>\<^verbatim>\<open>isYesterdayBefore\<close> says that a time lies, by clocks set back by the offset, on an
  earlier local day than now, with one exception: when the day after has just begun, in its
  first millisecond, the answer is still no.\<close>

theorem yesterday_before:
  assumes "time \<noteq> 0" and "offset < time" and "time < now" and "now = of_int (getSystemTime ns)"
    and "0 \<le> day_start off (local_day off (uint (time - offset) div 1000))"
  shows "isYesterdayBefore off ns ns2 time offset \<longleftrightarrow>
    local_day off (uint (time - offset) div 1000) < local_day off (uint (now - offset) div 1000)
    \<and> uint (now - offset) \<noteq> day_start off (local_day off (uint (time - offset) div 1000) + 1)"
proof -
  define t where "t = time - offset"
  define n where "n = now - offset"
  define k where "k = local_day off (uint t div 1000)"
  have ut: "uint t = uint time - uint offset" and un: "uint n = uint now - uint offset"
    using assms(2,3) by (simp_all add: t_def n_def uint_minus_simple_alt [symmetric] Word.word_le_def word_less_def)
  then have "t \<noteq> 0" using assms(2) by (auto simp: word_less_def)
  then have "or_now ns2 t = t" by (simp add: or_now_def)
  then have z: "uint (getZeroHourOfTime off ns2 t) = day_start off k"
    using zero_hour [of off ns2 t] assms(5) by (simp add: k_def t_def)
  have "day_start off k \<le> uint t" by (simp add: day_start_le k_def)
  then have le: "day_start off k \<le> uint n" using ut un assms(3) by (simp add: word_less_def)
  then have "uint (n - getZeroHourOfTime off ns2 t) = uint n - day_start off k"
    using z by (metis uint_minus_simple_alt Word.word_le_def)
  note diff = this
  have next_day: "day_start off (k + 1) = day_start off k + 86400000" by (simp add: day_start_def)
  have "24 * 3600000 < n - getZeroHourOfTime off ns2 t \<longleftrightarrow> day_start off k + 86400000 < uint n"
    using diff by (auto simp: word_less_def)
  also have "\<dots> \<longleftrightarrow> day_start off (k + 1) < uint n" using next_day by simp
  also have "\<dots> \<longleftrightarrow> day_start off (k + 1) \<le> uint n \<and> uint n \<noteq> day_start off (k + 1)" by auto
  also have "\<dots> \<longleftrightarrow> k < local_day off (uint n div 1000) \<and> uint n \<noteq> day_start off (k + 1)"
    by (simp add: day_start_le add1_zle_eq)
  finally show ?thesis
    using assms(1,3) unfolding isYesterdayBefore_def Let_def assms(4) [symmetric] by (simp add: n_def t_def k_def)
qed

theorem yesterday_before_witness:
  "\<not> isYesterdayBefore 0 (864000000 * 1000000) 0 777600001 0 \<and> isYesterdayBefore 0 (864000001 * 1000000) 0 777600001 0"
proof -
  have now: "864000000 = (of_int (getSystemTime (864000000 * 1000000)) :: u64)"
    "864000001 = (of_int (getSystemTime (864000001 * 1000000)) :: u64)"
    by (simp_all add: getSystemTime_def getUnixtime_def)
  have days: "local_day 0 777600 = 9" "local_day 0 864000 = 10" by (simp_all add: local_day_def)
  from yesterday_before [OF _ _ _ now(1), of 777600001 0 0 0] yesterday_before [OF _ _ _ now(2), of 777600001 0 0 0]
  show ?thesis by (simp add: days day_start_def)
qed

text \<open>The offset in minutes, for offsets of whole minutes; \<^verbatim>\<open>getTickCount\<close> counts milliseconds.\<close>

lemma zone_offset: "getTimeZoneOffset (60 * n) t = n"
  by (simp add: getTimeZoneOffset_def mktime_GMTime signed_divide_int_def abs_mult sgn_if)

lemma tick_count:
  assumes "0 \<le> s" and "s < 2 ^ 50" and "0 \<le> ns" and "ns < 10 ^ 9"
  shows "uint (getTickCount s ns) = (s * 10 ^ 9 + ns) div 10 ^ 6"
proof -
  have "ns div 1000000 < 1000" "0 \<le> ns div 1000000" using assms by simp_all
  then have "uint (of_int (s * 1000 + ns div 1000000) :: u64) = s * 1000 + ns div 1000000"
    using assms by (intro uint_of_int_small) simp_all
  moreover have "ns sdiv 1000000 = ns div 1000000" using assms by (auto simp: signed_divide_int_def sgn_if)
  ultimately have "uint (getTickCount s ns) = s * 1000 + ns div 1000000" by (simp add: getTickCount_def)
  then show ?thesis by simp
qed

text \<open>The year 0 to 1970 is not a time here: a day that begins before 1970 in the local zone gives a
  huge number.\<close>

lemma early_day_wraps: "getZeroHourOfTime 28800 0 1000 = - 28800000"
  unfolding getZeroHourOfTime_def Let_def mktime_midnight by (simp add: or_now_def local_day_def)

end
