(* ===== verification/Spec2Isabelle.thy ===== *)
theory Spec2Isabelle
  imports Byte_Array Ring_Buffer Timer_Schedule Event_Dispatch Sony_Flake A_Star_Cost Strings Network_Path Server_Windows_Life Server_Mac_Life Db_Queue_Life Http_Client Db_Statement_Props Db_Handles Geometry Diagnostics Time_Tool
begin

text \<open>
  Verification of libws, a C++ library for game servers: buffers, timers, events and other tools
  (wsCore), sockets and HTTP requests (wsNetwork) and a MySQL client (wsDatabase). The library is a
  set of classes that a program uses together; what they share is ByteArray, the buffer that sockets,
  statements and records fill and empty, and the pattern of a queue with worker threads.

  \<^bold>\<open>Theories and code.\<close> A record is a class or struct, with the names of its fields where they are
  free; a definition has the name of its function, with a prefix of its class where two have the same
  name. The paths are those of src/.

    \<^item> Prelude: machine types, errors as values, memory blocks, size_t arithmetic, the loop that
      doubles a capacity. Byte_Stream: the contract of a buffer as a locale, with length-prefixed
      frames.
    \<^item> Byte_Array (wsCore/src/ByteArray.cpp, include/ws/core/ByteArray.h) and Ring_Buffer
      (RingBuffer.cpp, RingBuffer.h): both interpret the contract of Byte_Stream.
    \<^item> Timer_Wheel and Timer_Schedule (Timer.cpp, Timer.h): the five wheels of slots, insertion,
      the tick that expands and dispatches them, and runs of the timer.
    \<^item> Event_Dispatch (Event.cpp, Event.h, Signal.h, ObjectPool.h): listeners by priority, signals and
      the pool.
    \<^item> Sony_Flake (Sonyflake.h): ids from time, machine and sequence number.
    \<^item> Binary_Heap, A_Star, A_Star_Path, A_Star_Cost (AStar.cpp, AStar.h): the heap of open nodes, which
      interprets a locale of priority queues, the nodes with their generations, the search, and what its
      paths cost.
    \<^item> Strings (String.cpp, String.h): splitting, joining, URL coding, trimming, copying.
    \<^item> Random_Numbers and Geometry (Math.h): random numbers from the outputs of the generator, chances,
      vectors and rectangles. Utils (Utils.h, Utils.cpp): numbers, enums, the pid file. Civil_Time: the
      calendar. Time_Tool (TimeTool.h): days, weeks and months of a time. Diagnostics (Profiler.cpp,
      Utils.cpp, AStar.cpp): memory in use, the call stack, the picture of a search.
    \<^item> Socket_Io: results of recv and send. Client_Socket (wsNetwork/src/ClientSocket.cpp,
      ClientSocket.h): connecting, the worker's turns, the callbacks of the main thread.
    \<^item> Server_Socket and Server_Life (ServerSocket.cpp, ServerSocket.h): the part of the server that all
      platforms share and its Linux version with epoll; Server_Windows and Server_Windows_Life the
      completion ports, with their pool of overlapped objects; Server_Mac and Server_Mac_Life kqueue.
      Network_Path goes from the send buffer of a client to the records that a server reads.
    \<^item> Request_Queue: two locales for queues of requests that workers answer. Db_Queue and
      Db_Queue_Life (wsDatabase/src/Database.cpp: DBQueue) and Http_Client (wsNetwork/src/HttpClient.cpp,
      HttpClient.h) interpret them.
    \<^item> Db_Statement and Db_Statement_Props (Database.cpp, Database.h: DBStatement): bindings and results
      of prepared statements. Database: the connection, its cache of statements, records. Db_Handles: the
      handles of the MySQL library that a database owns, and the worker threads of DBQueue, each with a
      database of its own.

  \<^bold>\<open>State.\<close> A class is a record that its operations return updated. Objects that are shared through
  pointers are addresses in a heap that is part of the state (timers, clients, nodes, overlapped
  objects). An error is a value: \<open>Inl\<close> of bad_alloc, a read-only array, a loop that does not end, or
  undefined behaviour, so that each theorem with \<open>Inr\<close> says that none of these happens. What an operating
  system, MySQL, libcurl or a clock returns is an argument of the definitions: a list of results stands
  for the results of successive calls, which wait at its end. Threads are interleavings of atomic steps,
  each of which is a critical section of the code or a callback; a run is the reflexive transitive
  closure of a step relation, and what is said of every run is proved by rule induction from an
  invariant.

  \<^bold>\<open>What is proved.\<close> Buffers: no sequence of operations leaves the memory of a ByteArray, and both
  buffers behave as a stream of bytes, hence alike; numbers, strings and hexadecimal text come back as
  they were written. Timers: a call fires at the tick it was added for, never after its removal, and the
  wheels keep each call where it is due. Events: a dispatch calls the listeners of its beginning in
  order, and the registry refines a list. Ids increase, and the wait for the next tick ends. Paths are
  connected, free and found whenever there is one; with a consistent heuristic they are cheapest, and
  with the default one at most 1 / 0.707 times as dear. Splitting and joining are inverse, and the two
  overloads agree. Sockets: bytes are sent in order, none is lost or sent twice, callbacks of a connection
  come in pairs, each client of a server lives one life on all three platforms, and strings go from one
  end to the other. Queues: every request is queued, with a worker, finished, answered or dropped, exactly
  one of these; the destructor can always come to its end and leaves no worker. Statements: what was
  bound is sent, with the types that MySQL expects, and times survive. The cache keeps the statements in
  use, and a worker thread leaves no handle of the library open and uses none that is closed. Tools: random numbers stay in their range and chances are fair, the first millisecond of a day,
  a week and a month is right. Where the code does something else than it means to, a lemma of the
  section on corner cases shows it at an example.

  \<^bold>\<open>Bounds and fuel.\<close> Loops over a list are recursion over it. The loop of a capacity, of an unused id
  and of a clock are partial functions with the value None for a loop that does not end, and it is
  proved when they return. The search of A* takes the bound that the code has, the number of nodes it
  may look at. The loop that posts what a Windows client has to send takes the number of waiting bytes
  as fuel; win_flush_posts shows that it is enough. Words have the widths of the code; size_t is a nat
  modulo 2 to the 64, and overflow of an int is undefined behaviour.

  \<^bold>\<open>Idealised.\<close> Costs of paths are elements of an ordered field and vectors of doubles are pairs of
  reals, without rounding; that paths are sound and complete does not depend on it, what they cost does; the random numbers are rounded as doubles are. Characters are those of the C
  locale. The local time zone is a fixed offset. size_t, long and time_t have 64 bits.
  The order in which hash maps are walked and in which sort leaves equal elements is an argument. A
  memory access inside a step is not interleaved with other threads; races of the code on plain flags
  are described among the findings instead.

  \<^bold>\<open>Not modelled.\<close> Log lines, the addresses of peers, texts of errors, the compile-time traits of smart
  pointers, class templates for containers other than those that their functions use, destructors that
  only free memory, the C++ declarations of the headers, tests and build files. The library has no
  further code of its own: OpenSSL, libcurl, the MySQL client, fmt and spdlog are outside of it.
\<close>

section \<open>The two buffers\<close>



end
